(* ===== verification/Prelude.thy ===== *)
theory Prelude
  imports Main "HOL-Library.Word" "HOL-Library.AList"
begin

text \<open>
  Shared ground of the development: the machine types of the C++ code, the values that stand
  for its exceptions and traps, loops that may fail, and the lemmas on lists, association
  lists and words that the component theories use.

  Conventions.
  \<^item> \<open>uint8_t\<close>, \<open>uint16_t\<close>, \<open>uint32_t\<close> and \<open>uint64_t\<close> are words of that width, so that
    arithmetic wraps as in C++. \<open>size_t\<close> values that only count stored elements are \<open>nat\<close>.
    \<open>int\<close> is HOL's \<open>int\<close> (the theorems bound the values where the width matters).
  \<^item> A byte buffer (\<open>const void* key, size_t key_len\<close>) is the list of its bytes.
  \<^item> A hash container that the code iterates over or measures is the list of its entries, in
    an iteration order; \<open>AList.update\<close> replaces an entry in place and puts a new one at the
    end. A container that is only asked for membership is a set.
  \<^item> A C++ exception or trap is the left value of a sum.
\<close>

unbundle bit_operations_syntax

section \<open>Types\<close>

type_synonym u8 = "8 word"
type_synonym u16 = "16 word"
type_synonym u32 = "32 word"
type_synonym u64 = "64 word"

type_synonym bytes = "u8 list"

text \<open>What a C++ operation can end with instead of a value.\<close>

datatype error =
    InvalidArgument string   \<comment> \<open>\<open>std::invalid_argument\<close>\<close>
  | OutOfRange string        \<comment> \<open>\<open>std::out_of_range\<close>\<close>
  | RuntimeError string      \<comment> \<open>\<open>std::runtime_error\<close>\<close>
  | DivideByZero             \<comment> \<open>integer division by zero (a trap)\<close>
  | Undefined                \<comment> \<open>undefined behaviour, e.g. a negative shift count\<close>

type_synonym 'a res = "error + 'a"

named_theorems res_simps "equations for computations that may fail"
named_theorems u64_simps "reading 64-bit counters as natural numbers"

section \<open>Computations that may fail\<close>

fun bind_res :: "'a res \<Rightarrow> ('a \<Rightarrow> 'b res) \<Rightarrow> 'b res" where
  "bind_res (Inl e) f = Inl e"
| "bind_res (Inr x) f = f x"

definition is_ok :: "'a res \<Rightarrow> bool" where
  "is_ok r \<longleftrightarrow> (case r of Inl _ \<Rightarrow> False | Inr _ \<Rightarrow> True)"

lemma is_ok_simps [simp, res_simps]:
  "is_ok (Inr x)" "\<not> is_ok (Inl e)"
  by (simp_all add: is_ok_def)

lemma bind_res_eq_Inr [res_simps]:
  "bind_res r f = Inr y \<longleftrightarrow> (\<exists>x. r = Inr x \<and> f x = Inr y)"
  by (cases r) auto

lemma bind_res_cong [fundef_cong]:
  "r = s \<Longrightarrow> (\<And>x. s = Inr x \<Longrightarrow> f x = g x) \<Longrightarrow> bind_res r f = bind_res s g"
  by (cases s) auto

lemma bind_res_eq_Inl:
  "bind_res r f = Inl e \<longleftrightarrow> r = Inl e \<or> (\<exists>x. r = Inr x \<and> f x = Inl e)"
  by (cases r) auto

text \<open>A range-based \<open>for\<close> loop whose body may throw: the first failure ends it.\<close>

fun fold_res :: "('a \<Rightarrow> 's \<Rightarrow> 's res) \<Rightarrow> 'a list \<Rightarrow> 's \<Rightarrow> 's res" where
  "fold_res f [] s = Inr s"
| "fold_res f (x # xs) s = bind_res (f x s) (fold_res f xs)"

lemma fold_res_Inr [res_simps]: "fold_res (\<lambda>x s. Inr (f x s)) xs s = Inr (fold f xs s)"
  by (induction xs arbitrary: s) auto

lemma fold_res_append:
  "fold_res f (xs @ ys) s = bind_res (fold_res f xs s) (fold_res f ys)"
proof (induction xs arbitrary: s)
  case (Cons x xs)
  then show ?case by (cases "f x s") auto
qed simp

lemma bind_res_Inr [simp]: "bind_res r Inr = r"
  by (cases r) simp_all

lemma fold_res_map: "fold_res f (map g xs) s = fold_res (\<lambda>x. f (g x)) xs s"
proof (induction xs arbitrary: s)
  case (Cons x xs)
  then show ?case by (cases "f (g x) s") simp_all
qed simp

lemma fold_res_snoc: "fold_res f (xs @ [x]) s = bind_res (fold_res f xs s) (f x)"
proof -
  have "fold_res f [] = Inr" by (rule ext) simp
  then have "fold_res f [x] = f x" by (intro ext) simp
  then show ?thesis by (simp add: fold_res_append)
qed

text \<open>The loop rule: a relation between the elements done and the state, kept by every step.\<close>

lemma fold_res_invariant:
  assumes "fold_res f xs s = Inr t" and "P [] s"
    and "\<And>ys x u v. P ys u \<Longrightarrow> x \<in> set xs \<Longrightarrow> f x u = Inr v \<Longrightarrow> P (ys @ [x]) v"
  shows "P xs t"
proof -
  have "P (ys @ xs) t"
    if "fold_res f xs s = Inr t" "P ys s"
      "\<And>ys x u v. P ys u \<Longrightarrow> x \<in> set xs \<Longrightarrow> f x u = Inr v \<Longrightarrow> P (ys @ [x]) v" for ys
    using that
  proof (induction xs arbitrary: s ys)
    case Nil
    then show ?case by simp
  next
    case (Cons x xs)
    from Cons.prems(1) obtain u where u: "f x s = Inr u" "fold_res f xs u = Inr t"
      by (auto simp: bind_res_eq_Inr)
    from Cons.prems(2,3) u(1) have "P (ys @ [x]) u" by simp
    from Cons.IH [OF u(2) this] Cons.prems(3) show ?case by simp
  qed
  from this [of "[]"] assms show ?thesis by simp
qed

section \<open>Lists\<close>

text \<open>A loop that updates every row of a table once.\<close>

lemma fold_update_each:
  "n \<le> length t \<Longrightarrow>
   fold (\<lambda>i t. t[i := g i (t ! i)]) [0..<n] t = map (\<lambda>i. g i (t ! i)) [0..<n] @ drop n t"
proof (induction n)
  case 0
  then show ?case by simp
next
  case (Suc n)
  then have n: "n < length t" by simp
  have d: "drop n t = t ! n # drop (Suc n) t"
    using n by (simp add: Cons_nth_drop_Suc)
  show ?case
    using Suc n by (simp add: d nth_append list_update_append)
qed

lemma count_list_filter: "count_list xs x = length (filter (\<lambda>y. y = x) xs)"
  by (induction xs) auto

lemma length_filter_mono:
  "(\<And>x. x \<in> set xs \<Longrightarrow> P x \<Longrightarrow> Q x) \<Longrightarrow> length (filter P xs) \<le> length (filter Q xs)"
  by (induction xs) (auto simp: le_SucI)

text \<open>A loop that keeps a running minimum.\<close>

lemma le_fold_min:
  fixes a :: "'b::linorder"
  shows "x \<le> fold (\<lambda>i m. min m (f i)) is a \<longleftrightarrow> x \<le> a \<and> (\<forall>i \<in> set is. x \<le> f i)"
  by (induction "is" arbitrary: a) auto

lemma fold_min_Min:
  fixes a :: "'b::linorder"
  assumes "is \<noteq> []" and "\<And>i. i \<in> set is \<Longrightarrow> f i \<le> a"
  shows "fold (\<lambda>i m. min m (f i)) is a = Min (f ` set is)" (is "?m = _")
proof (rule antisym)
  show "?m \<le> Min (f ` set is)"
    using assms(1) le_fold_min [of ?m f "is" a] by simp
  show "Min (f ` set is) \<le> ?m"
    using assms le_fold_min [of "Min (f ` set is)" f "is" a]
    by (metis List.finite_set Min_le finite_imageI image_eqI list.set_sel(1) order_trans)
qed

section \<open>Words\<close>

lemma unat_of_nat_u64 [u64_simps]: "n < 2 ^ 64 \<Longrightarrow> unat (of_nat n :: u64) = n"
  by (simp add: unat_of_nat take_bit_nat_eq_self)

lemma of_nat_u64_le [u64_simps]:
  "m < 2 ^ 64 \<Longrightarrow> n < 2 ^ 64 \<Longrightarrow> (of_nat m :: u64) \<le> of_nat n \<longleftrightarrow> m \<le> n"
  by (simp add: word_le_nat_alt unat_of_nat_u64)

lemma of_nat_u64_Suc: "(of_nat n :: u64) + 1 = of_nat (Suc n)"
  by simp

lemma unat_less_u64 [simp]: "unat (x :: u64) < 18446744073709551616"
  using unsigned_less [of x] by simp

section \<open>Association lists\<close>

lemmas alist_simps = AList.update_conv' AList.delete_conv' AList.distinct_update
  AList.distinct_delete AList.dom_update

lemma alist_update_keys:
  "map fst (AList.update k v al) = (if k \<in> fst ` set al then map fst al else map fst al @ [k])"
  by (simp add: AList.update_keys)

lemma map_of_mapk: "map_of (map (\<lambda>(k, v). (k, f k v)) al) x = map_option (f x) (map_of al x)"
  by (induction al) auto

end
