(* ===== verification/Text.thy ===== *)
theory Text
  imports Prelude
begin

text \<open>
  \<open>std::string\<close> as the code uses it: searching, splitting at a delimiter with \<open>std::getline\<close>,
  \<open>std::to_string\<close> and the conversions \<open>std::stoi\<close>, \<open>std::stoul\<close>, \<open>std::stoull\<close> with their
  exceptions (\<open>unsigned long\<close> has 64 bits). A string is the list of its bytes; \<open>npos\<close> is \<open>None\<close>.
\<close>

section \<open>Searching\<close>

fun index_from :: "(char \<Rightarrow> bool) \<Rightarrow> string \<Rightarrow> nat \<Rightarrow> nat option" where
  "index_from P [] i = None"
| "index_from P (c # cs) i = (if P c then Some i else index_from P cs (i + 1))"

text \<open>\<open>find(c, pos)\<close>, \<open>find_first_of\<close>, \<open>find_first_not_of\<close>: the first position from \<open>pos\<close> whose byte
  satisfies \<open>P\<close>.\<close>

definition find_first :: "(char \<Rightarrow> bool) \<Rightarrow> string \<Rightarrow> nat \<Rightarrow> nat option" where
  "find_first P s pos = index_from P (drop pos s) pos"

definition find_last :: "(char \<Rightarrow> bool) \<Rightarrow> string \<Rightarrow> nat option" where
  "find_last P s =
     (case index_from P (rev s) 0 of None \<Rightarrow> None | Some i \<Rightarrow> Some (length s - 1 - i))"

fun starts_with :: "string \<Rightarrow> string \<Rightarrow> bool" where
  "starts_with [] s = True"
| "starts_with (c # cs) [] = False"
| "starts_with (c # cs) (d # ds) = (c = d \<and> starts_with cs ds)"

fun find_str_from :: "string \<Rightarrow> string \<Rightarrow> nat \<Rightarrow> nat option" where
  "find_str_from n [] i = (if n = [] then Some i else None)"
| "find_str_from n (c # cs) i =
     (if starts_with n (c # cs) then Some i else find_str_from n cs (i + 1))"

text \<open>\<open>s.find(n)\<close>\<close>

definition find_str :: "string \<Rightarrow> string \<Rightarrow> nat option" where
  "find_str n s = find_str_from n s 0"

text \<open>\<open>s.substr(pos, n)\<close> for \<open>pos \<le> s.size()\<close>\<close>

definition substr :: "string \<Rightarrow> nat \<Rightarrow> nat \<Rightarrow> string" where
  "substr s pos n = take n (drop pos s)"

lemma index_from_None: "index_from P s i = None \<longleftrightarrow> (\<forall>c \<in> set s. \<not> P c)"
  by (induction P s i rule: index_from.induct) auto

lemma index_from_Some:
  "index_from P s i = Some j \<Longrightarrow> i \<le> j \<and> j < i + length s \<and>
     takeWhile (\<lambda>c. \<not> P c) s = take (j - i) s \<and> dropWhile (\<lambda>c. \<not> P c) s = drop (j - i) s \<and> P (s ! (j - i))"
proof (induction P s i rule: index_from.induct)
  case (2 P c cs i)
  show ?case
  proof (cases "P c")
    case True
    with 2(2) show ?thesis by auto
  next
    case False
    with 2 have "i + 1 \<le> j" "j < i + 1 + length cs"
      "takeWhile (\<lambda>c. \<not> P c) cs = take (j - (i + 1)) cs"
      "dropWhile (\<lambda>c. \<not> P c) cs = drop (j - (i + 1)) cs" "P (cs ! (j - (i + 1)))" by auto
    moreover have "j - i = Suc (j - (i + 1))" using calculation(1) by simp
    ultimately show ?thesis using False by simp
  qed
qed simp

lemma find_first_None: "find_first P s pos = None \<longleftrightarrow> (\<forall>c \<in> set (drop pos s). \<not> P c)"
  by (simp add: find_first_def index_from_None)

lemma find_first_Some:
  assumes "find_first P s pos = Some j"
  shows "pos \<le> j" "j < length s" "takeWhile (\<lambda>c. \<not> P c) (drop pos s) = substr s pos (j - pos)"
    "dropWhile (\<lambda>c. \<not> P c) (drop pos s) = drop j s" "P (s ! j)"
  using index_from_Some [OF assms [unfolded find_first_def]] by (auto simp: substr_def)

section \<open>Lines and fields\<close>

text \<open>The results of calling \<open>std::getline(in, part, d)\<close> until it fails.\<close>

function getlines :: "char \<Rightarrow> string \<Rightarrow> string list" where
  "getlines d s =
     (if s = [] then []
      else takeWhile (\<lambda>c. c \<noteq> d) s # getlines d (tl (dropWhile (\<lambda>c. c \<noteq> d) s)))"
  by pat_completeness auto
termination
proof (relation "measure (\<lambda>(d, s). length s)", goal_cases)
  case (2 d s)
  have "length (dropWhile (\<lambda>c. c \<noteq> d) s) \<le> length s" by (rule length_dropWhile_le)
  then have "length (tl (dropWhile (\<lambda>c. c \<noteq> d) s)) \<le> length s - 1" by simp
  moreover have "0 < length s" using 2 by simp
  ultimately show ?case by (simp only: in_measure case_prod_conv)
qed simp

declare getlines.simps [simp del]

lemma getlines_Nil [simp]: "getlines d [] = []"
  by (simp add: getlines.simps)

lemma getlines_part:
  "d \<notin> set p \<Longrightarrow> getlines d (p @ d # s) = p # getlines d s"
proof -
  assume "d \<notin> set p"
  then have "takeWhile (\<lambda>c. c \<noteq> d) (p @ d # s) = p" "dropWhile (\<lambda>c. c \<noteq> d) (p @ d # s) = d # s"
    by (auto simp: takeWhile_append dropWhile_append)
  then show ?thesis by (subst getlines.simps) simp
qed

lemma getlines_last: "d \<notin> set p \<Longrightarrow> p \<noteq> [] \<Longrightarrow> getlines d p = [p]"
proof -
  assume "d \<notin> set p" "p \<noteq> []"
  then have "takeWhile (\<lambda>c. c \<noteq> d) p = p" "dropWhile (\<lambda>c. c \<noteq> d) p = []"
    by (auto simp: takeWhile_eq_all_conv dropWhile_eq_Nil_conv)
  with \<open>p \<noteq> []\<close> show ?thesis by (simp add: getlines.simps [of d p] del: dropWhile_eq_Nil_conv)
qed

section \<open>Output\<close>

definition unlines :: "string list \<Rightarrow> string" where
  "unlines ls = concat (map (\<lambda>l. l @ [CHR 0x0A]) ls)"

lemma unlines_simps [simp]:
  "unlines [] = []" "unlines (l # ls) = l @ CHR 0x0A # unlines ls" "unlines (xs @ ys) = unlines xs @ unlines ys"
  by (simp_all add: unlines_def)

text \<open>The dash that the texts of the programs use, in UTF-8.\<close>

definition dash :: string where
  "dash = [CHR 0xE2, CHR 0x80, CHR 0x94]"

section \<open>Numbers\<close>

definition is_digit :: "char \<Rightarrow> bool" where
  "is_digit c \<longleftrightarrow> 48 \<le> (of_char c :: nat) \<and> (of_char c :: nat) \<le> 57"

definition is_space :: "char \<Rightarrow> bool" where
  "is_space c \<longleftrightarrow> (of_char c :: nat) = 32 \<or> (9 \<le> (of_char c :: nat) \<and> (of_char c :: nat) \<le> 13)"

definition digit_value :: "char \<Rightarrow> nat" where
  "digit_value c = of_char c - 48"

definition decimal :: "string \<Rightarrow> nat" where
  "decimal = foldl (\<lambda>n c. 10 * n + digit_value c) 0"

fun sign :: "string \<Rightarrow> bool \<times> string" where
  "sign (CHR ''-'' # s) = (True, s)"
| "sign (CHR ''+'' # s) = (False, s)"
| "sign s = (False, s)"

text \<open>The common scanner of \<open>strtol\<close> and \<open>strtoull\<close>: is the number negated, and its magnitude.\<close>

definition scan_number :: "string \<Rightarrow> string \<Rightarrow> (bool \<times> nat) res" where
  "scan_number fn s =
     (let (neg, s) = sign (dropWhile is_space s); ds = takeWhile is_digit s
      in if ds = [] then Inl (InvalidArgument fn) else Inr (neg, decimal ds))"

definition stoi :: "string \<Rightarrow> int res" where
  "stoi s = bind_res (scan_number ''stoi'' s) (\<lambda>(neg, n).
     let v = (if neg then - int n else int n)
     in if v < - (2 ^ 31) \<or> 2 ^ 31 \<le> v then Inl (OutOfRange ''stoi'') else Inr v)"

definition sto_u64 :: "string \<Rightarrow> string \<Rightarrow> u64 res" where
  "sto_u64 fn s = bind_res (scan_number fn s) (\<lambda>(neg, n).
     if 2 ^ 64 \<le> n then Inl (OutOfRange fn)
     else Inr (if neg then - of_nat n else of_nat n))"

definition stoul :: "string \<Rightarrow> u64 res" where
  "stoul = sto_u64 ''stoul''"

definition stoull :: "string \<Rightarrow> u64 res" where
  "stoull = sto_u64 ''stoull''"

definition digit_char :: "nat \<Rightarrow> char" where
  "digit_char d = char_of (48 + d)"

fun to_string :: "nat \<Rightarrow> string" where
  "to_string n = (if n < 10 then [digit_char n] else to_string (n div 10) @ [digit_char (n mod 10)])"

declare to_string.simps [simp del]

text \<open>\<open>std::to_string(int)\<close> and \<open>operator<<\<close> on an \<open>int\<close>\<close>

definition int_to_string :: "int \<Rightarrow> string" where
  "int_to_string i = (if i < 0 then CHR ''-'' # to_string (nat (- i)) else to_string (nat i))"

lemma digit_char [simp]:
  "d < 10 \<Longrightarrow> is_digit (digit_char d)" "d < 10 \<Longrightarrow> digit_value (digit_char d) = d"
  by (simp_all add: is_digit_def digit_value_def digit_char_def)

lemma to_string_digits: "c \<in> set (to_string n) \<Longrightarrow> is_digit c"
proof (induction n rule: to_string.induct)
  case (1 n)
  then show ?case by (subst (asm) to_string.simps) (auto split: if_splits)
qed

lemma to_string_not_Nil [simp]: "to_string n \<noteq> []"
  by (subst to_string.simps) simp

lemma decimal_to_string [simp]: "decimal (to_string n) = n"
proof (induction n rule: to_string.induct)
  case (1 n)
  show ?case
  proof (cases "n < 10")
    case True
    then show ?thesis by (subst to_string.simps) (simp add: decimal_def)
  next
    case False
    with 1 have "decimal (to_string (n div 10)) = n div 10" by simp
    with False show ?thesis by (subst to_string.simps) (simp add: decimal_def)
  qed
qed

lemma is_digit_not: "is_digit c \<Longrightarrow> c \<noteq> CHR ''-'' \<and> c \<noteq> CHR ''+'' \<and> c \<noteq> CHR ''.'' \<and> c \<noteq> CHR 0x22 \<and>
    c \<noteq> CHR '','' \<and> c \<noteq> CHR ''}'' \<and> c \<noteq> CHR '':'' \<and> c \<noteq> CHR '' '' \<and> c \<noteq> CHR 0x09 \<and> c \<noteq> CHR 0x0A \<and>
    c \<noteq> CHR ''/'' \<and> \<not> is_space c"
  by (auto simp: is_digit_def is_space_def)

lemma scan_number_to_string:
  assumes "\<And>c cs. rest = c # cs \<Longrightarrow> \<not> is_digit c"
  shows "scan_number fn (to_string n @ rest) = Inr (False, n)"
proof -
  obtain c cs where c: "to_string n = c # cs" by (cases "to_string n") auto
  have d: "is_digit c" using to_string_digits [of c n] c by simp
  then have "dropWhile is_space (to_string n @ rest) = to_string n @ rest"
    using c is_digit_not by simp
  moreover have "sign (to_string n @ rest) = (False, to_string n @ rest)"
    using c is_digit_not [OF d] by (cases "c # cs @ rest" rule: sign.cases) auto
  moreover have "takeWhile is_digit (to_string n @ rest) = to_string n"
    using to_string_digits [of _ n] assms by (cases rest) (auto simp: takeWhile_append)
  ultimately show ?thesis by (simp add: scan_number_def)
qed

lemma stoi_to_string: "n < 2 ^ 31 \<Longrightarrow> stoi (to_string n) = Inr (int n)"
  using scan_number_to_string [of "[]" "''stoi''" n] by (simp add: stoi_def)

lemma sto_u64_to_string: "n < 2 ^ 64 \<Longrightarrow> sto_u64 fn (to_string n) = Inr (of_nat n)"
  using scan_number_to_string [of "[]" fn n] by (simp add: sto_u64_def)

end
