(* ===== verification/Estimator.thy ===== *)
theory Estimator
  imports Prelude
begin

text \<open>
  \<open>dsa::frequency::Estimator\<close> (\<open>libdsa/include/dsa/frequency/estimator.h\<close>): the abstract
  class of the stream frequency estimators. Its virtual functions are the fields of the
  record \<open>estimator_ops\<close>, so that a call through the interface is the application of a field,
  and its convenience members encode an address or a pair of addresses as the bytes of the
  integer (a little-endian host).

  The locales state what a client may rely on: \<open>estimator\<close> that every operation succeeds and
  that the state stands for the stream recorded since the last \<open>reset\<close>; \<open>over_estimator\<close>,
  \<open>under_estimator\<close> and \<open>exact_estimator\<close> on which side of the true count the answer lies.
\<close>

section \<open>The interface\<close>

record 'e estimator_ops =
  op_record :: "'e \<Rightarrow> bytes \<Rightarrow> 'e res"
  op_estimate :: "'e \<Rightarrow> bytes \<Rightarrow> u64 res"
  op_reset :: "'e \<Rightarrow> 'e"
  op_memory_usage :: "'e \<Rightarrow> u64"
  op_name :: "'e \<Rightarrow> string"

section \<open>Integer keys\<close>

definition byte_at :: "nat \<Rightarrow> 'a::len word \<Rightarrow> u8" where
  "byte_at i w = ucast (drop_bit (8 * i) w)"

definition bytes_of_u32 :: "u32 \<Rightarrow> bytes" where
  "bytes_of_u32 w = map (\<lambda>i. byte_at i w) [0..<4]"

definition bytes_of_u64 :: "u64 \<Rightarrow> bytes" where
  "bytes_of_u64 w = map (\<lambda>i. byte_at i w) [0..<8]"

text \<open>\<open>memcpy\<close> of four bytes into an integer.\<close>

definition load32 :: "u8 \<Rightarrow> u8 \<Rightarrow> u8 \<Rightarrow> u8 \<Rightarrow> u32" where
  "load32 a b c d =
     ucast a OR push_bit 8 (ucast b) OR push_bit 16 (ucast c) OR push_bit 24 (ucast d)"

definition record_u32 :: "'e estimator_ops \<Rightarrow> 'e \<Rightarrow> u32 \<Rightarrow> 'e res" where
  "record_u32 ops e key = op_record ops e (bytes_of_u32 key)"

definition estimate_u32 :: "'e estimator_ops \<Rightarrow> 'e \<Rightarrow> u32 \<Rightarrow> u64 res" where
  "estimate_u32 ops e key = op_estimate ops e (bytes_of_u32 key)"

definition pack_pair :: "u32 \<Rightarrow> u32 \<Rightarrow> u64" where
  "pack_pair src dst = push_bit 32 (ucast src) OR ucast dst"

definition record_pair :: "'e estimator_ops \<Rightarrow> 'e \<Rightarrow> u32 \<Rightarrow> u32 \<Rightarrow> 'e res" where
  "record_pair ops e src dst = op_record ops e (bytes_of_u64 (pack_pair src dst))"

definition estimate_pair :: "'e estimator_ops \<Rightarrow> 'e \<Rightarrow> u32 \<Rightarrow> u32 \<Rightarrow> u64 res" where
  "estimate_pair ops e src dst = op_estimate ops e (bytes_of_u64 (pack_pair src dst))"

text \<open>Distinct integers are distinct keys.\<close>

lemma bit_byte_at: "bit (byte_at i w) n \<longleftrightarrow> n < 8 \<and> bit w (8 * i + n)"
  by (auto simp: byte_at_def bit_simps)

lemma bit_of_byte: "bit w n \<longleftrightarrow> bit (byte_at (n div 8) w) (n mod 8)"
  by (simp add: bit_byte_at)

lemma eq_by_bytes:
  fixes v w :: "'a::len word"
  assumes "\<And>i. 8 * i < LENGTH('a) \<Longrightarrow> byte_at i v = byte_at i w"
  shows "v = w"
proof (rule bit_word_eqI)
  fix n
  assume "n < LENGTH('a)"
  then have "8 * (n div 8) < LENGTH('a)" by (metis le_less_trans div_times_less_eq_dividend mult.commute)
  with assms show "bit v n = bit w n" by (subst (1 2) bit_of_byte) simp
qed

lemma bytes_of_u32_inject [simp]: "bytes_of_u32 v = bytes_of_u32 w \<longleftrightarrow> v = w"
proof
  assume "bytes_of_u32 v = bytes_of_u32 w"
  then have eq: "\<forall>i \<in> {0..<4}. byte_at i v = byte_at i w"
    by (simp only: bytes_of_u32_def map_eq_conv set_upt)
  show "v = w"
  proof (rule eq_by_bytes)
    fix i :: nat
    assume "8 * i < LENGTH(32)"
    then have "i \<in> {0..<4}" by auto
    with eq show "byte_at i v = byte_at i w" by blast
  qed
qed simp

lemma bytes_of_u64_inject [simp]: "bytes_of_u64 v = bytes_of_u64 w \<longleftrightarrow> v = w"
proof
  assume "bytes_of_u64 v = bytes_of_u64 w"
  then have eq: "\<forall>i \<in> {0..<8}. byte_at i v = byte_at i w"
    by (simp only: bytes_of_u64_def map_eq_conv set_upt)
  show "v = w"
  proof (rule eq_by_bytes)
    fix i :: nat
    assume "8 * i < LENGTH(64)"
    then have "i \<in> {0..<8}" by auto
    with eq show "byte_at i v = byte_at i w" by blast
  qed
qed simp

lemma load32_bytes_of_u32:
  "load32 (byte_at 0 w) (byte_at 1 w) (byte_at 2 w) (byte_at 3 w) = w"
proof (rule bit_word_eqI)
  fix n
  assume "n < LENGTH(32)"
  then show "bit (load32 (byte_at 0 w) (byte_at 1 w) (byte_at 2 w) (byte_at 3 w)) n = bit w n"
    by (cases "n < 8"; cases "n < 16"; cases "n < 24") (auto simp: load32_def bit_simps bit_byte_at)
qed

lemma pack_pair_inject [simp]: "pack_pair s d = pack_pair s' d' \<longleftrightarrow> s = s' \<and> d = d'"
proof
  assume eq: "pack_pair s d = pack_pair s' d'"
  have hi: "ucast (drop_bit 32 (pack_pair x y)) = x" and lo: "ucast (pack_pair x y) = y" for x y
    by (rule bit_word_eqI; auto simp: pack_pair_def bit_simps dest: bit_imp_le_length)+
  show "s = s' \<and> d = d'" using hi lo eq by metis
qed simp

lemma inj_bytes_of_u32: "inj bytes_of_u32"
  by (simp add: inj_on_def)

lemma length_bytes_of_u32 [simp]: "length (bytes_of_u32 w) = 4"
  by (simp add: bytes_of_u32_def)

lemma count_list_map_inj: "inj f \<Longrightarrow> count_list (map f xs) (f x) = count_list xs x"
  by (induction xs) (auto simp: inj_eq)

section \<open>Contracts\<close>

text \<open>
  \<open>Inv e xs\<close>: the object \<open>e\<close> has recorded the stream \<open>xs\<close> since it was made or reset.
\<close>

locale estimator =
  fixes ops :: "'e estimator_ops" and Inv :: "'e \<Rightarrow> bytes list \<Rightarrow> bool"
  assumes record_ok: "Inv e xs \<Longrightarrow> \<exists>e'. op_record ops e k = Inr e' \<and> Inv e' (xs @ [k])"
    and estimate_ok: "Inv e xs \<Longrightarrow> \<exists>n. op_estimate ops e k = Inr n"
    and reset_ok: "Inv e xs \<Longrightarrow> Inv (op_reset ops e) []"
begin

lemma record_all:
  "Inv e xs \<Longrightarrow> \<exists>e'. fold_res (\<lambda>k e. op_record ops e k) ks e = Inr e' \<and> Inv e' (xs @ ks)"
proof (induction ks arbitrary: e xs)
  case (Cons k ks)
  from record_ok [OF Cons.prems, of k] obtain e' where
    e': "op_record ops e k = Inr e'" "Inv e' (xs @ [k])" by blast
  from Cons.IH [OF e'(2)] e'(1) show ?case by simp
qed simp

lemma record_u32_ok:
  "Inv e xs \<Longrightarrow> \<exists>e'. record_u32 ops e ip = Inr e' \<and> Inv e' (xs @ [bytes_of_u32 ip])"
  by (simp add: record_u32_def record_ok)

lemma record_u32_all:
  "Inv e xs \<Longrightarrow> \<exists>e'. fold_res (\<lambda>ip e. record_u32 ops e ip) ips e = Inr e' \<and> Inv e' (xs @ map bytes_of_u32 ips)"
proof (induction ips arbitrary: e xs)
  case (Cons ip ips)
  from record_u32_ok [OF Cons.prems, of ip] obtain e' where
    e': "record_u32 ops e ip = Inr e'" "Inv e' (xs @ [bytes_of_u32 ip])" by blast
  from Cons.IH [OF e'(2)] e'(1) show ?case by simp
qed simp

lemma record_inv: "Inv e xs \<Longrightarrow> op_record ops e k = Inr e' \<Longrightarrow> Inv e' (xs @ [k])"
  using record_ok [of e xs k] by auto

end

locale over_estimator = estimator +
  assumes over: "Inv e xs \<Longrightarrow> length xs < 2 ^ 64 \<Longrightarrow> op_estimate ops e k = Inr n \<Longrightarrow>
    count_list xs k \<le> unat n"

locale under_estimator = estimator +
  assumes under: "Inv e xs \<Longrightarrow> length xs < 2 ^ 64 \<Longrightarrow> op_estimate ops e k = Inr n \<Longrightarrow>
    unat n \<le> count_list xs k"

locale exact_estimator = estimator +
  assumes exact: "Inv e xs \<Longrightarrow> length xs < 2 ^ 64 \<Longrightarrow> op_estimate ops e k = Inr n \<Longrightarrow>
    unat n = count_list xs k"

sublocale exact_estimator \<subseteq> over_estimator
  by unfold_locales (simp add: exact)

sublocale exact_estimator \<subseteq> under_estimator
  by unfold_locales (simp add: exact)

text \<open>
  An over- and an under-estimator of one stream bracket the true count, whatever the
  implementations.
\<close>

locale bracket = o: over_estimator aops AInv + u: under_estimator bops BInv
  for aops :: "'a estimator_ops" and AInv and bops :: "'b estimator_ops" and BInv
begin

lemma bracketed:
  assumes "AInv a xs" and "BInv b xs" and "length xs < 2 ^ 64"
    and "op_estimate aops a k = Inr m" and "op_estimate bops b k = Inr n"
  shows "unat n \<le> count_list xs k \<and> count_list xs k \<le> unat m"
  using o.over u.under assms by blast

end

end
