(* ===== verification/Event.thy ===== *)
theory Event
  imports Text Estimator
begin

text \<open>
  Network events and their text form: \<open>dsa::NetworkEvent\<close> and \<open>ip_from_octets\<close>
  (\<open>libdsa/include/dsa/common.h\<close>), the reader of the pipeline (\<open>pipeline/src/engine.cpp\<close>), the
  JSON line the collector prints (\<open>collector/src/user/collector.cpp\<close>), and the address parser of
  the port-scan tool (\<open>tools/portscan-pipeline/parser.cpp\<close>).
\<close>

section \<open>Events and addresses\<close>

record net_event =
  src_ip :: u32
  dst_ip :: u32
  dst_port :: u16
  pid :: u32
  timestamp_ns :: u64

definition ip_from_octets :: "u8 \<Rightarrow> u8 \<Rightarrow> u8 \<Rightarrow> u8 \<Rightarrow> u32" where
  "ip_from_octets a b c d =
     push_bit 24 (ucast a) OR push_bit 16 (ucast b) OR push_bit 8 (ucast c) OR ucast d"

definition octet :: "nat \<Rightarrow> u32 \<Rightarrow> u32" where
  "octet shift ip = drop_bit shift ip AND 0xFF"

definition dotted :: "nat \<Rightarrow> nat \<Rightarrow> nat \<Rightarrow> nat \<Rightarrow> string" where
  "dotted a b c d = to_string a @ ''.'' @ to_string b @ ''.'' @ to_string c @ ''.'' @ to_string d"

definition ip_to_string :: "u32 \<Rightarrow> string" where
  "ip_to_string ip = dotted (unat (octet 24 ip)) (unat (octet 16 ip)) (unat (octet 8 ip)) (unat (octet 0 ip))"

text \<open>\<open>static_cast<uint8_t>(std::stoi(part))\<close>\<close>

definition parse_ip :: "string \<Rightarrow> u32 res" where
  "parse_ip s =
     bind_res
       (fold_res (\<lambda>part (octets, idx).
            bind_res (stoi part) (\<lambda>v. Inr (octets[idx := word_of_int v], idx + 1)))
          (take 4 (getlines CHR ''.'' s)) ([0, 0, 0, 0] :: u8 list, 0 :: nat))
       (\<lambda>(octets, idx). Inr (ip_from_octets (octets ! 0) (octets ! 1) (octets ! 2) (octets ! 3)))"

section \<open>The field extractor\<close>

definition quoted :: "string \<Rightarrow> string" where
  "quoted s = [CHR 0x22] @ s @ [CHR 0x22]"

definition json_string_value :: "string \<Rightarrow> string \<Rightarrow> string" where
  "json_string_value json key =
     (case find_str (quoted key) json of
        None \<Rightarrow> ''''
      | Some pos \<Rightarrow>
     (case find_first (\<lambda>c. c = CHR '':'') json (pos + length (quoted key)) of
        None \<Rightarrow> ''''
      | Some pos \<Rightarrow>
     (case find_first (\<lambda>c. c \<notin> {CHR '' '', CHR 0x09}) json (pos + 1) of
        None \<Rightarrow> ''''
      | Some pos \<Rightarrow>
     (if json ! pos = CHR 0x22
      then (case find_first (\<lambda>c. c = CHR 0x22) json (pos + 1) of
              None \<Rightarrow> ''''
            | Some end \<Rightarrow> substr json (pos + 1) (end - pos - 1))
      else (case find_first (\<lambda>c. c \<in> {CHR '','', CHR ''}'', CHR '' '', CHR 0x09, CHR 0x0A}) json pos of
              None \<Rightarrow> drop pos json
            | Some end \<Rightarrow> substr json pos (end - pos))))))"

text \<open>\<open>Inr None\<close> is the answer \<open>false\<close>.\<close>

definition parse_event :: "string \<Rightarrow> net_event option res" where
  "parse_event line =
     (if line = [] \<or> hd line \<noteq> CHR ''{'' then Inr None
      else
        let src = json_string_value line ''src_ip'';
            dst = json_string_value line ''dst_ip'';
            port = json_string_value line ''dst_port'';
            pd = json_string_value line ''pid'';
            ts = json_string_value line ''timestamp_ns''
        in if src = [] \<or> dst = [] then Inr None
           else
             bind_res (parse_ip src) (\<lambda>s.
             bind_res (parse_ip dst) (\<lambda>d.
             bind_res (if port = [] then Inr 0 else stoul port) (\<lambda>po.
             bind_res (if pd = [] then Inr 0 else stoul pd) (\<lambda>p.
             bind_res (if ts = [] then Inr 0 else stoull ts) (\<lambda>t.
               Inr (Some \<lparr>src_ip = s, dst_ip = d, dst_port = ucast po, pid = ucast p,
                          timestamp_ns = t\<rparr>)))))))"

section \<open>The collector's line\<close>

text \<open>\<open>inet_ntop\<close> prints the bytes of the integer in the order they have in memory.\<close>

definition ip_to_str :: "u32 \<Rightarrow> string" where
  "ip_to_str nbo =
     dotted (unat (byte_at 0 nbo)) (unat (byte_at 1 nbo)) (unat (byte_at 2 nbo)) (unat (byte_at 3 nbo))"

text \<open>What \<open>handle_event\<close> writes; \<open>data_sz\<close> is the size of the record, 24 that of its struct.\<close>

definition event_json :: "net_event \<Rightarrow> string" where
  "event_json evt =
     CHR ''{'' # quoted ''src_ip'' @ CHR '':'' # quoted (ip_to_str (src_ip evt)) @ CHR '','' #
     quoted ''dst_ip'' @ CHR '':'' # quoted (ip_to_str (dst_ip evt)) @ CHR '','' #
     quoted ''dst_port'' @ CHR '':'' # to_string (unat (dst_port evt)) @ CHR '','' #
     quoted ''pid'' @ CHR '':'' # to_string (unat (pid evt)) @ CHR '','' #
     quoted ''timestamp_ns'' @ CHR '':'' # to_string (unat (timestamp_ns evt)) @ ''}''"

definition handle_event :: "nat \<Rightarrow> net_event \<Rightarrow> string" where
  "handle_event data_sz evt = (if data_sz < 24 then '''' else event_json evt @ [CHR 0x0A])"

section \<open>The tool's address parser\<close>

definition parse_ipv4 :: "string \<Rightarrow> u32 res" where
  "parse_ipv4 s =
     bind_res
       (fold_res (\<lambda>part (octets, idx).
            bind_res (stoul part) (\<lambda>v. Inr (octets[idx := ucast v], idx + 1)))
          (take 4 (getlines CHR ''.'' s)) ([0, 0, 0, 0] :: u32 list, 0 :: nat))
       (\<lambda>(octets, idx).
          if idx \<noteq> 4 then Inr 0
          else Inr (push_bit 24 (octets ! 0) OR push_bit 16 (octets ! 1) OR push_bit 8 (octets ! 2) OR octets ! 3))"

section \<open>Addresses round trip\<close>

lemma getlines_dotted:
  "getlines CHR ''.'' (dotted a b c d) = [to_string a, to_string b, to_string c, to_string d]"
proof -
  have n: "CHR ''.'' \<notin> set (to_string n)" for n
    using to_string_digits is_digit_not by blast
  show ?thesis
    by (simp add: dotted_def getlines_part [OF n] getlines_last [OF n])
qed

lemma parse_ip_dotted:
  assumes "a < 256" "b < 256" "c < 256" "d < 256"
  shows "parse_ip (dotted a b c d) =
    Inr (ip_from_octets (of_nat a) (of_nat b) (of_nat c) (of_nat d))"
  using assms by (simp add: parse_ip_def getlines_dotted stoi_to_string)

lemma octet_take_bit: "octet s ip = take_bit 8 (drop_bit s ip)"
  by (simp add: octet_def take_bit_eq_mask mask_eq_exp_minus_1)

lemma unat_octet: "unat (octet s ip) < 256"
  using take_bit_nat_less_exp [of 8 "unat (drop_bit s ip)"]
  by (simp add: octet_take_bit unsigned_take_bit_eq)

lemma ip_from_octets_octets:
  "ip_from_octets (ucast (octet 24 ip)) (ucast (octet 16 ip)) (ucast (octet 8 ip)) (ucast (octet 0 ip)) = ip"
proof -
  have o: "(ucast (octet s ip) :: u8) = ucast (drop_bit s ip)" for s
    by (rule bit_word_eqI) (simp add: octet_take_bit bit_simps)
  show ?thesis
    unfolding o
  proof (rule bit_word_eqI)
    fix n
    assume "n < LENGTH(32)"
    then consider "n < 8" | "8 \<le> n" "n < 16" | "16 \<le> n" "n < 24" | "24 \<le> n" "n < 32"
      by fastforce
    then show "bit (ip_from_octets (ucast (drop_bit 24 ip)) (ucast (drop_bit 16 ip))
        (ucast (drop_bit 8 ip)) (ucast (drop_bit 0 ip))) n = bit ip n"
      by cases (auto simp: ip_from_octets_def bit_simps)
  qed
qed

lemma parse_ip_to_string: "parse_ip (ip_to_string ip) = Inr ip"
  unfolding ip_to_string_def
  by (simp add: parse_ip_dotted unat_octet ip_from_octets_octets)

section \<open>The extractor as a scanner\<close>

text \<open>What follows the first occurrence of \<open>n\<close>.\<close>

fun after :: "string \<Rightarrow> string \<Rightarrow> string option" where
  "after n [] = (if n = [] then Some [] else None)"
| "after n (c # cs) = (if starts_with n (c # cs) then Some (drop (length n) (c # cs)) else after n cs)"

definition unquote :: "string \<Rightarrow> string" where
  "unquote t = (if CHR 0x22 \<in> set t then takeWhile (\<lambda>c. c \<noteq> CHR 0x22) t else '''')"

definition scan_value :: "string \<Rightarrow> string" where
  "scan_value t =
     (case dropWhile (\<lambda>c. c \<in> {CHR '' '', CHR 0x09}) t of
        [] \<Rightarrow> ''''
      | c # cs \<Rightarrow>
          if c = CHR 0x22 then unquote cs
          else takeWhile (\<lambda>c. c \<notin> {CHR '','', CHR ''}'', CHR '' '', CHR 0x09, CHR 0x0A}) (c # cs))"

definition json_scan :: "string \<Rightarrow> string \<Rightarrow> string" where
  "json_scan json key =
     (case after (quoted key) json of
        None \<Rightarrow> ''''
      | Some t \<Rightarrow> (case dropWhile (\<lambda>c. c \<noteq> CHR '':'') t of [] \<Rightarrow> '''' | c # cs \<Rightarrow> scan_value cs))"

lemma find_str_from_ge: "find_str_from n s i = Some p \<Longrightarrow> i \<le> p"
  by (induction n s i rule: find_str_from.induct) (fastforce split: if_splits)+

lemma after_find:
  "after n s = (case find_str_from n s i of None \<Rightarrow> None | Some p \<Rightarrow> Some (drop (p - i + length n) s))"
proof (induction n s i rule: find_str_from.induct)
  case (2 n c cs i)
  show ?case
  proof (cases "find_str_from n cs (i + 1)")
    case None
    with 2 show ?thesis by simp
  next
    case (Some q)
    have "i + 1 \<le> q" by (rule find_str_from_ge [OF Some])
    then have "q - i = Suc (q - (i + 1))" by simp
    with Some 2 show ?thesis by auto
  qed
qed auto

lemma unquote_find:
  "unquote (drop pos s) =
     (case find_first (\<lambda>c. c = CHR 0x22) s pos of
        None \<Rightarrow> '''' | Some e \<Rightarrow> substr s pos (e - pos))"
proof (cases "find_first (\<lambda>c. c = CHR 0x22) s pos")
  case None
  then have "CHR 0x22 \<notin> set (drop pos s)" unfolding find_first_None by blast
  with None show ?thesis by (simp add: unquote_def)
next
  case (Some e)
  then have "find_first (\<lambda>c. c = CHR 0x22) s pos \<noteq> None" by simp
  then have "CHR 0x22 \<in> set (drop pos s)" unfolding find_first_None by blast
  with Some find_first_Some(3) [OF Some] show ?thesis by (simp add: unquote_def)
qed

lemma scan_value_find:
  "scan_value (drop q s) =
     (case find_first (\<lambda>c. c \<notin> {CHR '' '', CHR 0x09}) s q of
        None \<Rightarrow> ''''
      | Some pos \<Rightarrow>
        if s ! pos = CHR 0x22
        then (case find_first (\<lambda>c. c = CHR 0x22) s (pos + 1) of
                None \<Rightarrow> '''' | Some e \<Rightarrow> substr s (pos + 1) (e - pos - 1))
        else (case find_first (\<lambda>c. c \<in> {CHR '','', CHR ''}'', CHR '' '', CHR 0x09, CHR 0x0A}) s pos of
                None \<Rightarrow> drop pos s | Some e \<Rightarrow> substr s pos (e - pos)))"
proof (cases "find_first (\<lambda>c. c \<notin> {CHR '' '', CHR 0x09}) s q")
  case None
  then have "dropWhile (\<lambda>c. c \<in> {CHR '' '', CHR 0x09}) (drop q s) = []"
    by (auto simp: find_first_None)
  then have "scan_value (drop q s) = ''''" unfolding scan_value_def by (simp only: list.case)
  with None show ?thesis by simp
next
  case (Some pos)
  note f = find_first_Some [OF Some]
  have d: "dropWhile (\<lambda>c. c \<in> {CHR '' '', CHR 0x09}) (drop q s) = drop pos s"
    using f(4) by simp
  have c: "drop pos s = s ! pos # drop (pos + 1) s" using f(2) by (simp add: Cons_nth_drop_Suc)
  show ?thesis
  proof (cases "s ! pos = CHR 0x22")
    case True
    have "scan_value (drop q s) = unquote (drop (pos + 1) s)"
      unfolding scan_value_def d c by (simp add: True)
    with Some True show ?thesis by (simp only: unquote_find) (simp split: option.split)
  next
    case False
    let ?P = "\<lambda>c. c \<in> {CHR '','', CHR ''}'', CHR '' '', CHR 0x09, CHR 0x0A}"
    have "takeWhile (\<lambda>c. \<not> ?P c) (drop pos s) =
        (case find_first ?P s pos of None \<Rightarrow> drop pos s | Some e \<Rightarrow> substr s pos (e - pos))"
    proof (cases "find_first ?P s pos")
      case None
      then have "\<forall>c \<in> set (drop pos s). \<not> ?P c" by (simp only: find_first_None)
      then have "takeWhile (\<lambda>c. \<not> ?P c) (drop pos s) = drop pos s"
        by (simp only: takeWhile_eq_all_conv)
      with None show ?thesis by simp
    next
      case (Some e)
      with find_first_Some(3) [OF Some] show ?thesis by simp
    qed
    moreover have "scan_value (drop q s) = takeWhile (\<lambda>c. \<not> ?P c) (drop pos s)"
      unfolding scan_value_def d c by (simp add: False)
    ultimately show ?thesis using Some False by simp
  qed
qed

lemma json_string_value_scan: "json_string_value json key = json_scan json key"
proof (cases "find_str (quoted key) json")
  case None
  then show ?thesis
    using after_find [of "quoted key" json 0] by (simp add: json_string_value_def json_scan_def find_str_def)
next
  case (Some p)
  then have a: "after (quoted key) json = Some (drop (p + length (quoted key)) json)"
    using after_find [of "quoted key" json 0] by (simp add: find_str_def)
  show ?thesis
  proof (cases "find_first (\<lambda>c. c = CHR '':'') json (p + length (quoted key))")
    case None
    then have "dropWhile (\<lambda>c. c \<noteq> CHR '':'') (drop (p + length (quoted key)) json) = []"
      by (simp add: find_first_None)
    with a have "json_scan json key = ''''" unfolding json_scan_def by (simp only: list.case option.case)
    with Some None show ?thesis by (simp add: json_string_value_def)
  next
    case (Some q)
    note f = find_first_Some [OF Some]
    have "dropWhile (\<lambda>c. c \<noteq> CHR '':'') (drop (p + length (quoted key)) json) = json ! q # drop (q + 1) json"
      using f(2,4) by (simp add: Cons_nth_drop_Suc)
    with a have "json_scan json key = scan_value (drop (q + 1) json)"
      by (simp add: json_scan_def)
    with Some \<open>find_str (quoted key) json = Some p\<close> show ?thesis
      by (simp only: json_string_value_def option.case scan_value_find)
  qed
qed

section \<open>Reading the collector's line\<close>

definition plain :: "string \<Rightarrow> bool" where
  "plain s \<longleftrightarrow> CHR 0x22 \<notin> set s"

lemma starts_with_append: "starts_with n (n @ s)"
  by (induction n) auto

lemma after_char: "c \<noteq> CHR 0x22 \<Longrightarrow> after (quoted k) (c # s) = after (quoted k) s"
  by (simp add: quoted_def)

lemma after_plain: "plain p \<Longrightarrow> after (quoted k) (p @ s) = after (quoted k) s"
  by (induction p) (auto simp: plain_def after_char simp del: after.simps)

lemma plain_prefix:
  "plain w \<Longrightarrow> plain k \<Longrightarrow> starts_with (k @ [CHR 0x22]) (w @ CHR 0x22 # s) \<Longrightarrow> w = k"
proof (induction k arbitrary: w)
  case Nil
  then show ?case by (cases w) (auto simp: plain_def)
next
  case (Cons c k)
  then show ?case by (cases w) (auto simp: plain_def)
qed

lemma after_hit: "after (quoted k) (quoted k @ s) = Some s"
proof -
  have "quoted k @ s = CHR 0x22 # (k @ [CHR 0x22] @ s)" by (simp add: quoted_def)
  then show ?thesis using starts_with_append [of "quoted k" s] by simp
qed

lemma after_other:
  assumes "plain w" "plain k" "w \<noteq> k" "k \<noteq> []" "s \<noteq> [] \<longrightarrow> hd s \<noteq> hd k"
  shows "after (quoted k) (quoted w @ s) = after (quoted k) s"
proof -
  have "\<not> starts_with (quoted k) (quoted w @ s)"
    using plain_prefix [OF assms(1,2), of s] assms(3) by (auto simp: quoted_def)
  moreover have "\<not> starts_with (quoted k) (CHR 0x22 # s)"
    using assms(4,5) by (cases k; cases s) (auto simp: quoted_def)
  moreover have "after (quoted k) (w @ CHR 0x22 # s) = after (quoted k) (CHR 0x22 # s)"
    by (rule after_plain [OF assms(1)])
  ultimately show ?thesis by (simp add: quoted_def)
qed

lemma scan_value_quoted: "plain w \<Longrightarrow> scan_value (quoted w @ s) = w"
proof -
  assume "plain w"
  then have "takeWhile (\<lambda>c. c \<noteq> CHR 0x22) (w @ CHR 0x22 # s) = w"
    by (auto simp: plain_def takeWhile_append)
  then show ?thesis by (simp add: scan_value_def quoted_def unquote_def)
qed

lemma scan_value_number:
  assumes "c \<in> {CHR '','', CHR ''}''}"
  shows "scan_value (to_string n @ c # s) = to_string n"
proof -
  obtain d ds where d: "to_string n = d # ds" by (cases "to_string n") auto
  have dig: "is_digit x" if "x \<in> set (to_string n)" for x by (rule to_string_digits [OF that])
  have "dropWhile (\<lambda>c. c \<in> {CHR '' '', CHR 0x09}) (to_string n @ c # s) = to_string n @ c # s"
    using d is_digit_not [OF dig [of d]] by simp
  moreover have "takeWhile (\<lambda>c. c \<notin> {CHR '','', CHR ''}'', CHR '' '', CHR 0x09, CHR 0x0A}) (to_string n @ c # s) = to_string n"
    using assms is_digit_not [OF dig] by (subst takeWhile_append2) auto
  ultimately show ?thesis
    using d is_digit_not [OF dig [of d]] unfolding scan_value_def by simp
qed

lemma dotted_chars: "c \<in> set (dotted a b c' d) \<Longrightarrow> is_digit c \<or> c = CHR ''.''"
  by (auto simp: dotted_def dest: to_string_digits)

lemma plain_dotted: "plain (dotted a b c d)"
  unfolding plain_def using dotted_chars is_digit_not by fastforce

lemma plain_to_string: "plain (to_string n)"
  unfolding plain_def using to_string_digits is_digit_not by blast

lemma dotted_no_key: "x \<in> set k \<Longrightarrow> \<not> is_digit x \<Longrightarrow> x \<noteq> CHR ''.'' \<Longrightarrow> dotted a b c d \<noteq> k"
  using dotted_chars by blast

lemmas read_line = after_char after_plain [OF plain_to_string] after_hit after_other plain_dotted

lemma json_scan_quoted:
  "after (quoted key) json = Some (CHR '':'' # quoted w @ s) \<Longrightarrow> plain w \<Longrightarrow> json_scan json key = w"
  by (simp add: json_scan_def scan_value_quoted)

lemma json_scan_number:
  "after (quoted key) json = Some (CHR '':'' # to_string n @ c # s) \<Longrightarrow> c = CHR '','' \<or> c = CHR ''}'' \<Longrightarrow>
     json_scan json key = to_string n"
  by (simp add: json_scan_def scan_value_number)

lemma read_collector_line:
  fixes a b c d :: nat
  assumes "plain A" "plain B"
    and "\<And>k. k \<in> {''dst_ip'', ''dst_port'', ''pid'', ''timestamp_ns''} \<Longrightarrow> A \<noteq> k \<and> B \<noteq> k"
    and "json = CHR ''{'' # quoted ''src_ip'' @ CHR '':'' # quoted A @ CHR '','' #
     quoted ''dst_ip'' @ CHR '':'' # quoted B @ CHR '','' #
     quoted ''dst_port'' @ CHR '':'' # to_string p @ CHR '','' #
     quoted ''pid'' @ CHR '':'' # to_string q @ CHR '','' #
     quoted ''timestamp_ns'' @ CHR '':'' # to_string t @ ''}''"
  shows "json_string_value json ''src_ip'' = A" "json_string_value json ''dst_ip'' = B"
    "json_string_value json ''dst_port'' = to_string p" "json_string_value json ''pid'' = to_string q"
    "json_string_value json ''timestamp_ns'' = to_string t"
proof -
  have pl: "plain ''src_ip''" "plain ''dst_ip''" "plain ''dst_port''" "plain ''pid''" "plain ''timestamp_ns''"
    by (simp_all add: plain_def)
  note r = assms(1,2) pl read_line
  show "json_string_value json ''src_ip'' = A"
    unfolding json_string_value_scan assms(4)
    by (rule json_scan_quoted [OF _ assms(1)]) (simp add: r del: after.simps)
  show "json_string_value json ''dst_ip'' = B"
    unfolding json_string_value_scan assms(4)
    by (rule json_scan_quoted [OF _ assms(2)]) (simp add: r assms(3) del: after.simps)
  show "json_string_value json ''dst_port'' = to_string p"
    unfolding json_string_value_scan assms(4)
    by (rule json_scan_number [OF _ disjI1 [OF refl]]) (simp add: r assms(3) del: after.simps)
  show "json_string_value json ''pid'' = to_string q"
    unfolding json_string_value_scan assms(4)
    by (rule json_scan_number [OF _ disjI1 [OF refl]]) (simp add: r assms(3) del: after.simps)
  show "json_string_value json ''timestamp_ns'' = to_string t"
    unfolding json_string_value_scan assms(4)
    by (rule json_scan_number [OF _ disjI2 [OF refl]]) (simp add: r assms(3) del: after.simps)
qed

text \<open>The address in host byte order.\<close>

definition ntohl :: "u32 \<Rightarrow> u32" where
  "ntohl w = ip_from_octets (byte_at 0 w) (byte_at 1 w) (byte_at 2 w) (byte_at 3 w)"

lemma byte_at_ip_from_octets:
  "byte_at 0 (ip_from_octets a b c d) = d" "byte_at 1 (ip_from_octets a b c d) = c"
  "byte_at 2 (ip_from_octets a b c d) = b" "byte_at 3 (ip_from_octets a b c d) = a"
  by (rule bit_word_eqI; auto simp: ip_from_octets_def byte_at_def bit_simps dest: bit_imp_le_length)+

lemma ip_from_bytes: "ip_from_octets (byte_at 3 w) (byte_at 2 w) (byte_at 1 w) (byte_at 0 w) = w"
proof (rule bit_word_eqI)
  fix n
  assume "n < LENGTH(32)"
  then consider "n < 8" | "8 \<le> n" "n < 16" | "16 \<le> n" "n < 24" | "24 \<le> n" "n < 32"
    by fastforce
  then show "bit (ip_from_octets (byte_at 3 w) (byte_at 2 w) (byte_at 1 w) (byte_at 0 w)) n = bit w n"
    by cases (auto simp: ip_from_octets_def byte_at_def bit_simps)
qed

lemma ntohl_ntohl [simp]: "ntohl (ntohl w) = w"
  by (simp only: ntohl_def byte_at_ip_from_octets ip_from_bytes)
lemma unat_u8: "unat (x :: u8) < 256"
  using unsigned_less [of x] by simp

lemma unat_u16: "unat (x :: u16) < 65536"
  using unsigned_less [of x] by simp

lemma unat_u32: "unat (x :: u32) < 4294967296"
  using unsigned_less [of x] by simp

lemma parse_ip_to_str: "parse_ip (ip_to_str nbo) = Inr (ntohl nbo)"
  unfolding ip_to_str_def ntohl_def by (simp add: parse_ip_dotted unat_u8)

lemma ip_to_str_facts:
  "plain (ip_to_str w)" "ip_to_str w \<noteq> []"
  "k \<in> {''dst_ip'', ''dst_port'', ''pid'', ''timestamp_ns''} \<Longrightarrow> ip_to_str w \<noteq> k"
proof -
  show "plain (ip_to_str w)" by (simp add: ip_to_str_def plain_dotted)
  show "ip_to_str w \<noteq> []" by (simp add: ip_to_str_def dotted_def)
  have nd: "\<not> is_digit CHR ''p''" "\<not> is_digit CHR ''d''" by (simp_all add: is_digit_def)
  show "ip_to_str w \<noteq> k" if "k \<in> {''dst_ip'', ''dst_port'', ''pid'', ''timestamp_ns''}"
  proof -
    have "CHR ''p'' \<in> set k" using that by auto
    then show ?thesis unfolding ip_to_str_def using nd(1) by (rule dotted_no_key) simp
  qed
qed

lemma parse_event_json:
  "parse_event (event_json evt) = Inr (Some (evt\<lparr>src_ip := ntohl (src_ip evt), dst_ip := ntohl (dst_ip evt)\<rparr>))"
proof -
  let ?A = "ip_to_str (src_ip evt)" let ?B = "ip_to_str (dst_ip evt)"
  note f = read_collector_line [OF ip_to_str_facts(1) ip_to_str_facts(1) _ event_json_def]
  have v: "json_string_value (event_json evt) ''src_ip'' = ?A" "json_string_value (event_json evt) ''dst_ip'' = ?B"
    "json_string_value (event_json evt) ''dst_port'' = to_string (unat (dst_port evt))"
    "json_string_value (event_json evt) ''pid'' = to_string (unat (pid evt))"
    "json_string_value (event_json evt) ''timestamp_ns'' = to_string (unat (timestamp_ns evt))"
    by (rule f; use ip_to_str_facts(3) in blast)+
  have l: "unat (dst_port evt) < 2 ^ 64" "unat (pid evt) < 2 ^ 64" "unat (timestamp_ns evt) < 2 ^ 64"
    using unat_u16 [of "dst_port evt"] unat_u32 [of "pid evt"] by simp_all
  have "event_json evt \<noteq> []" "hd (event_json evt) = CHR ''{''" by (simp_all add: event_json_def)
  then have "parse_event (event_json evt) = Inr (Some \<lparr>src_ip = ntohl (src_ip evt), dst_ip = ntohl (dst_ip evt),
      dst_port = dst_port evt, pid = pid evt, timestamp_ns = timestamp_ns evt\<rparr>)"
    by (simp add: parse_event_def Let_def v ip_to_str_facts(2) parse_ip_to_str stoul_def stoull_def
        sto_u64_to_string [OF l(1)] sto_u64_to_string [OF l(2)] sto_u64_to_string [OF l(3)]
        unsigned_ucast_eq take_bit_word_eq_self)
  then show ?thesis by (cases evt) simp
qed

text \<open>No line break inside a line.\<close>

lemma event_json_line: "CHR 0x0A \<notin> set (event_json evt)"
proof -
  have "CHR 0x0A \<notin> set (to_string n)" for n using to_string_digits is_digit_not by blast
  moreover have "CHR 0x0A \<notin> set (dotted a b c d)" for a b c d
    using dotted_chars [of "CHR 0x0A" a b c d] by (auto simp: is_digit_def)
  ultimately show ?thesis by (simp add: event_json_def quoted_def ip_to_str_def)
qed

lemma collector_lines:
  assumes "24 \<le> data_sz"
  shows "map parse_event (getlines CHR 0x0A (concat (map (handle_event data_sz) evts))) =
    map (\<lambda>e. Inr (Some (e\<lparr>src_ip := ntohl (src_ip e), dst_ip := ntohl (dst_ip e)\<rparr>))) evts"
proof -
  have "handle_event data_sz e = event_json e @ [CHR 0x0A]" for e
    using assms by (simp add: handle_event_def)
  then show ?thesis
    by (induction evts) (simp_all add: getlines_part [OF event_json_line] parse_event_json)
qed

text \<open>What the collector prints the pipeline reads: split into lines, any sequence of collected
  events parses without error to the same events, with the addresses turned from network to host
  byte order.\<close>

theorem collector_to_pipeline:
  assumes "24 \<le> data_sz"
  shows "map parse_event (getlines CHR 0x0A (concat (map (handle_event data_sz) evts))) =
    map (\<lambda>e. Inr (Some (e\<lparr>src_ip := ntohl (src_ip e), dst_ip := ntohl (dst_ip e)\<rparr>))) evts"
  using assms by (rule collector_lines)

theorem collector_to_pipeline_witness:
  "map parse_event (getlines CHR 0x0A (concat (map (handle_event 24)
      [\<lparr>src_ip = 0x0501F40A, dst_ip = 1, dst_port = 80, pid = 42, timestamp_ns = 7\<rparr>]))) =
   [Inr (Some \<lparr>src_ip = 0x0AF40105, dst_ip = 0x01000000, dst_port = 80, pid = 42, timestamp_ns = 7\<rparr>)]"
proof -
  have "ntohl 0x0501F40A = 0x0AF40105" "ntohl 1 = 0x01000000" by code_simp+
  then show ?thesis
    by (subst collector_to_pipeline) simp_all
qed

lemma octets_join:
  "push_bit 24 (octet 24 ip) OR push_bit 16 (octet 16 ip) OR push_bit 8 (octet 8 ip) OR octet 0 ip = ip"
proof -
  have "push_bit 24 (octet 24 ip) OR push_bit 16 (octet 16 ip) OR push_bit 8 (octet 8 ip) OR octet 0 ip =
      ip_from_octets (ucast (octet 24 ip)) (ucast (octet 16 ip)) (ucast (octet 8 ip)) (ucast (octet 0 ip))"
    by (rule bit_word_eqI) (auto simp: ip_from_octets_def octet_take_bit bit_simps)
  then show ?thesis by (simp add: ip_from_octets_octets)
qed

lemma parse_ipv4_to_string: "parse_ipv4 (ip_to_string ip) = Inr ip"
proof -
  have o: "unat (octet s ip) < 2 ^ 64" for s using unat_octet [of s ip] by simp
  have c: "(ucast (ucast (octet s ip) :: u64) :: u32) = octet s ip" for s
    by (rule bit_word_eqI) (auto simp: octet_take_bit bit_simps)
  have "parse_ipv4 (ip_to_string ip) =
      Inr (push_bit 24 (octet 24 ip) OR push_bit 16 (octet 16 ip) OR push_bit 8 (octet 8 ip) OR octet 0 ip)"
    by (simp add: parse_ipv4_def ip_to_string_def getlines_dotted stoul_def sto_u64_to_string [OF o] c)
  then show ?thesis by (simp only: octets_join)
qed

text \<open>Printing an address and parsing it back gives the address, with the pipeline's and with the
  tool's parser.\<close>

theorem address_round_trip:
  "parse_ip (ip_to_string ip) = Inr ip \<and> parse_ipv4 (ip_to_string ip) = Inr ip"
  by (simp add: parse_ip_to_string parse_ipv4_to_string)

end
