(* ===== verification/Probe.thy ===== *)
theory Probe
  imports Event "HOL-Library.Sublist"
begin

text \<open>
  The eBPF program (\<open>collector/src/kern/tcp_connect.bpf.c\<close>) and the CIDR table the collector gives it
  (\<open>populate_cidr_map\<close>): two probes, run by the kernel at the entry and at the return of
  \<open>tcp_v4_connect\<close> of any thread, share the map \<open>sock_store\<close> and write to the ring buffer.

  The kernel's maps and its memory are not in the repository: they are the record \<open>helpers\<close> and the inputs
  of the return probe. \<open>documented\<close> states what the BPF documentation says of the maps.
\<close>

section \<open>The kernel's side\<close>

text \<open>The fields of \<open>struct sock\<close> that are read, in network byte order as the CPU loads them.\<close>

record sock =
  skc_daddr :: u32
  skc_dport :: u16
  skc_rcv_saddr :: u32

text \<open>\<open>'m\<close>: a hash map from \<open>pid_tgid\<close> to \<open>struct sock *\<close> (\<open>'p\<close>); \<open>'t\<close>: an LPM trie map, whose keys are a length
  and an address. An update of the trie also says whether it worked.\<close>

record ('m, 'p, 't) helpers =
  map_update :: "'m \<Rightarrow> u64 \<Rightarrow> 'p \<Rightarrow> 'm"
  map_lookup :: "'m \<Rightarrow> u64 \<Rightarrow> 'p option"
  map_delete :: "'m \<Rightarrow> u64 \<Rightarrow> 'm"
  lpm_update :: "'t \<Rightarrow> u32 \<times> u32 \<Rightarrow> u32 \<Rightarrow> 't \<times> bool"
  lpm_find :: "'t \<Rightarrow> u32 \<times> u32 \<Rightarrow> u32 option"

section \<open>The CIDR table\<close>

text \<open>\<open>htonl\<close> and \<open>ntohl\<close> are the same function.\<close>

definition cidr_table :: "((u32 \<times> u32) \<times> u32 \<times> string) list" where
  "cidr_table =
     [((16, ntohl 0x0AF40000), 1, ''pod_network''), ((12, ntohl 0x0A600000), 2, ''service_network''),
      ((16, ntohl 0xC0A80000), 3, ''node_network''), ((12, ntohl 0xAC100000), 4, ''private_172''),
      ((8, ntohl 0x7F000000), 5, ''loopback'')]"

definition populate_cidr_map :: "('m, 'p, 't) helpers \<Rightarrow> 't \<Rightarrow> 't \<times> string" where
  "populate_cidr_map h t0 =
     fold (\<lambda>(key, label, desc) (t, err).
         case lpm_update h t key label of
           (t, ok) \<Rightarrow> (t, if ok then err
                          else err @ ''Warning: failed to insert CIDR '' @ desc @ [CHR 0x0A]))
       cidr_table (t0, '''')"

section \<open>The probes\<close>

record 'm probe =
  pr_socks :: 'm
  pr_ring :: "net_event list"   \<comment> \<open>what was submitted to the ring buffer\<close>

definition bswap16 :: "u16 \<Rightarrow> u16" where
  "bswap16 x = push_bit 8 x OR drop_bit 8 x"

definition tcp_v4_connect_entry :: "('m, 'p, 't) helpers \<Rightarrow> u64 \<Rightarrow> 'p \<Rightarrow> 'm probe \<Rightarrow> 'm probe" where
  "tcp_v4_connect_entry h pid_tgid sk s = s\<lparr>pr_socks := map_update h (pr_socks s) pid_tgid sk\<rparr>"

text \<open>\<open>mem\<close>: the sockets in memory at the time; \<open>room\<close>: \<open>bpf_ringbuf_reserve\<close> finds room; \<open>now\<close>: \<open>bpf_ktime_get_ns\<close>.\<close>

definition connect_event :: "u64 \<Rightarrow> sock \<Rightarrow> u64 \<Rightarrow> net_event" where
  "connect_event pid_tgid sk now =
     \<lparr>src_ip = skc_rcv_saddr sk, dst_ip = skc_daddr sk, dst_port = bswap16 (skc_dport sk),
      pid = ucast (drop_bit 32 pid_tgid), timestamp_ns = now\<rparr>"

definition tcp_v4_connect_return ::
  "('m, 'p, 't) helpers \<Rightarrow> 't \<Rightarrow> int \<Rightarrow> u64 \<Rightarrow> ('p \<Rightarrow> sock) \<Rightarrow> bool \<Rightarrow> u64 \<Rightarrow> 'm probe \<Rightarrow> 'm probe" where
  "tcp_v4_connect_return h t ret pid_tgid mem room now s =
     (if ret \<noteq> 0 \<and> ret \<noteq> -115 then s
      else case map_lookup h (pr_socks s) pid_tgid of
        None \<Rightarrow> s
      | Some sk \<Rightarrow>
          (let s = s\<lparr>pr_socks := map_delete h (pr_socks s) pid_tgid\<rparr>;
               src_label = lpm_find h t (32, skc_rcv_saddr (mem sk))
           in if src_label = None \<or> src_label \<noteq> Some 1 then s
              else if \<not> room then s
              else s\<lparr>pr_ring := pr_ring s @ [connect_event pid_tgid (mem sk) now]\<rparr>))"

text \<open>The kernel runs the probes in some order: calls of \<open>tcp_v4_connect\<close> by different threads overlap.\<close>

datatype 'p kcall =
    Enter u64 'p
  | Return u64 int "'p \<Rightarrow> sock" bool u64

fun probe_step :: "('m, 'p, 't) helpers \<Rightarrow> 't \<Rightarrow> 'p kcall \<Rightarrow> 'm probe \<Rightarrow> 'm probe" where
  "probe_step h t (Enter tid sk) s = tcp_v4_connect_entry h tid sk s"
| "probe_step h t (Return tid ret mem room now) s = tcp_v4_connect_return h t ret tid mem room now s"

definition probe_run :: "('m, 'p, 't) helpers \<Rightarrow> 't \<Rightarrow> 'p kcall list \<Rightarrow> 'm \<Rightarrow> 'm probe" where
  "probe_run h t cs m = fold (probe_step h t) cs \<lparr>pr_socks = m, pr_ring = []\<rparr>"

section \<open>What the kernel promises\<close>

definition covers :: "u32 \<Rightarrow> u32 \<times> u32 \<Rightarrow> bool" where
  "covers addr = (\<lambda>(len, prefix).
     drop_bit (32 - unat len) (ntohl addr) = drop_bit (32 - unat len) (ntohl prefix))"

definition longest_match :: "((u32 \<times> u32) \<times> u32) list \<Rightarrow> u32 \<Rightarrow> u32 option" where
  "longest_match es addr =
     (case filter (\<lambda>e. covers addr (fst e)) es of
        [] \<Rightarrow> None
      | e # es \<Rightarrow> Some (snd (fold (\<lambda>e b. if fst (fst b) \<le> fst (fst e) then e else b) es e)))"

definition hash_map_laws :: "('m, 'p, 't) helpers \<Rightarrow> 'm \<Rightarrow> bool" where
  "hash_map_laws h m0 \<longleftrightarrow>
     map_lookup h m0 = Map.empty \<and>
     (\<forall>m k v. map_lookup h (map_update h m k v) =
        (if k \<in> dom (map_lookup h m) \<or> card (dom (map_lookup h m)) < 4096
         then (map_lookup h m)(k \<mapsto> v) else map_lookup h m)) \<and>
     (\<forall>m k. map_lookup h (map_delete h m k) = (map_lookup h m)(k := None))"

fun lpm_all :: "('m, 'p, 't) helpers \<Rightarrow> ((u32 \<times> u32) \<times> u32) list \<Rightarrow> 't \<Rightarrow> 't option" where
  "lpm_all h [] t = Some t"
| "lpm_all h ((key, label) # es) t =
     (case lpm_update h t key label of (t', ok) \<Rightarrow> if ok then lpm_all h es t' else None)"

definition lpm_map_laws :: "('m, 'p, 't) helpers \<Rightarrow> 't \<Rightarrow> bool" where
  "lpm_map_laws h t0 \<longleftrightarrow>
     (\<forall>es. length es \<le> 1024 \<and> (\<forall>e \<in> set es. fst (fst e) \<le> 32) \<longrightarrow>
        (\<exists>t. lpm_all h es t0 = Some t \<and> (\<forall>addr. lpm_find h t (32, addr) = longest_match es addr)))"

definition documented :: "('m, 'p, 't) helpers \<Rightarrow> 'm \<Rightarrow> 't \<Rightarrow> bool" where
  "documented h m0 t0 \<longleftrightarrow> hash_map_laws h m0 \<and> lpm_map_laws h t0"

text \<open>A thread is in at most one call: \<open>P\<close> holds the socket of the call each thread is in.\<close>

inductive kernel_trace :: "'p kcall list \<Rightarrow> (u64 \<Rightarrow> 'p option) \<Rightarrow> bool" where
  start: "kernel_trace [] Map.empty"
| enter: "kernel_trace cs P \<Longrightarrow> P tid = None \<Longrightarrow> kernel_trace (cs @ [Enter tid sk]) (P(tid \<mapsto> sk))"
| return: "kernel_trace cs P \<Longrightarrow> P tid = Some sk \<Longrightarrow>
    kernel_trace (cs @ [Return tid ret mem room now]) (P(tid := None))"

inductive_cases kernel_trace_snocE: "kernel_trace (cs @ [c]) P"

section \<open>What the program is for\<close>

definition pod :: "u32 \<Rightarrow> bool" where
  "pod addr \<longleftrightarrow> drop_bit 16 (ntohl addr) = 0x0AF4"

text \<open>The connections that pods made or began to make, in the order in which the calls returned.\<close>

fun call_step :: "'p kcall \<Rightarrow> (u64 \<Rightarrow> 'p option) \<times> net_event list \<Rightarrow> (u64 \<Rightarrow> 'p option) \<times> net_event list" where
  "call_step (Enter tid sk) (P, evs) = (P(tid \<mapsto> sk), evs)"
| "call_step (Return tid ret mem room now) (P, evs) =
     (P(tid := None),
      evs @ (case P tid of
          None \<Rightarrow> []
        | Some sk \<Rightarrow>
            if (ret = 0 \<or> ret = -115) \<and> pod (skc_rcv_saddr (mem sk)) \<and> room
            then [connect_event tid (mem sk) now] else []))"

definition pod_connections :: "'p kcall list \<Rightarrow> net_event list" where
  "pod_connections cs = snd (fold call_step cs (Map.empty, []))"

fun tid_of :: "'p kcall \<Rightarrow> u64" where
  "tid_of (Enter tid sk) = tid"
| "tid_of (Return tid ret mem room now) = tid"

section \<open>The table picks the pods\<close>

lemma populate_all:
  "lpm_all h (map (\<lambda>(key, label, desc). (key, label)) xs) t0 = Some t \<Longrightarrow>
   fold (\<lambda>(key, label, desc) (t, err).
         case lpm_update h t key label of
           (t, ok) \<Rightarrow> (t, if ok then err
                          else err @ ''Warning: failed to insert CIDR '' @ desc @ [CHR 0x0A]))
       xs (t0, err) = (t, err)"
  by (induction xs arbitrary: t0) (auto split: prod.splits if_splits)

lemma covers_table:
  "covers addr (len, ntohl w) \<longleftrightarrow> drop_bit (32 - unat len) (ntohl addr) = drop_bit (32 - unat len) w"
  by (simp add: covers_def)

lemma table_prefixes:
  "covers addr (16, ntohl 0x0AF40000) \<longleftrightarrow> drop_bit 16 (ntohl addr) = 0x0AF4"
  "covers addr (12, ntohl 0x0A600000) \<longleftrightarrow> drop_bit 20 (ntohl addr) = 0x0A6"
  "covers addr (16, ntohl 0xC0A80000) \<longleftrightarrow> drop_bit 16 (ntohl addr) = 0xC0A8"
  "covers addr (12, ntohl 0xAC100000) \<longleftrightarrow> drop_bit 20 (ntohl addr) = 0xAC1"
  "covers addr (8, ntohl 0x7F000000) \<longleftrightarrow> drop_bit 24 (ntohl addr) = 0x7F"
proof -
  have c: "drop_bit 16 (0x0AF40000 :: u32) = 0x0AF4" "drop_bit 20 (0x0A600000 :: u32) = 0x0A6"
    "drop_bit 16 (0xC0A80000 :: u32) = 0xC0A8" "drop_bit 20 (0xAC100000 :: u32) = 0xAC1"
    "drop_bit 24 (0x7F000000 :: u32) = 0x7F"
    by code_simp+
  show "covers addr (16, ntohl 0x0AF40000) \<longleftrightarrow> drop_bit 16 (ntohl addr) = 0x0AF4"
    "covers addr (12, ntohl 0x0A600000) \<longleftrightarrow> drop_bit 20 (ntohl addr) = 0x0A6"
    "covers addr (16, ntohl 0xC0A80000) \<longleftrightarrow> drop_bit 16 (ntohl addr) = 0xC0A8"
    "covers addr (12, ntohl 0xAC100000) \<longleftrightarrow> drop_bit 20 (ntohl addr) = 0xAC1"
    "covers addr (8, ntohl 0x7F000000) \<longleftrightarrow> drop_bit 24 (ntohl addr) = 0x7F"
    unfolding covers_table using c by simp_all
qed

lemma pod_prefix:
  assumes "drop_bit 16 (x :: u32) = 0x0AF4"
  shows "drop_bit 20 x = 0x0AF" and "drop_bit 24 x = 0x0A"
proof -
  have "drop_bit 20 x = drop_bit 4 (drop_bit 16 x)" "drop_bit 24 x = drop_bit 8 (drop_bit 16 x)" by simp_all
  moreover have "drop_bit 4 (0x0AF4 :: u32) = 0x0AF" "drop_bit 8 (0x0AF4 :: u32) = 0x0A" by code_simp+
  ultimately show "drop_bit 20 x = 0x0AF" "drop_bit 24 x = 0x0A" by (simp_all only: assms)
qed

lemma longest_match_label:
  "longest_match es addr = Some l \<Longrightarrow> \<exists>key. (key, l) \<in> set es \<and> covers addr key"
proof -
  have pick: "fold (\<lambda>e b. if fst (fst b) \<le> fst (fst e) then e else b) xs e \<in> set (e # xs)"
    for xs and e :: "(u32 \<times> u32) \<times> u32"
  proof (induction xs arbitrary: e)
    case (Cons x xs)
    from Cons [of "if fst (fst e) \<le> fst (fst x) then x else e"] show ?case by (auto split: if_splits)
  qed simp
  assume l: "longest_match es addr = Some l"
  then obtain e xs where f: "filter (\<lambda>e. covers addr (fst e)) es = e # xs"
    and "l = snd (fold (\<lambda>e b. if fst (fst b) \<le> fst (fst e) then e else b) xs e)"
    by (auto simp: longest_match_def split: list.splits)
  with pick [of xs e] obtain b where "b \<in> set (e # xs)" "l = snd b" by auto
  moreover have "set (e # xs) \<subseteq> {b \<in> set es. covers addr (fst b)}" using f by (metis set_filter subset_refl)
  ultimately have "b \<in> set es \<and> covers addr (fst b) \<and> l = snd b" by blast
  then show ?thesis by (cases b) auto
qed

lemma table_match:
  "longest_match (map (\<lambda>(key, label, desc). (key, label)) cidr_table) addr = Some 1 \<longleftrightarrow> pod addr"
proof
  assume "longest_match (map (\<lambda>(key, label, desc). (key, label)) cidr_table) addr = Some 1"
  from longest_match_label [OF this] have "covers addr (16, ntohl 0x0AF40000)"
    by (auto simp: cidr_table_def)
  then show "pod addr" by (simp add: table_prefixes pod_def)
next
  assume "pod addr"
  then have d: "drop_bit 16 (ntohl addr) = 0x0AF4" by (simp add: pod_def)
  have "filter (\<lambda>e. covers addr (fst e)) (map (\<lambda>(key, label, desc). (key, label)) cidr_table) =
      [((16, ntohl 0x0AF40000), 1)]"
    by (simp add: cidr_table_def table_prefixes d pod_prefix [OF d])
  then show "longest_match (map (\<lambda>(key, label, desc). (key, label)) cidr_table) addr = Some 1"
    by (simp add: longest_match_def)
qed

lemma populate_pods:
  assumes "lpm_map_laws h t0"
  shows "lpm_find h (fst (populate_cidr_map h t0)) (32, addr) = Some 1 \<longleftrightarrow> pod addr"
    and "snd (populate_cidr_map h t0) = ''''"
proof -
  let ?es = "map (\<lambda>(key, label, desc). (key, label)) cidr_table"
  have "length ?es \<le> 1024" "\<forall>e \<in> set ?es. fst (fst e) \<le> 32" by (auto simp: cidr_table_def)
  with assms obtain t where t: "lpm_all h ?es t0 = Some t"
    "\<forall>addr. lpm_find h t (32, addr) = longest_match ?es addr"
    unfolding lpm_map_laws_def by blast
  then show "lpm_find h (fst (populate_cidr_map h t0)) (32, addr) = Some 1 \<longleftrightarrow> pod addr"
    "snd (populate_cidr_map h t0) = ''''"
    unfolding populate_cidr_map_def populate_all [OF t(1)] by (simp_all add: table_match)
qed


section \<open>The store follows the calls\<close>

lemma kernel_trace_pending: "kernel_trace cs P \<Longrightarrow> fst (fold call_step cs (Map.empty, evs)) = P"
proof (induction rule: kernel_trace.induct)
  case (enter cs P tid sk)
  then show ?case by (cases "fold call_step cs (Map.empty, evs)") simp
next
  case (return cs P tid sk ret mem room now)
  then show ?case by (cases "fold call_step cs (Map.empty, evs)") simp
qed simp

lemma pod_connections_snoc:
  assumes "kernel_trace cs P"
  shows "pod_connections (cs @ [c]) = snd (call_step c (P, pod_connections cs))"
proof -
  have "fold call_step cs (Map.empty, []) = (P, pod_connections cs)"
    using kernel_trace_pending [OF assms, of "[]"] by (simp add: pod_connections_def prod_eq_iff)
  then show ?thesis by (simp add: pod_connections_def)
qed

lemma probe_run_snoc: "probe_run h t (cs @ [c]) m = probe_step h t c (probe_run h t cs m)"
  by (simp add: probe_run_def)

text \<open>A thread inside a call has its own socket in the store, or none when the store was full.\<close>

definition store_ok :: "('m, 'p, 't) helpers \<Rightarrow> (u64 \<Rightarrow> 'p option) \<Rightarrow> u64 set \<Rightarrow> 'm \<Rightarrow> bool" where
  "store_ok h P tids m \<longleftrightarrow>
     (\<forall>tid sk. P tid = Some sk \<longrightarrow> map_lookup h m tid \<in> {None, Some sk}) \<and> dom (map_lookup h m) \<subseteq> tids"

definition store_full :: "('m, 'p, 't) helpers \<Rightarrow> (u64 \<Rightarrow> 'p option) \<Rightarrow> 'm \<Rightarrow> bool" where
  "store_full h P m \<longleftrightarrow> (\<forall>tid sk. P tid = Some sk \<longrightarrow> map_lookup h m tid = Some sk)"

lemma hash_update:
  "hash_map_laws h m0 \<Longrightarrow> map_lookup h (map_update h m k v) =
        (if k \<in> dom (map_lookup h m) \<or> card (dom (map_lookup h m)) < 4096
         then (map_lookup h m)(k \<mapsto> v) else map_lookup h m)"
  by (simp add: hash_map_laws_def)

lemma hash_delete:
  "hash_map_laws h m0 \<Longrightarrow> map_lookup h (map_delete h m k) = (map_lookup h m)(k := None)"
  by (simp add: hash_map_laws_def)

lemma hash_empty: "hash_map_laws h m0 \<Longrightarrow> map_lookup h m0 = Map.empty"
  by (simp add: hash_map_laws_def)

lemma return_socks:
  assumes "hash_map_laws h m0"
  shows "map_lookup h (pr_socks (tcp_v4_connect_return h t ret tid mem room now s)) =
    (if ret = 0 \<or> ret = -115 then (map_lookup h (pr_socks s))(tid := None) else map_lookup h (pr_socks s))"
  by (auto simp: tcp_v4_connect_return_def Let_def hash_delete [OF assms] fun_upd_idem split: option.split)

lemma return_ring:
  "pr_ring (tcp_v4_connect_return h t ret tid mem room now s) = pr_ring s @
     (case map_lookup h (pr_socks s) tid of
        None \<Rightarrow> []
      | Some sk \<Rightarrow>
          if (ret = 0 \<or> ret = -115) \<and> lpm_find h t (32, skc_rcv_saddr (mem sk)) = Some 1 \<and> room
          then [connect_event tid (mem sk) now] else [])"
  by (auto simp: tcp_v4_connect_return_def Let_def split: option.split)

lemma probe_store:
  assumes "kernel_trace cs P" and "hash_map_laws h m0"
  shows "store_ok h P (set (map tid_of cs)) (pr_socks (probe_run h t cs m0))"
  using assms(1)
proof (induction rule: kernel_trace.induct)
  case start
  then show ?case by (simp add: store_ok_def probe_run_def hash_empty [OF assms(2)])
next
  case (enter cs P tid sk)
  then show ?case
    by (auto simp: store_ok_def probe_run_snoc tcp_v4_connect_entry_def hash_update [OF assms(2)])
next
  case (return cs P tid sk ret mem room now)
  then show ?case
    by (auto simp: store_ok_def probe_run_snoc return_socks [OF assms(2)] split: if_splits)
qed

lemma tids_snoc: "card (set (map tid_of cs)) \<le> card (set (map tid_of (cs @ [c])))"
  by (rule card_mono) auto

lemma probe_store_full:
  assumes "kernel_trace cs P" and "hash_map_laws h m0" and "card (set (map tid_of cs)) \<le> 4096"
  shows "store_full h P (pr_socks (probe_run h t cs m0))"
  using assms(1,3)
proof (induction rule: kernel_trace.induct)
  case start
  then show ?case by (simp add: store_full_def)
next
  case (enter cs P tid sk)
  let ?m = "pr_socks (probe_run h t cs m0)" and ?T = "set (map tid_of cs)"
  have d: "dom (map_lookup h ?m) \<subseteq> ?T"
    using probe_store [OF enter.hyps(1) assms(2), of t] by (simp add: store_ok_def)
  have c: "card ?T \<le> 4096" using tids_snoc enter.prems by (rule le_trans)
  have "tid \<in> dom (map_lookup h ?m) \<or> card (dom (map_lookup h ?m)) < 4096"
  proof (cases "tid \<in> dom (map_lookup h ?m)")
    case False
    have "dom (map_lookup h ?m) \<subset> set (map tid_of (cs @ [Enter tid sk]))" using d False by auto
    then have "card (dom (map_lookup h ?m)) < card (set (map tid_of (cs @ [Enter tid sk])))"
      by (intro psubset_card_mono) auto
    with enter.prems show ?thesis by simp
  qed simp
  with enter.IH [OF c] show ?case
    by (auto simp: store_full_def probe_run_snoc tcp_v4_connect_entry_def hash_update [OF assms(2)])
next
  case (return cs P tid sk ret mem room now)
  have "card (set (map tid_of cs)) \<le> 4096" using tids_snoc return.prems by (rule le_trans)
  with return.IH show ?case
    by (auto simp: store_full_def probe_run_snoc return_socks [OF assms(2)])
qed


section \<open>A full store\<close>

text \<open>Failed calls: \<open>-ECONNREFUSED\<close>, for one.\<close>

definition failed_calls :: "int \<Rightarrow> 'p \<Rightarrow> ('p \<Rightarrow> sock) \<Rightarrow> u64 list \<Rightarrow> 'p kcall list" where
  "failed_calls ret sk mem tids = concat (map (\<lambda>t. [Enter t sk, Return t ret mem True 0]) tids)"

lemma failed_calls_snoc:
  "failed_calls ret sk mem (ts @ [t]) = failed_calls ret sk mem ts @ [Enter t sk] @ [Return t ret mem True 0]"
  by (simp add: failed_calls_def)

lemma failed_calls_trace: "kernel_trace (failed_calls ret sk mem ts) Map.empty"
proof (induction ts rule: rev_induct)
  case (snoc t ts)
  from kernel_trace.enter [OF snoc.IH, of t sk]
  have "kernel_trace (failed_calls ret sk mem ts @ [Enter t sk]) (Map.empty(t \<mapsto> sk))" by simp
  from kernel_trace.return [OF this, of t sk ret mem True 0] show ?case by (simp add: failed_calls_snoc)
qed (simp add: failed_calls_def kernel_trace.start)

lemma failed_calls_leak:
  assumes "hash_map_laws h m0" and "distinct ts" and "length ts \<le> 4096" and "ret \<noteq> 0" and "ret \<noteq> -115"
  shows "dom (map_lookup h (pr_socks (probe_run h t (failed_calls ret sk mem ts) m0))) = set ts \<and>
    pr_ring (probe_run h t (failed_calls ret sk mem ts) m0) = []"
  using assms(2,3)
proof (induction ts rule: rev_induct)
  case Nil
  then show ?case by (simp add: failed_calls_def probe_run_def hash_empty [OF assms(1)])
next
  case (snoc x ts)
  let ?s = "probe_run h t (failed_calls ret sk mem ts) m0"
  have IH: "dom (map_lookup h (pr_socks ?s)) = set ts" "pr_ring ?s = []" using snoc by simp_all
  have "card (set ts) < 4096" using snoc.prems by (simp add: distinct_card)
  then have "map_lookup h (pr_socks (probe_run h t (failed_calls ret sk mem (ts @ [x])) m0)) =
      (map_lookup h (pr_socks ?s))(x \<mapsto> sk)"
    "pr_ring (probe_run h t (failed_calls ret sk mem (ts @ [x])) m0) = pr_ring ?s"
    using assms(4,5) by (simp_all add: failed_calls_snoc probe_run_def tcp_v4_connect_entry_def
      tcp_v4_connect_return_def hash_update [OF assms(1)] IH(1) [unfolded probe_run_def])
  with IH show ?case by (simp del: fun_upd_apply add: dom_fun_upd)
qed

lemma full_store_blind:
  assumes "hash_map_laws h m0" and "\<forall>c \<in> set cs. tid_of c \<notin> dom (map_lookup h (pr_socks s))"
    and "card (dom (map_lookup h (pr_socks s))) = 4096"
  shows "pr_ring (fold (probe_step h t) cs s) = pr_ring s"
  using assms(2,3)
proof (induction cs arbitrary: s)
  case (Cons c cs)
  have "pr_ring (probe_step h t c s) = pr_ring s"
    "map_lookup h (pr_socks (probe_step h t c s)) = map_lookup h (pr_socks s)"
    using Cons.prems by (cases c; auto simp: tcp_v4_connect_entry_def hash_update [OF assms(1)]
      return_ring return_socks [OF assms(1)] dom_def fun_upd_idem split: option.split)+
  with Cons show ?case by simp
qed simp

text \<open>The store never overflows, so each return finds the socket of its own call.\<close>

lemma probe_ring:
  assumes "documented h m0 t0" and "kernel_trace cs P" and "card (set (map tid_of cs)) \<le> 4096"
  shows "pr_ring (probe_run h (fst (populate_cidr_map h t0)) cs m0) = pod_connections cs"
proof -
  let ?t = "fst (populate_cidr_map h t0)"
  have laws: "hash_map_laws h m0" and "lpm_map_laws h t0" using assms(1) by (simp_all add: documented_def)
  note pods = populate_pods(1) [OF this(2)]
  show ?thesis
    using assms(2,3)
  proof (induction rule: kernel_trace.induct)
    case start
    then show ?case by (simp add: probe_run_def pod_connections_def)
  next
    case (enter cs P tid sk)
    have "card (set (map tid_of cs)) \<le> 4096" using tids_snoc enter.prems by (rule le_trans)
    with enter show ?case
      by (simp add: probe_run_snoc pod_connections_snoc tcp_v4_connect_entry_def)
  next
    case (return cs P tid sk ret mem room now)
    let ?s = "probe_run h ?t cs m0"
    have c: "card (set (map tid_of cs)) \<le> 4096" using tids_snoc return.prems by (rule le_trans)
    have "map_lookup h (pr_socks ?s) tid = Some sk"
      using probe_store_full [OF return.hyps(1) laws c, of ?t] return.hyps(2) by (simp add: store_full_def)
    with return.IH [OF c] return.hyps(2) show ?case
      by (simp add: probe_run_snoc return_ring pods pod_connections_snoc [OF return.hyps(1)])
  qed
qed

section \<open>Maps as the documentation has them\<close>

definition demo_helpers :: "(u64 \<Rightarrow> u8 option, u8, ((u32 \<times> u32) \<times> u32) list) helpers" where
  "demo_helpers =
     \<lparr>map_update = (\<lambda>m k v. if k \<in> dom m \<or> card (dom m) < 4096 then m(k \<mapsto> v) else m),
      map_lookup = (\<lambda>m. m), map_delete = (\<lambda>m k. m(k := None)),
      lpm_update = (\<lambda>t key label. (t @ [(key, label)], True)),
      lpm_find = (\<lambda>t k. longest_match t (snd k))\<rparr>"

lemma documented_demo: "documented demo_helpers Map.empty []"
proof -
  have "lpm_all demo_helpers es t = Some (t @ es)" for es t
    by (induction es arbitrary: t) (auto simp: demo_helpers_def)
  then have "lpm_map_laws demo_helpers []"
    by (simp add: lpm_map_laws_def) (simp add: demo_helpers_def)
  moreover have "hash_map_laws demo_helpers Map.empty"
    by (simp add: hash_map_laws_def demo_helpers_def)
  ultimately show ?thesis by (simp add: documented_def)
qed

text \<open>Two overlapping calls: the pod 10.244.1.5 connects to port 80 of 10.244.2.3, a node's connection begins.\<close>

definition demo_mem :: "u8 \<Rightarrow> sock" where
  "demo_mem p =
     \<lparr>skc_daddr = ntohl 0x0AF40203, skc_dport = 0x5000,
      skc_rcv_saddr = ntohl (if p = 1 then 0x0AF40105 else 0xC0A80101)\<rparr>"

definition demo_calls :: "u8 kcall list" where
  "demo_calls =
     [Enter 0x700000008 1, Enter 9 2, Return 9 (-115) demo_mem True 6, Return 0x700000008 0 demo_mem True 7]"

lemma demo_calls_trace: "kernel_trace demo_calls Map.empty"
proof -
  have "kernel_trace (((([] @ [Enter 0x700000008 1]) @ [Enter 9 2]) @ [Return 9 (-115) demo_mem True 6]) @
      [Return 0x700000008 0 demo_mem True 7])
    ((((Map.empty(0x700000008 \<mapsto> 1))(9 \<mapsto> 2))(9 := None))(0x700000008 := None))"
    by (rule kernel_trace.return kernel_trace.enter kernel_trace.start | simp)+
  moreover have "(((Map.empty(0x700000008 \<mapsto> 1))(9 \<mapsto> (2 :: u8)))(9 := None))(0x700000008 := None) =
      (Map.empty :: u64 \<Rightarrow> u8 option)"
    by (rule ext) simp
  ultimately show ?thesis by (simp add: demo_calls_def)
qed

lemma demo_tids: "card (set (map tid_of demo_calls)) \<le> 4096"
proof -
  have "set (map tid_of demo_calls) = {0x700000008, 9}" by (auto simp: demo_calls_def)
  then show ?thesis by simp
qed

lemma demo_pods: "pod (ntohl 0x0AF40105)" "\<not> pod (ntohl 0xC0A80101)"
proof -
  have "drop_bit 16 (0x0AF40105 :: u32) = 0x0AF4" "drop_bit 16 (0xC0A80101 :: u32) \<noteq> 0x0AF4" by code_simp+
  then show "pod (ntohl 0x0AF40105)" "\<not> pod (ntohl 0xC0A80101)" by (simp_all add: pod_def)
qed

definition demo_event :: net_event where
  "demo_event = \<lparr>src_ip = ntohl 0x0AF40105, dst_ip = ntohl 0x0AF40203, dst_port = 80, pid = 7, timestamp_ns = 7\<rparr>"

lemma demo_connect: "connect_event 0x700000008 (demo_mem 1) 7 = demo_event"
proof -
  have "bswap16 0x5000 = 80" "(ucast (drop_bit 32 (0x700000008 :: u64)) :: u32) = 7" by code_simp+
  then show ?thesis by (simp add: connect_event_def demo_mem_def demo_event_def)
qed

lemma demo_connections: "pod_connections demo_calls = [demo_event]"
proof -
  have m: "skc_rcv_saddr (demo_mem 1) = ntohl 0x0AF40105" "skc_rcv_saddr (demo_mem 2) = ntohl 0xC0A80101"
    by (simp_all add: demo_mem_def)
  show ?thesis
    unfolding pod_connections_def demo_calls_def
    by (simp add: m demo_pods demo_connect)
qed

definition thread_ids :: "nat \<Rightarrow> nat \<Rightarrow> u64 list" where
  "thread_ids a b = map of_nat [a..<b]"

lemma thread_ids:
  "b < 2 ^ 64 \<Longrightarrow> distinct (thread_ids a b)" "length (thread_ids a b) = b - a"
  "b < 2 ^ 64 \<Longrightarrow> x \<in> set (thread_ids a b) \<longleftrightarrow> a \<le> unat x \<and> unat x < b"
proof -
  show "length (thread_ids a b) = b - a" by (simp add: thread_ids_def)
  assume b: "b < 2 ^ 64"
  then have u: "unat (of_nat n :: u64) = n" if "n < b" for n
    using that by (intro unat_of_nat_u64) simp
  then show "distinct (thread_ids a b)"
    by (auto simp: thread_ids_def distinct_map intro!: inj_onI) (metis u)
  show "x \<in> set (thread_ids a b) \<longleftrightarrow> a \<le> unat x \<and> unat x < b"
    using u by (auto simp: thread_ids_def image_iff intro!: bexI [of _ "unat x"])
qed

section \<open>Properties\<close>

text \<open>C9: The eBPF program reports exactly the TCP connections that pods make or begin to make: whatever the
  interleaving of the threads' calls, as long as no more than 4096 threads call \<open>tcp_v4_connect\<close>, the
  ring buffer receives one event per call that succeeded or is in progress, whose socket has an address
  in 10.244.0.0/16 and that found room, in the order of the returns, with the addresses of the socket
  the same thread passed in, its port in host byte order and the thread's process.\<close>

theorem probe_reports_pod_connections:
  assumes "documented h m0 t0" and "kernel_trace cs P" and "card (set (map tid_of cs)) \<le> 4096"
  shows "pr_ring (probe_run h (fst (populate_cidr_map h t0)) cs m0) = pod_connections cs"
  using assms by (rule probe_ring)

text \<open>C34: The eBPF program invents nothing, also with more threads than the store holds: what it reports is a
  subsequence of the pods' connections, so no event carries the socket of another call.\<close>

theorem probe_never_misreports:
  assumes "documented h m0 t0" and "kernel_trace cs P"
  shows "subseq (pr_ring (probe_run h (fst (populate_cidr_map h t0)) cs m0)) (pod_connections cs)"
proof -
  let ?t = "fst (populate_cidr_map h t0)"
  have laws: "hash_map_laws h m0" and "lpm_map_laws h t0" using assms(1) by (simp_all add: documented_def)
  note pods = populate_pods(1) [OF this(2)]
  show ?thesis
    using assms(2)
  proof (induction rule: kernel_trace.induct)
    case start
    then show ?case by (simp add: probe_run_def pod_connections_def)
  next
    case (enter cs P tid sk)
    then show ?case by (simp add: probe_run_snoc pod_connections_snoc tcp_v4_connect_entry_def)
  next
    case (return cs P tid sk ret mem room now)
    have "map_lookup h (pr_socks (probe_run h ?t cs m0)) tid \<in> {None, Some sk}"
      using probe_store [OF return.hyps(1) laws, of ?t] return.hyps(2) by (simp add: store_ok_def)
    with return.IH return.hyps(2) show ?case
      by (auto simp: probe_run_snoc return_ring pods pod_connections_snoc [OF return.hyps(1)]
        intro: list_emb_append_mono subseq_rev_drop_many)
  qed
qed

text \<open>C38: Failed calls fill the store for good: the return probe leaves the entry of a call that failed, so after
  4096 threads have each had one refused connection, no connection of any other thread is reported any
  more.\<close>

theorem failed_connects_blind_probe:
  assumes "documented h m0 t0" and "distinct ts" and "length ts = 4096" and "ret \<noteq> 0" and "ret \<noteq> -115"
    and "\<forall>c \<in> set cs. tid_of c \<notin> set ts"
  shows "kernel_trace (failed_calls ret sk mem ts) Map.empty \<and>
    pr_ring (probe_run h t (failed_calls ret sk mem ts @ cs) m0) = []"
proof -
  let ?s = "probe_run h t (failed_calls ret sk mem ts) m0"
  have laws: "hash_map_laws h m0" using assms(1) by (simp add: documented_def)
  have s: "dom (map_lookup h (pr_socks ?s)) = set ts" "pr_ring ?s = []"
    using failed_calls_leak [OF laws assms(2) _ assms(4,5)] assms(3) by auto
  have "probe_run h t (failed_calls ret sk mem ts @ cs) m0 = fold (probe_step h t) cs ?s"
    by (simp add: probe_run_def)
  moreover have "card (set ts) = 4096" using assms(2,3) by (simp add: distinct_card)
  ultimately show ?thesis
    using full_store_blind [OF laws, of cs ?s t] assms(6) failed_calls_trace [of ret sk mem ts] s by simp
qed


theorem probe_reports_pod_connections_witness:
  "pr_ring (probe_run demo_helpers (fst (populate_cidr_map demo_helpers [])) demo_calls Map.empty) = [demo_event]"
  using probe_reports_pod_connections [OF documented_demo demo_calls_trace demo_tids]
  by (simp only: demo_connections)

theorem probe_never_misreports_witness:
  "subseq (pr_ring (probe_run demo_helpers (fst (populate_cidr_map demo_helpers [])) demo_calls Map.empty)) [demo_event]"
  using probe_never_misreports [OF documented_demo demo_calls_trace] by (simp only: demo_connections)

theorem failed_connects_blind_probe_witness:
  "pr_ring (probe_run demo_helpers (fst (populate_cidr_map demo_helpers []))
       (failed_calls (-111) 2 demo_mem (thread_ids 10 4106) @ demo_calls) Map.empty) = []"
proof -
  have "\<forall>c \<in> set demo_calls. tid_of c \<notin> set (thread_ids 10 4106)"
    by (simp add: demo_calls_def thread_ids)
  from failed_connects_blind_probe [OF documented_demo thread_ids(1) _ _ _ this] show ?thesis
    by (simp add: thread_ids)
qed

end
