(* ===== verification/Wire.thy ===== *)
theory Wire
  imports Probe
begin

text \<open>
  The records in the ring buffer, as bytes. The probe (\<open>tcp_connect.bpf.c\<close>) reserves 24 bytes, which the kernel
  does not clear, and fills in the fields of \<open>struct network_event_t\<close>; the collector (\<open>collector.cpp\<close>) casts what
  it gets to its own declaration of the struct. Both are compiled for a little-endian machine: the fields
  stand at 0, 4, 8, 12 and 16, with two bytes of padding before \<open>pid\<close>.

  \<open>Probe\<close> has the steps of the kernel on events; here they are on bytes, as the code takes them, and
  refined to those.
\<close>

section \<open>Memory\<close>

definition le_bytes :: "nat \<Rightarrow> 'a::len word \<Rightarrow> bytes" where
  "le_bytes n w = map (\<lambda>i. ucast (drop_bit (8 * i) w)) [0..<n]"

definition of_le :: "bytes \<Rightarrow> 'a::len word" where
  "of_le bs = foldr (\<lambda>b w. push_bit 8 w OR ucast b) bs 0"

definition store :: "nat \<Rightarrow> bytes \<Rightarrow> bytes \<Rightarrow> bytes" where
  "store off bs mem = take off mem @ bs @ drop (off + length bs) mem"

definition load :: "nat \<Rightarrow> nat \<Rightarrow> bytes \<Rightarrow> bytes" where
  "load off n mem = take n (drop off mem)"

lemma length_le_bytes [simp]: "length (le_bytes n w) = n"
  by (simp add: le_bytes_def)

lemma bit_of_le:
  "bit (of_le bs :: 'a::len word) k \<longleftrightarrow> k < LENGTH('a) \<and> k div 8 < length bs \<and> bit (bs ! (k div 8)) (k mod 8)"
proof (induction bs arbitrary: k)
  case Nil
  then show ?case by (simp add: of_le_def)
next
  case (Cons b bs)
  have step: "(of_le (b # bs) :: 'a word) = push_bit 8 (of_le bs) OR ucast b" by (simp add: of_le_def)
  show ?case
  proof (cases "k < 8")
    case True
    then show ?thesis by (simp add: step bit_simps)
  next
    case False
    then have k: "k div 8 = Suc ((k - 8) div 8)" "k mod 8 = (k - 8) mod 8" by (simp_all add: le_div_geq le_mod_geq)
    have "\<not> bit b k" using False bit_imp_le_length [of b k] by auto
    then show ?thesis using False Cons.IH [of "k - 8"] by (auto simp: step bit_simps k)
  qed
qed

lemma of_le_bytes: "LENGTH('a) \<le> 8 * n \<Longrightarrow> of_le (le_bytes n w) = (w :: 'a::len word)"
  by (rule bit_word_eqI) (auto simp: bit_of_le le_bytes_def bit_simps)

lemma length_store: "off + length bs \<le> length mem \<Longrightarrow> length (store off bs mem) = length mem"
  by (simp add: store_def)

lemma load_same: "off + length bs \<le> length mem \<Longrightarrow> load off (length bs) (store off bs mem) = bs"
  by (simp add: load_def store_def)

lemma load_other:
  assumes "off + length bs \<le> length mem" and "i + n \<le> off \<or> off + length bs \<le> i"
  shows "load i n (store off bs mem) = load i n mem"
  using assms(2)
proof
  assume "i + n \<le> off"
  then show ?thesis using assms(1) by (simp add: load_def store_def take_drop min_def)
next
  assume "off + length bs \<le> i"
  then show ?thesis using assms(1) by (simp add: load_def store_def)
qed

lemmas load_le_bytes =
  load_same [of _ "le_bytes n w" for n w, unfolded length_le_bytes]
  load_other [of _ "le_bytes n w" for n w, unfolded length_le_bytes]

section \<open>The struct\<close>

text \<open>The stores of the probe into the reserved record, in the order of the code.\<close>

definition fill_event :: "u64 \<Rightarrow> sock \<Rightarrow> u64 \<Rightarrow> bytes \<Rightarrow> bytes" where
  "fill_event pid_tgid sk now evt =
     (let evt = store 0 (le_bytes 4 (skc_rcv_saddr sk)) evt;
          evt = store 4 (le_bytes 4 (skc_daddr sk)) evt;
          evt = store 8 (le_bytes 2 (bswap16 (skc_dport sk))) evt;
          evt = store 12 (le_bytes 4 (ucast (drop_bit 32 pid_tgid) :: u32)) evt
      in store 16 (le_bytes 8 now) evt)"

text \<open>\<open>static_cast<const network_event_t *>(data)\<close>\<close>

definition read_event :: "bytes \<Rightarrow> net_event" where
  "read_event data =
     \<lparr>src_ip = of_le (load 0 4 data), dst_ip = of_le (load 4 4 data), dst_port = of_le (load 8 2 data),
      pid = of_le (load 12 4 data), timestamp_ns = of_le (load 16 8 data)\<rparr>"

definition handle_record :: "bytes \<Rightarrow> string" where
  "handle_record data = (if length data < 24 then '''' else event_json (read_event data) @ [CHR 0x0A])"

lemma handle_record_event: "handle_record data = handle_event (length data) (read_event data)"
  by (simp add: handle_record_def handle_event_def)

lemma length_fill_event: "length mem = 24 \<Longrightarrow> length (fill_event pid_tgid sk now mem) = 24"
  by (simp add: fill_event_def Let_def length_store)

text \<open>Whatever the reserved bytes held, the struct that is read is the one that was filled in.\<close>

lemma read_fill_event:
  assumes "length mem = 24"
  shows "read_event (fill_event pid_tgid sk now mem) = connect_event pid_tgid sk now"
  by (simp add: read_event_def fill_event_def connect_event_def Let_def load_le_bytes length_store assms of_le_bytes)

section \<open>The probes on bytes\<close>

text \<open>\<open>block\<close>: what \<open>bpf_ringbuf_reserve\<close> returns, the bytes of the reserved record or \<open>None\<close> for \<open>NULL\<close>.\<close>

record 'm raw_probe =
  rp_socks :: 'm
  rp_ring :: "bytes list"   \<comment> \<open>the records submitted\<close>

definition raw_connect_return ::
  "('m, 'p, 't) helpers \<Rightarrow> 't \<Rightarrow> int \<Rightarrow> u64 \<Rightarrow> ('p \<Rightarrow> sock) \<Rightarrow> bytes option \<Rightarrow> u64 \<Rightarrow> 'm raw_probe \<Rightarrow> 'm raw_probe" where
  "raw_connect_return h t ret pid_tgid mem block now s =
     (if ret \<noteq> 0 \<and> ret \<noteq> -115 then s
      else case map_lookup h (rp_socks s) pid_tgid of
        None \<Rightarrow> s
      | Some sk \<Rightarrow>
          (let s = s\<lparr>rp_socks := map_delete h (rp_socks s) pid_tgid\<rparr>;
               src_label = lpm_find h t (32, skc_rcv_saddr (mem sk))
           in if src_label = None \<or> src_label \<noteq> Some 1 then s
              else case block of
                None \<Rightarrow> s
              | Some evt \<Rightarrow> s\<lparr>rp_ring := rp_ring s @ [fill_event pid_tgid (mem sk) now evt]\<rparr>))"

datatype 'p raw_call =
    RawEnter u64 'p
  | RawReturn u64 int "'p \<Rightarrow> sock" "bytes option" u64

fun raw_step :: "('m, 'p, 't) helpers \<Rightarrow> 't \<Rightarrow> 'p raw_call \<Rightarrow> 'm raw_probe \<Rightarrow> 'm raw_probe" where
  "raw_step h t (RawEnter tid sk) s = s\<lparr>rp_socks := map_update h (rp_socks s) tid sk\<rparr>"
| "raw_step h t (RawReturn tid ret mem block now) s = raw_connect_return h t ret tid mem block now s"

definition raw_run :: "('m, 'p, 't) helpers \<Rightarrow> 't \<Rightarrow> 'p raw_call list \<Rightarrow> 'm \<Rightarrow> 'm raw_probe" where
  "raw_run h t cs m = fold (raw_step h t) cs \<lparr>rp_socks = m, rp_ring = []\<rparr>"

section \<open>The probes on bytes are the probes on events\<close>

fun call_of :: "'p raw_call \<Rightarrow> 'p kcall" where
  "call_of (RawEnter tid sk) = Enter tid sk"
| "call_of (RawReturn tid ret mem block now) = Return tid ret mem (block \<noteq> None) now"

text \<open>A reserved block has the size asked for.\<close>

fun sized :: "'p raw_call \<Rightarrow> bool" where
  "sized (RawEnter tid sk) \<longleftrightarrow> True"
| "sized (RawReturn tid ret mem block now) \<longleftrightarrow> (\<forall>evt. block = Some evt \<longrightarrow> length evt = 24)"

definition probe_of :: "'m raw_probe \<Rightarrow> 'm probe" where
  "probe_of s = \<lparr>pr_socks = rp_socks s, pr_ring = map read_event (rp_ring s)\<rparr>"

definition full_records :: "'m raw_probe \<Rightarrow> bool" where
  "full_records s \<longleftrightarrow> list_all (\<lambda>r. length r = 24) (rp_ring s)"

lemma raw_step_refines:
  assumes "sized c" and "full_records s"
  shows "probe_of (raw_step h t c s) = probe_step h t (call_of c) (probe_of s) \<and> full_records (raw_step h t c s)"
proof (cases c)
  case (RawEnter tid sk)
  then show ?thesis using assms(2) by (simp add: tcp_v4_connect_entry_def probe_of_def full_records_def)
next
  case (RawReturn tid ret mem block now)
  then show ?thesis
    using assms by (auto simp: raw_connect_return_def tcp_v4_connect_return_def Let_def probe_of_def full_records_def
      read_fill_event length_fill_event split: option.split)
qed

lemma raw_fold_refines:
  assumes "list_all sized cs" and "full_records s"
  shows "probe_of (fold (raw_step h t) cs s) = fold (probe_step h t) (map call_of cs) (probe_of s) \<and>
    full_records (fold (raw_step h t) cs s)"
  using assms
proof (induction cs arbitrary: s)
  case (Cons c cs)
  with raw_step_refines [of c s h t] show ?case by simp
qed simp

lemma raw_run_refines:
  assumes "list_all sized cs"
  shows "map read_event (rp_ring (raw_run h t cs m)) = pr_ring (probe_run h t (map call_of cs) m)"
    and "list_all (\<lambda>r. length r = 24) (rp_ring (raw_run h t cs m))"
proof -
  have "full_records \<lparr>rp_socks = m, rp_ring = []\<rparr>" by (simp add: full_records_def)
  from raw_fold_refines [OF assms this, of h t]
  show "map read_event (rp_ring (raw_run h t cs m)) = pr_ring (probe_run h t (map call_of cs) m)"
    "list_all (\<lambda>r. length r = 24) (rp_ring (raw_run h t cs m))"
    by (auto simp: raw_run_def probe_run_def probe_of_def full_records_def probe.defs dest: arg_cong [where f = pr_ring])
qed

section \<open>What the collector prints of a record\<close>

lemma records_printed:
  "concat (map handle_record rs) = concat (map (handle_event 24) (map read_event (filter (\<lambda>r. 24 \<le> length r) rs)))"
  by (induction rs) (simp_all add: handle_record_def handle_event_def)

lemma full_records_printed:
  assumes "list_all (\<lambda>r. length r = 24) rs"
  shows "concat (map handle_record rs) = concat (map (handle_event 24) (map read_event rs))"
  using assms by (induction rs) (simp_all add: handle_record_event)

section \<open>The keys of the CIDR map\<close>

text \<open>The keys of the LPM trie map as the kernel compares them: byte by byte as they lie in memory, each from its most
  significant bit. This is what \<open>covers\<close> says of the addresses as numbers.\<close>

definition key_bits :: "u32 \<Rightarrow> bool list" where
  "key_bits addr = concat (map (\<lambda>b. map (\<lambda>i. bit b (7 - i)) [0..<8]) (le_bytes 4 addr))"

lemma key_bits: "key_bits addr = map (\<lambda>i. bit (ntohl addr) (31 - i)) [0..<32]"
  by (simp add: key_bits_def le_bytes_def ntohl_def ip_from_octets_def byte_at_def upt_rec bit_simps)

lemma covers_key_bits:
  assumes "unat len \<le> 32"
  shows "covers addr (len, p) \<longleftrightarrow> take (unat len) (key_bits addr) = take (unat len) (key_bits p)"
proof -
  let ?n = "unat len"
  have "take ?n (key_bits addr) = take ?n (key_bits p) \<longleftrightarrow>
      (\<forall>i < ?n. bit (ntohl addr) (31 - i) = bit (ntohl p) (31 - i))"
    using assms by (simp add: key_bits take_map min_def list_eq_iff_nth_eq)
  also have "\<dots> \<longleftrightarrow> (\<forall>k. 32 - ?n \<le> k \<and> k < 32 \<longrightarrow> bit (ntohl addr) k = bit (ntohl p) k)"
  proof safe
    fix k
    assume a: "\<forall>i < ?n. bit (ntohl addr) (31 - i) = bit (ntohl p) (31 - i)" and k: "32 - ?n \<le> k" "k < 32"
    show "bit (ntohl p) k" if "bit (ntohl addr) k" using a [rule_format, of "31 - k"] that k by simp
    show "bit (ntohl addr) k" if "bit (ntohl p) k" using a [rule_format, of "31 - k"] that k by simp
  next
    fix i
    assume a: "\<forall>k. 32 - ?n \<le> k \<and> k < 32 \<longrightarrow> bit (ntohl addr) k = bit (ntohl p) k" and i: "i < ?n"
    have "32 - ?n \<le> 31 - i" "31 - i < 32" using i by simp_all
    with a have e: "bit (ntohl addr) (31 - i) = bit (ntohl p) (31 - i)" by blast
    show "bit (ntohl p) (31 - i)" if "bit (ntohl addr) (31 - i)" using e that by simp
    show "bit (ntohl addr) (31 - i)" if "bit (ntohl p) (31 - i)" using e that by simp
  qed
  also have "\<dots> \<longleftrightarrow> drop_bit (32 - ?n) (ntohl addr) = drop_bit (32 - ?n) (ntohl p)"
  proof
    assume a: "\<forall>k. 32 - ?n \<le> k \<and> k < 32 \<longrightarrow> bit (ntohl addr) k = bit (ntohl p) k"
    show "drop_bit (32 - ?n) (ntohl addr) = drop_bit (32 - ?n) (ntohl p)"
    proof (rule bit_word_eqI)
      fix j
      show "bit (drop_bit (32 - ?n) (ntohl addr)) j = bit (drop_bit (32 - ?n) (ntohl p)) j"
        using a [rule_format, of "32 - ?n + j"] bit_imp_le_length [of "ntohl addr" "32 - ?n + j"]
          bit_imp_le_length [of "ntohl p" "32 - ?n + j"] by (auto simp: bit_drop_bit_eq)
    qed
  next
    assume a: "drop_bit (32 - ?n) (ntohl addr) = drop_bit (32 - ?n) (ntohl p)"
    show "\<forall>k. 32 - ?n \<le> k \<and> k < 32 \<longrightarrow> bit (ntohl addr) k = bit (ntohl p) k"
    proof (intro allI impI)
      fix k
      assume k: "32 - ?n \<le> k \<and> k < 32"
      then obtain j where "k = 32 - ?n + j" using le_Suc_ex by blast
      then show "bit (ntohl addr) k = bit (ntohl p) k"
        using arg_cong [OF a, of "\<lambda>w. bit w j"] by (simp add: bit_drop_bit_eq)
    qed
  qed
  finally show ?thesis by (simp add: covers_def)
qed

section \<open>Two calls on bytes\<close>

text \<open>The calls of \<open>demo_calls\<close>; the block that is reserved holds what was there before.\<close>

definition dirty_block :: bytes where
  "dirty_block = replicate 24 0xEE"

definition raw_calls :: "u8 raw_call list" where
  "raw_calls =
     [RawEnter 0x700000008 1, RawEnter 9 2, RawReturn 9 (-115) demo_mem (Some dirty_block) 6,
      RawReturn 0x700000008 0 demo_mem (Some dirty_block) 7]"

lemma raw_calls: "map call_of raw_calls = demo_calls" "list_all sized raw_calls"
  by (simp_all add: raw_calls_def demo_calls_def dirty_block_def)

definition demo_record :: bytes where
  "demo_record =
     [0x0A, 0xF4, 1, 5, 0x0A, 0xF4, 2, 3, 80, 0, 0xEE, 0xEE, 7, 0, 0, 0, 7, 0, 0, 0, 0, 0, 0, 0]"

lemma demo_record: "fill_event 0x700000008 (demo_mem 1) 7 dirty_block = demo_record"
  by code_simp

lemma read_demo_record: "read_event demo_record = demo_event"
  unfolding demo_record [symmetric] demo_connect [symmetric]
  by (rule read_fill_event) (simp add: dirty_block_def)

lemma raw_ring:
  "rp_ring (raw_connect_return h t ret tid mem block now s) = rp_ring s @
     (case map_lookup h (rp_socks s) tid of
        None \<Rightarrow> []
      | Some sk \<Rightarrow>
          if (ret = 0 \<or> ret = -115) \<and> lpm_find h t (32, skc_rcv_saddr (mem sk)) = Some 1
          then map (fill_event tid (mem sk) now) (case block of None \<Rightarrow> [] | Some evt \<Rightarrow> [evt]) else [])"
  by (auto simp: raw_connect_return_def Let_def split: option.split)

lemma raw_socks:
  "rp_socks (raw_connect_return h t ret tid mem block now s) =
     (if (ret = 0 \<or> ret = -115) \<and> map_lookup h (rp_socks s) tid \<noteq> None
      then map_delete h (rp_socks s) tid else rp_socks s)"
  by (auto simp: raw_connect_return_def Let_def split: option.split)

lemma demo_pod_labels: "lpm_find demo_helpers (fst (populate_cidr_map demo_helpers [])) (32, addr) = Some 1 \<longleftrightarrow> pod addr"
  using documented_demo by (intro populate_pods(1)) (simp add: documented_def)

lemma demo_saddr: "skc_rcv_saddr (demo_mem 1) = ntohl 0x0AF40105" "skc_rcv_saddr (demo_mem 2) = ntohl 0xC0A80101"
  by (simp_all add: demo_mem_def)

lemma demo_maps:
  "map_update demo_helpers m k v = (if k \<in> dom m \<or> card (dom m) < 4096 then m(k \<mapsto> v) else m)"
  "map_lookup demo_helpers m = m" "map_delete demo_helpers m k = m(k := None)"
  by (simp_all add: demo_helpers_def)

lemmas demo_probe_facts = demo_pod_labels demo_saddr demo_pods demo_maps demo_record

lemma raw_calls_ring:
  "rp_ring (raw_run demo_helpers (fst (populate_cidr_map demo_helpers [])) raw_calls Map.empty) = [demo_record]"
  unfolding raw_run_def raw_calls_def by (simp add: raw_ring raw_socks demo_probe_facts)

section \<open>Property\<close>

text \<open>C17: The bytes that cross from the kernel to the collector mean the same on both sides: whatever stood in the
  memory the ring buffer reserves, each record the probes submit has the size of the struct, the collector's
  struct read from them is the event the probes meant, in the order they were submitted, and so the records
  are printed as those events.\<close>

theorem records_cross_as_bytes:
  assumes "list_all sized rcs"
  shows "let ring = rp_ring (raw_run h t rcs m); events = pr_ring (probe_run h t (map call_of rcs) m)
    in list_all (\<lambda>r. length r = 24) ring \<and> map read_event ring = events \<and>
       concat (map handle_record ring) = concat (map (handle_event 24) events)"
proof -
  note raw = raw_run_refines [OF assms, of h t m]
  from full_records_printed [OF raw(2)] show ?thesis unfolding raw(1) Let_def using raw by blast
qed

theorem records_cross_as_bytes_witness:
  "map read_event (rp_ring (raw_run demo_helpers (fst (populate_cidr_map demo_helpers [])) raw_calls Map.empty)) =
     pr_ring (probe_run demo_helpers (fst (populate_cidr_map demo_helpers [])) demo_calls Map.empty) \<and>
   map read_event (rp_ring (raw_run demo_helpers (fst (populate_cidr_map demo_helpers [])) raw_calls Map.empty)) = [demo_event]"
  using records_cross_as_bytes [OF raw_calls(2), of demo_helpers "fst (populate_cidr_map demo_helpers [])" Map.empty]
  by (simp add: Let_def raw_calls(1) raw_calls_ring read_demo_record)

end
