(* ===== verification/Collector.thy ===== *)
theory Collector
  imports Wire
begin

text \<open>
  The user-space collector (\<open>collector/src/user/collector.cpp\<close>): \<open>main\<close> with its set-up steps, the poll loop
  and the clean-up, its messages, and the path of a connection from the probe to the engine.

  libbpf is not in the repository: \<open>collector_world\<close> says how each of its calls ends, and \<open>cw_polls\<close> what each
  \<open>ring_buffer__poll\<close> delivers to \<open>handle_event\<close> and returns. The CIDR map is filled through \<open>helpers\<close>.
\<close>

section \<open>\<open>main\<close>\<close>

text \<open>\<open>po_exiting\<close>: the flag of the signal handler, when the loop tests it before this poll.\<close>

record poll =
  po_exiting :: bool
  po_records :: "bytes list"
  po_err :: int

record collector_world =
  cw_open :: bool
  cw_load :: bool
  cw_programs :: bool
  cw_entry_link :: bool
  cw_return_link :: bool
  cw_cidr_map :: bool
  cw_events_map :: bool
  cw_ring_buffer :: bool
  cw_polls :: "poll list"

datatype resource = BpfObject | EntryLink | ReturnLink | RingBuffer

text \<open>The exit code (\<open>None\<close>: the loop is still waiting when the polls given end), standard output, standard
  error and the resources the program has not given back.\<close>

type_synonym collector_end = "nat option \<times> string \<times> string \<times> resource set"

definition usage :: "string \<Rightarrow> string" where
  "usage prog = unlines
     [''Usage: '' @ prog @ '' [--help]'',
      '''',
      ''Zero-Trust Network Mapper '' @ dash @ '' eBPF Collector'',
      ''Captures TCP connection events via kprobe/tcp_v4_connect.'',
      ''Outputs JSON lines to stdout.'',
      '''',
      ''Requires: root privileges, kernel >= 5.8, CONFIG_BPF=y'']"

text \<open>\<open>-EINTR\<close> and every other negative answer end the loop.\<close>

fun poll_loop :: "poll list \<Rightarrow> bool \<times> string \<times> string" where
  "poll_loop [] = (False, '''', '''')"
| "poll_loop (p # ps) =
     (if po_exiting p then (True, '''', '''')
      else
        let out = concat (map handle_record (po_records p))
        in if po_err p = -4 then (True, out, '''')
           else if po_err p < 0
           then (True, out, unlines [''Error polling ring buffer: '' @ int_to_string (po_err p)])
           else case poll_loop ps of (ended, rest, err) \<Rightarrow> (ended, out @ rest, err))"

definition collector_main ::
  "('m, 'p, 't) helpers \<Rightarrow> 't \<Rightarrow> string list \<Rightarrow> collector_world \<Rightarrow> collector_end" where
  "collector_main h t0 argv w =
     (if length argv > 1 \<and> (argv ! 1 = ''--help'' \<or> argv ! 1 = ''-h'') then (Some 0, '''', usage (argv ! 0), {})
      else if \<not> cw_open w then
        (Some 1, '''', unlines
           [''Error: failed to open BPF object file'',
            ''Make sure tcp_connect.bpf.o is in the current directory.'',
            ''Build with: clang -O2 -target bpf -c tcp_connect.bpf.c -o tcp_connect.bpf.o''], {})
      else
        let held = {BpfObject} in
        if \<not> cw_load w then (Some 1, '''', unlines [''Error: failed to load BPF object''], held - {BpfObject})
        else if \<not> cw_programs w then
          (Some 1, '''', unlines [''Error: failed to find BPF programs''], held - {BpfObject})
        else
          let held = held \<union> (if cw_entry_link w then {EntryLink} else {});
              held = held \<union> (if cw_return_link w then {ReturnLink} else {})
          in if \<not> cw_entry_link w \<or> \<not> cw_return_link w then
            (Some 1, '''', unlines [''Error: failed to attach BPF programs''], held - {BpfObject})
          else
            let err = (if cw_cidr_map w then snd (populate_cidr_map h t0) else '''') in
            if \<not> cw_events_map w then
              (Some 1, '''', err @ unlines [''Error: failed to find events ring buffer map''],
               held - {EntryLink} - {ReturnLink} - {BpfObject})
            else if \<not> cw_ring_buffer w then
              (Some 1, '''', err @ unlines [''Error: failed to create ring buffer''],
               held - {EntryLink} - {ReturnLink} - {BpfObject})
            else
              let held = held \<union> {RingBuffer};
                  err = err @ unlines [''Zero-Trust Mapper: eBPF collector started.'',
                                       ''Capturing TCP connections... (Ctrl+C to stop)'']
              in case poll_loop (cw_polls w) of
                (False, out, e) \<Rightarrow> (None, out, err @ e, held)
              | (True, out, e) \<Rightarrow>
                  (Some 0, out, err @ e @ unlines ['''', ''Shutting down...''],
                   held - {RingBuffer} - {EntryLink} - {ReturnLink} - {BpfObject}))"

text \<open>The CIDR map after the set-up.\<close>

definition cidr_map_of :: "('m, 'p, 't) helpers \<Rightarrow> 't \<Rightarrow> collector_world \<Rightarrow> 't" where
  "cidr_map_of h t0 w = (if cw_cidr_map w then fst (populate_cidr_map h t0) else t0)"

section \<open>The loop\<close>

text \<open>The records the loop takes out of the ring buffer: those of the polls up to the one that ends it.\<close>

fun taken :: "poll list \<Rightarrow> bytes list" where
  "taken [] = []"
| "taken (p # ps) =
     (if po_exiting p then [] else po_records p @ (if po_err p < 0 then [] else taken ps))"

lemma poll_loop_out: "fst (snd (poll_loop ps)) = concat (map handle_record (taken ps))"
  by (induction ps) (auto simp: Let_def split: prod.split)

definition set_up :: "string list \<Rightarrow> collector_world \<Rightarrow> bool" where
  "set_up argv w \<longleftrightarrow>
     \<not> (length argv > 1 \<and> (argv ! 1 = ''--help'' \<or> argv ! 1 = ''-h'')) \<and> cw_open w \<and> cw_load w \<and> cw_programs w \<and>
     cw_entry_link w \<and> cw_return_link w \<and> cw_cidr_map w \<and> cw_events_map w \<and> cw_ring_buffer w"

lemma collector_out:
  "set_up argv w \<Longrightarrow> fst (snd (collector_main h t0 argv w)) = concat (map handle_record (taken (cw_polls w)))"
  unfolding poll_loop_out [symmetric]
  by (auto simp: set_up_def collector_main_def Let_def split: prod.split bool.split)

text \<open>What the collector prints when it has been handed the records of the probes.\<close>

lemma collector_prints:
  assumes "documented h m0 t0" and "list_all sized rcs" and "kernel_trace (map call_of rcs) P"
    and "card (set (map tid_of (map call_of rcs))) \<le> 4096" and "set_up argv w"
    and "taken (cw_polls w) = rp_ring (raw_run h (cidr_map_of h t0 w) rcs m0)"
  shows "fst (snd (collector_main h t0 argv w)) = concat (map (handle_event 24) (pod_connections (map call_of rcs)))"
proof -
  have t: "cidr_map_of h t0 w = fst (populate_cidr_map h t0)" using assms(5) by (simp add: cidr_map_of_def set_up_def)
  note raw = raw_run_refines [OF assms(2), of h "cidr_map_of h t0 w" m0]
  show ?thesis
    unfolding collector_out [OF assms(5)] assms(6) full_records_printed [OF raw(2)] raw(1)
    unfolding t probe_ring [OF assms(1,3,4)] ..
qed

section \<open>Properties\<close>

text \<open>C6: A connection of a pod reaches the engine unchanged: when the collector is set up and its polls hand over the
  records the probes submitted, whatever bytes stood in the reserved memory before, the lines it prints are,
  for the engine's reader, exactly the connections of the pods in the order of the returns, with their
  addresses in host byte order.\<close>

theorem connections_reach_engine:
  assumes "documented h m0 t0" and "list_all sized rcs" and "kernel_trace (map call_of rcs) P"
    and "card (set (map tid_of (map call_of rcs))) \<le> 4096" and "set_up argv w"
    and "taken (cw_polls w) = rp_ring (raw_run h (cidr_map_of h t0 w) rcs m0)"
  shows "map parse_event (getlines CHR 0x0A (fst (snd (collector_main h t0 argv w)))) =
    map (\<lambda>e. Inr (Some (e\<lparr>src_ip := ntohl (src_ip e), dst_ip := ntohl (dst_ip e)\<rparr>))) (pod_connections (map call_of rcs))"
  unfolding collector_prints [OF assms] by (rule collector_lines) simp

definition demo_collector :: collector_world where
  "demo_collector =
     \<lparr>cw_open = True, cw_load = True, cw_programs = True, cw_entry_link = True, cw_return_link = True,
      cw_cidr_map = True, cw_events_map = True, cw_ring_buffer = True,
      cw_polls = [\<lparr>po_exiting = False, po_records = [], po_err = 0\<rparr>,
                  \<lparr>po_exiting = False, po_records = [demo_record], po_err = 1\<rparr>,
                  \<lparr>po_exiting = True, po_records = [], po_err = 0\<rparr>]\<rparr>"

theorem connections_reach_engine_witness:
  "map parse_event (getlines CHR 0x0A (fst (snd (collector_main demo_helpers [] [''collector''] demo_collector)))) =
   [Inr (Some \<lparr>src_ip = 0x0AF40105, dst_ip = 0x0AF40203, dst_port = 80, pid = 7, timestamp_ns = 7\<rparr>)]"
proof -
  have u: "set_up [''collector''] demo_collector" by (simp add: set_up_def demo_collector_def)
  have "taken (cw_polls demo_collector) = [demo_record]"
    "cidr_map_of demo_helpers [] demo_collector = fst (populate_cidr_map demo_helpers [])"
    by (simp_all add: demo_collector_def cidr_map_of_def)
  then have t: "taken (cw_polls demo_collector) =
      rp_ring (raw_run demo_helpers (cidr_map_of demo_helpers [] demo_collector) raw_calls Map.empty)"
    by (simp only: raw_calls_ring)
  from connections_reach_engine [OF documented_demo raw_calls(2) _ _ u t, unfolded raw_calls(1),
      OF demo_calls_trace demo_tids] show ?thesis
    by (simp add: demo_connections) (simp add: demo_event_def)
qed

text \<open>The collector gives back what it acquired on every path that ends, errors included, with one exception: when
  only one of the two probes can be attached, the link of that one is kept.\<close>

theorem collector_releases:
  assumes "collector_main h t0 argv w = (Some code, out, err, held)"
  shows "held = {} \<or>
    code = 1 \<and> (held = {EntryLink} \<and> cw_entry_link w \<and> \<not> cw_return_link w \<or>
                held = {ReturnLink} \<and> cw_return_link w \<and> \<not> cw_entry_link w)"
  using assms unfolding collector_main_def Let_def
  by (auto split: if_splits prod.splits bool.splits)

theorem collector_releases_witness:
  "\<exists>err. collector_main demo_helpers [] [] (demo_collector\<lparr>cw_return_link := False\<rparr>) = (Some 1, '''', err, {EntryLink})"
proof -
  let ?w = "demo_collector\<lparr>cw_return_link := False\<rparr>"
  have "collector_main demo_helpers [] [] ?w =
      (Some 1, '''', unlines [''Error: failed to attach BPF programs''], {EntryLink})"
    by (auto simp: collector_main_def demo_collector_def)
  with collector_releases [OF this] show ?thesis by simp
qed

text \<open>A failing poll ends the collector with its message, and with the exit code of success.\<close>

lemma poll_error_exits_zero:
  assumes "set_up argv w" and "cw_polls w = ps @ [p]" and "\<forall>q \<in> set ps. \<not> po_exiting q \<and> po_err q \<ge> 0"
    and "\<not> po_exiting p" and "po_err p < 0" and "po_err p \<noteq> -4" and "documented h m0 t0"
  shows "\<exists>out. collector_main h t0 argv w =
    (Some 0, out, unlines [''Zero-Trust Mapper: eBPF collector started.'', ''Capturing TCP connections... (Ctrl+C to stop)'',
       ''Error polling ring buffer: '' @ int_to_string (po_err p), '''', ''Shutting down...''], {})"
proof -
  have "\<exists>out. poll_loop (ps @ [p]) =
      (True, out, unlines [''Error polling ring buffer: '' @ int_to_string (po_err p)])"
    using assms(3)
  proof (induction ps)
    case Nil
    then show ?case using assms(4-6) by (simp add: Let_def)
  next
    case (Cons q qs)
    then show ?case by (auto simp: Let_def)
  qed
  moreover have "snd (populate_cidr_map h t0) = ''''"
    using assms(7) by (simp add: documented_def populate_pods(2))
  ultimately show ?thesis
    using assms(1,2) by (auto simp: set_up_def collector_main_def Let_def)
qed

end
