(* ===== verification/Alert.thy ===== *)
theory Alert
  imports Text
begin

text \<open>
  The alert envelope (\<open>libdsa/include/dsa/soc/alert.h\<close>, \<open>libdsa/src/soc/alert.cpp\<close>) and its JSON
  form, and the severities the engine attaches (\<open>pipeline/src/engine.cpp\<close>). A reader of JSON
  strings, written from the grammar and not from the code, is the reference \<open>escape_json\<close> is
  proved against.
\<close>

section \<open>Types\<close>

datatype severity = Low | Medium | High | Critical

datatype status = New | Acknowledged | Resolved | Suppressed

fun severity_string :: "severity \<Rightarrow> string" where
  "severity_string Low = ''low''"
| "severity_string Medium = ''medium''"
| "severity_string High = ''high''"
| "severity_string Critical = ''critical''"

fun status_string :: "status \<Rightarrow> string" where
  "status_string New = ''new''"
| "status_string Acknowledged = ''ack''"
| "status_string Resolved = ''resolved''"
| "status_string Suppressed = ''suppressed''"

text \<open>An \<open>enum class\<close> is ordered by the position of its enumerators.\<close>

fun severity_rank :: "severity \<Rightarrow> nat" where
  "severity_rank Low = 0" | "severity_rank Medium = 1" | "severity_rank High = 2" | "severity_rank Critical = 3"

lemma severity_rank_inject: "severity_rank s = severity_rank t \<longleftrightarrow> s = t"
  by (cases s; cases t) simp_all

instantiation severity :: linorder
begin

definition less_eq_severity :: "severity \<Rightarrow> severity \<Rightarrow> bool" where
  "less_eq_severity s t \<longleftrightarrow> severity_rank s \<le> severity_rank t"

definition less_severity :: "severity \<Rightarrow> severity \<Rightarrow> bool" where
  "less_severity s t \<longleftrightarrow> severity_rank s < severity_rank t"

instance
  by standard (auto simp: less_eq_severity_def less_severity_def severity_rank_inject)

end

record alert =
  al_type :: string
  al_source :: string
  al_details :: string
  al_timestamp_ns :: u64
  al_incident_id :: string
  al_severity :: severity
  al_status :: status
  al_tags :: "string list"
  al_node_name :: string
  al_namespace :: string

section \<open>Serialization\<close>

definition hex_digit :: "nat \<Rightarrow> char" where
  "hex_digit d = (if d < 10 then char_of (48 + d) else char_of (87 + d))"

text \<open>\<open>snprintf(buf, sizeof(buf), "\u%04x", c)\<close> for \<open>c < 0x20\<close>\<close>

definition u_escape :: "char \<Rightarrow> string" where
  "u_escape c = [CHR 0x5C, CHR ''u'', CHR ''0'', CHR ''0'', hex_digit (of_char c div 16), hex_digit (of_char c mod 16)]"

definition escape_char :: "char \<Rightarrow> string" where
  "escape_char c =
     (if c = CHR 0x22 then [CHR 0x5C, CHR 0x22]
      else if c = CHR 0x5C then [CHR 0x5C, CHR 0x5C]
      else if c = CHR 0x0A then [CHR 0x5C, CHR ''n'']
      else if c = CHR 0x0D then [CHR 0x5C, CHR ''r'']
      else if c = CHR 0x09 then [CHR 0x5C, CHR ''t'']
      else if (of_char c :: nat) < 0x20 then u_escape c
      else [c])"

definition escape_json :: "string \<Rightarrow> string" where
  "escape_json s = fold (\<lambda>c out. out @ escape_char c) s []"

text \<open>A member \<open>"key":"value"\<close>; \<open>qu\<close> puts a text between quotes.\<close>

definition qu :: "string \<Rightarrow> string" where
  "qu s = CHR 0x22 # s @ [CHR 0x22]"

definition member :: "string \<Rightarrow> string \<Rightarrow> string" where
  "member key val = qu key @ '':'' @ qu (escape_json val)"

fun tag_list :: "string list \<Rightarrow> string" where
  "tag_list [] = ''''"
| "tag_list [t] = qu (escape_json t)"
| "tag_list (t # ts) = qu (escape_json t) @ '','' @ tag_list ts"

definition to_json :: "alert \<Rightarrow> string" where
  "to_json a =
     ''{'' @ member ''type'' (al_type a) @ '','' @ member ''source'' (al_source a) @ '','' @
     qu ''timestamp_ns'' @ '':'' @ to_string (unat (al_timestamp_ns a)) @ '','' @
     qu ''severity'' @ '':'' @ qu (severity_string (al_severity a)) @ '','' @
     qu ''status'' @ '':'' @ qu (status_string (al_status a)) @
     (if al_incident_id a \<noteq> [] then '','' @ member ''incident_id'' (al_incident_id a) else '''') @
     (if al_node_name a \<noteq> [] then '','' @ member ''node_name'' (al_node_name a) else '''') @
     (if al_namespace a \<noteq> [] then '','' @ member ''namespace'' (al_namespace a) else '''') @
     (if al_tags a \<noteq> [] then '','' @ qu ''tags'' @ '':['' @ tag_list (al_tags a) @ '']'' else '''') @
     '','' @ qu ''details'' @ '':'' @ (if al_details a = [] then ''{}'' else al_details a) @ ''}''"

section \<open>Severities\<close>

record severity_rule =
  sr_alert_type :: string
  sr_severity :: string

definition parse_severity :: "string \<Rightarrow> severity \<Rightarrow> severity" where
  "parse_severity s fallback =
     (if s = ''low'' then Low
      else if s = ''medium'' then Medium
      else if s = ''high'' then High
      else if s = ''critical'' then Critical
      else fallback)"

fun severity_for :: "string \<Rightarrow> severity_rule list \<Rightarrow> severity" where
  "severity_for ty (r # rules) =
     (if sr_alert_type r = ty then parse_severity (sr_severity r) Medium else severity_for ty rules)"
| "severity_for ty [] =
     (if ty = ''blast_radius'' then High
      else if ty = ''scc_anomaly'' then High
      else if ty = ''port_scan'' then Medium
      else Medium)"

section \<open>Reading a JSON string\<close>

definition hex_value :: "char \<Rightarrow> nat option" where
  "hex_value c =
     (let n = of_char c :: nat
      in if 48 \<le> n \<and> n \<le> 57 then Some (n - 48)
         else if 97 \<le> n \<and> n \<le> 102 then Some (n - 87)
         else if 65 \<le> n \<and> n \<le> 70 then Some (n - 55)
         else None)"

definition hex4 :: "char \<Rightarrow> char \<Rightarrow> char \<Rightarrow> char \<Rightarrow> char option" where
  "hex4 a b c d =
     (case (hex_value a, hex_value b, hex_value c, hex_value d) of
        (Some a, Some b, Some c, Some d) \<Rightarrow>
          (let n = ((a * 16 + b) * 16 + c) * 16 + d in if n < 128 then Some (char_of n) else None)
      | _ \<Rightarrow> None)"

definition simple_escape :: "char \<Rightarrow> char option" where
  "simple_escape c =
     map_of [(CHR 0x22, CHR 0x22), (CHR 0x5C, CHR 0x5C), (CHR ''/'', CHR ''/''), (CHR ''b'', CHR 0x08),
             (CHR ''f'', CHR 0x0C), (CHR ''n'', CHR 0x0A), (CHR ''r'', CHR 0x0D), (CHR ''t'', CHR 0x09)] c"

text \<open>After the opening quote: the text up to the closing one, and what follows.\<close>

fun read_string :: "string \<Rightarrow> (string \<times> string) option" where
  "read_string [] = None"
| "read_string (c # s) =
     (if c = CHR 0x22 then Some ([], s)
      else if (of_char c :: nat) < 0x20 then None
      else if c = CHR 0x5C then
        (case s of
           [] \<Rightarrow> None
         | e # s' \<Rightarrow>
           if e = CHR ''u'' then
             (case s' of
                w # x # y # z # s'' \<Rightarrow>
                  (case hex4 w x y z of
                     None \<Rightarrow> None
                   | Some k \<Rightarrow> map_option (map_prod (\<lambda>t. k # t) id) (read_string s''))
              | _ \<Rightarrow> None)
           else
             (case simple_escape e of
                None \<Rightarrow> None
              | Some k \<Rightarrow> map_option (map_prod (\<lambda>t. k # t) id) (read_string s')))
      else map_option (map_prod (\<lambda>t. c # t) id) (read_string s))"

declare read_string.simps [simp del]

lemma escape_json_concat: "escape_json s = concat (map escape_char s)"
proof -
  have "fold (\<lambda>c out. out @ escape_char c) s out = out @ concat (map escape_char s)" for out
    by (induction s arbitrary: out) simp_all
  then show ?thesis by (simp add: escape_json_def)
qed

lemma hex4_control: "(of_char c :: nat) < 0x20 \<Longrightarrow>
    hex4 CHR ''0'' CHR ''0'' (hex_digit (of_char c div 16)) (hex_digit (of_char c mod 16)) = Some c"
proof -
  assume c: "(of_char c :: nat) < 0x20"
  have h: "hex_value (hex_digit d) = Some d" if "d < 16" for d
    using that by (auto simp: hex_value_def hex_digit_def Let_def)
  have z: "hex_value CHR ''0'' = Some 0" by (simp add: hex_value_def)
  have "(of_char c :: nat) div 16 < 16" "(of_char c :: nat) mod 16 < 16" using c by auto
  then show ?thesis using c by (simp add: hex4_def h z)
qed

lemma hex_digit_plain:
  assumes "d < 16"
  shows "hex_digit d \<noteq> CHR 0x22" "hex_digit d \<noteq> CHR 0x5C" "\<not> (of_char (hex_digit d) :: nat) < 0x20"
proof -
  have n: "of_char (hex_digit d) = (if d < 10 then 48 + d else 87 + d)"
    using assms by (simp add: hex_digit_def)
  have ne: "hex_digit d \<noteq> c" if "(of_char c :: nat) \<noteq> (if d < 10 then 48 + d else 87 + d)" for c
    using n that by metis
  show "hex_digit d \<noteq> CHR 0x22" by (rule ne) simp
  show "hex_digit d \<noteq> CHR 0x5C" using assms by (intro ne) simp
  show "\<not> (of_char (hex_digit d) :: nat) < 0x20" using n by simp
qed

lemma read_escape_char:
  "read_string (escape_char c @ s) = map_option (map_prod (\<lambda>t. c # t) id) (read_string s)"
proof -
  consider "c \<in> {CHR 0x22, CHR 0x5C, CHR 0x0A, CHR 0x0D, CHR 0x09}"
    | "c \<notin> {CHR 0x22, CHR 0x5C, CHR 0x0A, CHR 0x0D, CHR 0x09}" "(of_char c :: nat) < 0x20"
    | "c \<notin> {CHR 0x22, CHR 0x5C, CHR 0x0A, CHR 0x0D, CHR 0x09}" "\<not> (of_char c :: nat) < 0x20" by blast
  then show ?thesis
  proof cases
    case 1
    then show ?thesis
      by (elim insertE) (simp_all add: escape_char_def read_string.simps(2) simple_escape_def)
  next
    case 2
    then have e: "escape_char c = u_escape c" by (simp add: escape_char_def)
    show ?thesis
      unfolding e u_escape_def by (simp add: read_string.simps(2) hex4_control [OF 2(2)])
  next
    case 3
    then have "escape_char c = [c]" by (simp add: escape_char_def)
    then show ?thesis using 3 by (simp add: read_string.simps(2))
  qed
qed

lemma read_escape_json: "read_string (escape_json s @ CHR 0x22 # rest) = Some (s, rest)"
proof -
  have "read_string (concat (map escape_char s) @ CHR 0x22 # rest) = Some (s, rest)"
    by (induction s) (simp_all add: read_escape_char, simp add: read_string.simps)
  then show ?thesis by (simp add: escape_json_concat)
qed

section \<open>A grammar of JSON texts\<close>

text \<open>
  The values of RFC 8259 and the texts that stand for them, without the white space a text may
  have between its tokens; a number is an integer.
\<close>

datatype json =
    JString string
  | JNumber int
  | JArray "json list"
  | JObject "(string \<times> json) list"

fun commas :: "string list \<Rightarrow> string" where
  "commas [] = ''''"
| "commas [s] = s"
| "commas (s # ss) = s @ '','' @ commas ss"

definition string_text :: "string \<Rightarrow> string \<Rightarrow> bool" where
  "string_text s t \<longleftrightarrow> (\<exists>u. s = CHR 0x22 # u \<and> read_string u = Some (t, []))"

inductive json_text :: "string \<Rightarrow> json \<Rightarrow> bool" where
  text_string: "string_text s t \<Longrightarrow> json_text s (JString t)"
| text_number: "json_text (int_to_string n) (JNumber n)"
| text_array: "list_all2 json_text ss vs \<Longrightarrow> json_text (''['' @ commas ss @ '']'') (JArray vs)"
| text_object: "list_all2 (\<lambda>m kv. \<exists>k v. m = k @ '':'' @ v \<and> string_text k (fst kv) \<and> json_text v (snd kv)) ms kvs \<Longrightarrow>
    json_text (''{'' @ commas ms @ ''}'') (JObject kvs)"

abbreviation member_text :: "string \<Rightarrow> string \<times> json \<Rightarrow> bool" where
  "member_text m kv \<equiv> \<exists>k v. m = k @ '':'' @ v \<and> string_text k (fst kv) \<and> json_text v (snd kv)"

lemma string_text_escaped: "string_text (qu (escape_json t)) t"
  using read_escape_json [of t "[]"] by (simp add: string_text_def qu_def)

text \<open>A text with nothing to escape stands for itself.\<close>

definition unescaped :: "string \<Rightarrow> bool" where
  "unescaped s \<longleftrightarrow> (\<forall>c \<in> set s. escape_char c = [c])"

lemma escape_unescaped: "unescaped s \<Longrightarrow> escape_json s = s"
  unfolding escape_json_concat unescaped_def by (induction s) auto

lemma unescaped_simps [simp]:
  "unescaped []" "unescaped (c # s) \<longleftrightarrow> escape_char c = [c] \<and> unescaped s"
  "unescaped (s @ t) \<longleftrightarrow> unescaped s \<and> unescaped t"
  by (auto simp: unescaped_def)

lemma string_text_plain: "unescaped t \<Longrightarrow> string_text (qu t) t"
  using string_text_escaped [of t] by (simp add: escape_unescaped)

lemma member_text_member: "unescaped k \<Longrightarrow> member_text (member k t) (k, JString t)"
  unfolding member_def fst_conv snd_conv
  by (intro exI conjI, rule refl, rule string_text_plain, assumption, rule text_string, rule string_text_escaped)

lemma member_text_value: "unescaped k \<Longrightarrow> json_text v j \<Longrightarrow> member_text (qu k @ '':'' @ v) (k, j)"
  unfolding fst_conv snd_conv
  by (intro exI conjI, rule refl, rule string_text_plain, assumption, assumption)

lemma commas_append:
  "commas (xs @ ys) = (if xs = [] then commas ys else if ys = [] then commas xs else commas xs @ '','' @ commas ys)"
proof (induction xs rule: commas.induct)
  case (2 s)
  then show ?case by (cases ys) auto
qed auto

lemma tag_list_commas: "tag_list ts = commas (map (\<lambda>t. qu (escape_json t)) ts)"
  by (induction ts rule: tag_list.induct) auto

lemma json_text_tags: "json_text (''['' @ tag_list ts @ '']'') (JArray (map JString ts))"
  unfolding tag_list_commas
  by (rule text_array) (simp add: list_all2_conv_all_nth text_string string_text_escaped)

lemma json_text_nat: "json_text (to_string n) (JNumber (int n))"
  using text_number [of "int n"] by (simp add: int_to_string_def)

section \<open>The object an alert is\<close>

definition alert_object :: "alert \<Rightarrow> json \<Rightarrow> json" where
  "alert_object a details = JObject (
     [(''type'', JString (al_type a)), (''source'', JString (al_source a)),
      (''timestamp_ns'', JNumber (uint (al_timestamp_ns a))),
      (''severity'', JString (severity_string (al_severity a))),
      (''status'', JString (status_string (al_status a)))] @
     (if al_incident_id a = [] then [] else [(''incident_id'', JString (al_incident_id a))]) @
     (if al_node_name a = [] then [] else [(''node_name'', JString (al_node_name a))]) @
     (if al_namespace a = [] then [] else [(''namespace'', JString (al_namespace a))]) @
     (if al_tags a = [] then [] else [(''tags'', JArray (map JString (al_tags a)))]) @
     [(''details'', details)])"

definition alert_members :: "alert \<Rightarrow> string list" where
  "alert_members a =
     [member ''type'' (al_type a), member ''source'' (al_source a),
      qu ''timestamp_ns'' @ '':'' @ to_string (unat (al_timestamp_ns a)),
      qu ''severity'' @ '':'' @ qu (severity_string (al_severity a)),
      qu ''status'' @ '':'' @ qu (status_string (al_status a))] @
     (if al_incident_id a = [] then [] else [member ''incident_id'' (al_incident_id a)]) @
     (if al_node_name a = [] then [] else [member ''node_name'' (al_node_name a)]) @
     (if al_namespace a = [] then [] else [member ''namespace'' (al_namespace a)]) @
     (if al_tags a = [] then [] else [qu ''tags'' @ '':'' @ ''['' @ tag_list (al_tags a) @ '']'']) @
     [qu ''details'' @ '':'' @ (if al_details a = [] then ''{}'' else al_details a)]"

lemma to_json_members: "to_json a = ''{'' @ commas (alert_members a) @ ''}''"
  unfolding to_json_def alert_members_def commas_append by auto

lemma unescaped_words:
  "unescaped ''type''" "unescaped ''source''" "unescaped ''timestamp_ns''" "unescaped ''severity''"
  "unescaped ''status''" "unescaped ''incident_id''" "unescaped ''node_name''" "unescaped ''namespace''"
  "unescaped ''tags''" "unescaped ''details''"
  by (simp_all add: escape_char_def)

lemma unescaped_enum: "unescaped (severity_string v)" "unescaped (status_string t)"
  by (cases v; simp add: escape_char_def) (cases t; simp add: escape_char_def)

lemma optional_member: "(\<not> P \<Longrightarrow> member_text m kv) \<Longrightarrow>
    list_all2 member_text (if P then [] else [m]) (if P then [] else [kv])"
  by simp

lemma to_json_text:
  assumes "if al_details a = [] then d = JObject [] else json_text (al_details a) d"
  shows "json_text (to_json a) (alert_object a d)"
proof -
  have "json_text ''{}'' (JObject [])" using text_object [of "[]" "[]"] by simp
  then have d: "json_text (if al_details a = [] then ''{}'' else al_details a) d" using assms by auto
  have n: "json_text (to_string (unat (al_timestamp_ns a))) (JNumber (uint (al_timestamp_ns a)))"
    using json_text_nat [of "unat (al_timestamp_ns a)"] by simp
  have w: "unescaped s \<Longrightarrow> json_text (qu s) (JString s)" for s
    by (rule text_string [OF string_text_plain])
  note m = unescaped_words [THEN member_text_member] unescaped_words [THEN member_text_value]
  show ?thesis
    unfolding to_json_members alert_object_def
  proof (rule text_object)
    show "list_all2 member_text (alert_members a) ((
       [(''type'', JString (al_type a)), (''source'', JString (al_source a)),
      (''timestamp_ns'', JNumber (uint (al_timestamp_ns a))),
      (''severity'', JString (severity_string (al_severity a))),
      (''status'', JString (status_string (al_status a)))] @
     (if al_incident_id a = [] then [] else [(''incident_id'', JString (al_incident_id a))]) @
     (if al_node_name a = [] then [] else [(''node_name'', JString (al_node_name a))]) @
     (if al_namespace a = [] then [] else [(''namespace'', JString (al_namespace a))]) @
     (if al_tags a = [] then [] else [(''tags'', JArray (map JString (al_tags a)))]) @
     [(''details'', d)]))"
      unfolding alert_members_def
      by (intro list_all2_appendI list.rel_intros optional_member m w d n json_text_tags unescaped_enum)
  qed
qed

text \<open>No control characters, hence on one line.\<close>

definition printable :: "string \<Rightarrow> bool" where
  "printable s \<longleftrightarrow> list_all (\<lambda>c. 0x20 \<le> (of_char c :: nat)) s"

lemma printable_simps [simp]:
  "printable []" "printable (c # s) \<longleftrightarrow> 0x20 \<le> (of_char c :: nat) \<and> printable s"
  "printable (s @ t) \<longleftrightarrow> printable s \<and> printable t"
  by (auto simp: printable_def)

lemma printable_no_newline: "printable s \<Longrightarrow> CHR 0x0A \<notin> set s"
  by (auto simp: printable_def list_all_iff)

lemma printable_escape_char: "printable (escape_char c)"
proof (cases "c \<in> {CHR 0x22, CHR 0x5C, CHR 0x0A, CHR 0x0D, CHR 0x09}")
  case True
  then show ?thesis by (elim insertE) (auto simp: escape_char_def)
next
  case False
  have "0x20 \<le> (of_char (hex_digit d) :: nat)" if "d < 16" for d using that by (simp add: hex_digit_def)
  then show ?thesis using False by (simp add: escape_char_def u_escape_def)
qed

lemma printable_escape_json [simp]: "printable (escape_json s)"
  unfolding escape_json_concat by (induction s) (simp_all add: printable_escape_char)

lemma printable_qu [simp]: "printable (qu s) \<longleftrightarrow> printable s"
  by (simp add: qu_def)

lemma printable_member: "printable k \<Longrightarrow> printable (member k s)"
  by (simp add: member_def)

lemma printable_tag_list [simp]: "printable (tag_list ts)"
  by (induction ts rule: tag_list.induct) auto

lemma printable_digits: "(\<And>c. c \<in> set s \<Longrightarrow> is_digit c) \<Longrightarrow> printable s"
  unfolding printable_def list_all_iff is_digit_def by fastforce

lemma printable_to_string [simp]: "printable (to_string n)"
  by (rule printable_digits) (rule to_string_digits)

lemma printable_enum [simp]: "printable (severity_string v)" "printable (status_string t)"
  by (cases v; simp) (cases t; simp)

lemma printable_if: "(b \<Longrightarrow> printable s) \<Longrightarrow> (\<not> b \<Longrightarrow> printable t) \<Longrightarrow> printable (if b then s else t)"
  by simp

lemma printable_commas: "(\<And>s. s \<in> set ss \<Longrightarrow> printable s) \<Longrightarrow> printable (commas ss)"
  by (induction ss rule: commas.induct) auto

text \<open>The line is as printable as the details.\<close>

lemma printable_to_json: "printable (al_details a) \<Longrightarrow> printable (to_json a)"
  unfolding to_json_members
  by (intro printable_simps(3) [THEN iffD2] conjI printable_commas)
    (auto simp: alert_members_def printable_member split: if_splits)

section \<open>Properties\<close>

text \<open>C18: No text can break out of the JSON string it is written into: a JSON reader that starts
  after the opening quote reads back exactly the text, for all bytes it may contain, and stops at
  the closing quote the serializer wrote; and an escaped text has no control characters.\<close>

theorem escaped_text_reads_back:
  "read_string (escape_json s @ CHR 0x22 # rest) = Some (s, rest) \<and>
   printable (escape_json s)"
  by (simp add: read_escape_json)


definition demo_alert :: alert where
  "demo_alert = \<lparr>al_type = ''port_scan'', al_source = CHR 0x22 # ''}'' @ [CHR 0x0A], al_details = ''[7,-2]'',
     al_timestamp_ns = 12, al_incident_id = [], al_severity = High, al_status = New,
     al_tags = [''a'', [CHR 0x5C]], al_node_name = ''node-1'', al_namespace = []\<rparr>"


end
