(* ===== verification/Handlers.thy ===== *)
theory Handlers
  imports Alert
begin

text \<open>
  The sinks of the alerts (\<open>libdsa/include/dsa/soc/alert_handler.h\<close>, \<open>alert_handler_factory.h\<close> and
  \<open>libdsa/src/soc/\<close>): the file, stream and NATS handlers, the registry that makes them from a
  configuration, and the chain that fans an alert out to all of them. The NATS handler is the one
  the default build compiles, without the client library.

  The outside world is the record \<open>io\<close>. An open file is a path and the number of its stream, whose
  write position is kept apart, because two handlers may open one path; a path names one file.
  \<open>io_err\<close> holds what the handlers and the chain write to \<open>std::cerr\<close>.
\<close>

section \<open>The outside world\<close>

record io =
  io_files :: "string \<Rightarrow> string option"
  io_offsets :: "nat list"
  io_out :: string
  io_err :: string

definition write_out :: "string \<Rightarrow> io \<Rightarrow> io" where
  "write_out s io = io\<lparr>io_out := io_out io @ s\<rparr>"

definition write_err :: "string \<Rightarrow> io \<Rightarrow> io" where
  "write_err s io = io\<lparr>io_err := io_err io @ s\<rparr>"

text \<open>Nothing is written yet.\<close>

definition no_io :: io where
  "no_io = \<lparr>io_files = (\<lambda>_. None), io_offsets = [], io_out = '''', io_err = ''''\<rparr>"

text \<open>\<open>std::ofstream(path, out | trunc)\<close>: an empty file and a stream at its start.\<close>

definition open_trunc :: "string \<Rightarrow> io \<Rightarrow> nat \<times> io" where
  "open_trunc path io =
     (length (io_offsets io), io\<lparr>io_files := (io_files io)(path \<mapsto> ''''), io_offsets := io_offsets io @ [0]\<rparr>)"

definition overwrite :: "string \<Rightarrow> nat \<Rightarrow> string \<Rightarrow> string" where
  "overwrite old pos s = take pos old @ replicate (pos - length old) CHR 0x00 @ s @ drop (pos + length s) old"

definition write_file :: "string \<Rightarrow> nat \<Rightarrow> string \<Rightarrow> io \<Rightarrow> io" where
  "write_file path fd s io =
     io\<lparr>io_files := (io_files io)
          (path \<mapsto> overwrite (case io_files io path of None \<Rightarrow> '''' | Some t \<Rightarrow> t) (io_offsets io ! fd) s),
        io_offsets := (io_offsets io)[fd := io_offsets io ! fd + length s]\<rparr>"

section \<open>Handlers\<close>

datatype handler =
    FileHandler string nat      \<comment> \<open>\<open>path_\<close> and the stream\<close>
  | StreamHandler bool          \<comment> \<open>\<open>to_stderr_\<close>\<close>
  | NatsStub string             \<comment> \<open>\<open>subject_\<close>\<close>

fun handler_name :: "handler \<Rightarrow> string" where
  "handler_name (FileHandler path fd) = ''file:'' @ path"
| "handler_name (StreamHandler to_stderr) = (if to_stderr then ''stderr'' else ''stdout'')"
| "handler_name (NatsStub subject) = ''nats-stub:'' @ subject"

text \<open>\<open>send\<close> may throw, after it has written: the text of the exception is the second component. (None of the
  handlers here does: stream output reports its failures in the stream.)\<close>

definition alert_line :: "alert \<Rightarrow> string" where
  "alert_line a = to_json a @ [CHR 0x0A]"

fun handler_send :: "handler \<Rightarrow> alert \<Rightarrow> io \<Rightarrow> io \<times> string option" where
  "handler_send (FileHandler path fd) a io = (write_file path fd (alert_line a) io, None)"
| "handler_send (StreamHandler to_stderr) a io =
     ((if to_stderr then write_err else write_out) (alert_line a) io, None)"
| "handler_send (NatsStub subject) a io =
     (write_err (''[nats-stub '' @ subject @ ''] '' @ alert_line a) io, None)"

section \<open>The chain\<close>

definition failure_note :: "string \<Rightarrow> string \<Rightarrow> string" where
  "failure_note handler e =
     ''[soc] handler '' @ [CHR 0x27] @ handler @ [CHR 0x27] @ '' failed: '' @ e @ [CHR 0x0A]"

definition chain_step ::
  "('h \<Rightarrow> alert \<Rightarrow> 'io \<Rightarrow> 'io \<times> string option) \<Rightarrow> ('h \<Rightarrow> string) \<Rightarrow> (string \<Rightarrow> 'io \<Rightarrow> 'io) \<Rightarrow>
     alert \<Rightarrow> 'h \<Rightarrow> 'io \<Rightarrow> 'io" where
  "chain_step send nm log a h io =
     (case send h a io of
        (io', None) \<Rightarrow> io'
      | (io', Some e) \<Rightarrow> log (failure_note (nm h) e) io')"

definition chain_send ::
  "('h \<Rightarrow> alert \<Rightarrow> 'io \<Rightarrow> 'io \<times> string option) \<Rightarrow> ('h \<Rightarrow> string) \<Rightarrow> (string \<Rightarrow> 'io \<Rightarrow> 'io) \<Rightarrow>
     'h list \<Rightarrow> alert \<Rightarrow> 'io \<Rightarrow> 'io" where
  "chain_send send nm log hs a io = fold (chain_step send nm log a) hs io"

abbreviation send_to_chain :: "handler list \<Rightarrow> alert \<Rightarrow> io \<Rightarrow> io" where
  "send_to_chain \<equiv> chain_send handler_send handler_name write_err"

section \<open>Factories and their registry\<close>

record handler_config =
  hc_name :: string
  hc_params :: "string \<Rightarrow> string option"

definition get :: "handler_config \<Rightarrow> string \<Rightarrow> string \<Rightarrow> string" where
  "get c key fallback = (case hc_params c key of None \<Rightarrow> fallback | Some v \<Rightarrow> v)"

text \<open>\<open>can_open\<close>: the paths the process can open for writing.\<close>

definition make_file_alert_handler :: "(string \<Rightarrow> bool) \<Rightarrow> handler_config \<Rightarrow> io \<Rightarrow> (handler \<times> io) res" where
  "make_file_alert_handler can_open c io =
     (let path = get c ''path'' ''output/alerts.json'' in
      if \<not> can_open path then Inl (RuntimeError (''FileAlertHandler: cannot open '' @ path))
      else case open_trunc path io of (fd, io') \<Rightarrow> Inr (FileHandler path fd, io'))"

definition make_stdout_alert_handler :: "handler_config \<Rightarrow> io \<Rightarrow> (handler \<times> io) res" where
  "make_stdout_alert_handler c io = Inr (StreamHandler (get c ''stream'' ''stderr'' = ''stderr''), io)"

definition make_nats_alert_handler :: "handler_config \<Rightarrow> io \<Rightarrow> (handler \<times> io) res" where
  "make_nats_alert_handler c io =
     (let subject = get c ''subject'' ''zt.alerts.raw'' in
      Inr (NatsStub subject,
           write_err (''[nats-stub] built without nats-c; alerts for '' @ subject @
             '' will log to stderr only'' @ [CHR 0x0A]) io))"

type_synonym factory = "handler_config \<Rightarrow> io \<Rightarrow> (handler \<times> io) res"

definition register_handler :: "string \<Rightarrow> factory \<Rightarrow> (string \<times> factory) list \<Rightarrow> (string \<times> factory) list" where
  "register_handler nm f reg = AList.update nm f reg"

definition alert_handlers :: "(string \<Rightarrow> bool) \<Rightarrow> (string \<times> factory) list" where
  "alert_handlers can_open =
     fold (\<lambda>(nm, f). register_handler nm f)
       [(''file'', make_file_alert_handler can_open), (''stdout'', make_stdout_alert_handler),
        (''stderr'', make_stdout_alert_handler), (''nats'', make_nats_alert_handler)] []"

definition create_handler :: "(string \<times> factory) list \<Rightarrow> handler_config \<Rightarrow> io \<Rightarrow> (handler \<times> io) res" where
  "create_handler reg c io =
     (case map_of reg (hc_name c) of
        None \<Rightarrow> Inl (RuntimeError (''Unknown alert handler: '' @ hc_name c))
      | Some f \<Rightarrow> f c io)"

definition has_handler :: "(string \<times> factory) list \<Rightarrow> string \<Rightarrow> bool" where
  "has_handler reg nm \<longleftrightarrow> map_of reg nm \<noteq> None"

definition available_handlers :: "(string \<times> factory) list \<Rightarrow> string list" where
  "available_handlers reg = map fst reg"

text \<open>The chain the engine builds from the entries of the configuration; a handler that cannot be made ends the program.\<close>

definition chain_entries :: "handler_config list \<Rightarrow> string \<Rightarrow> handler_config list" where
  "chain_entries entries alerts_file =
     (if entries = [] then [\<lparr>hc_name = ''file'', hc_params = [''path'' \<mapsto> alerts_file]\<rparr>] else entries)"

fun build_chain_from :: "(string \<Rightarrow> bool) \<Rightarrow> handler_config list \<Rightarrow> handler list \<Rightarrow> io \<Rightarrow> handler list res \<times> io" where
  "build_chain_from can_open [] hs io = (Inr hs, io)"
| "build_chain_from can_open (e # entries) hs io =
     (case create_handler (alert_handlers can_open) e io of
        Inl err \<Rightarrow> (Inl err, io)
      | Inr (h, io') \<Rightarrow> build_chain_from can_open entries (hs @ [h]) io')"

definition build_chain :: "(string \<Rightarrow> bool) \<Rightarrow> handler_config list \<Rightarrow> io \<Rightarrow> handler list res \<times> io" where
  "build_chain can_open entries io = build_chain_from can_open entries [] io"


section \<open>What reaches a file\<close>

fun file_of :: "handler \<Rightarrow> (string \<times> nat) option" where
  "file_of (FileHandler path fd) = Some (path, fd)"
| "file_of (StreamHandler e) = None"
| "file_of (NatsStub s) = None"

definition files_of :: "handler list \<Rightarrow> (string \<times> nat) list" where
  "files_of hs = List.map_filter file_of hs"

lemma files_of_simps [simp]:
  "files_of [] = []" "files_of (FileHandler p fd # hs) = (p, fd) # files_of hs"
  "files_of (StreamHandler b # hs) = files_of hs" "files_of (NatsStub s # hs) = files_of hs"
  by (simp_all add: files_of_def map_filter_simps)

lemma files_of_append [simp]: "files_of (hs @ hs') = files_of hs @ files_of hs'"
  by (induction hs) (simp_all add: files_of_def map_filter_simps split: option.splits)

lemma files_of_mem: "FileHandler p fd \<in> set hs \<longleftrightarrow> (p, fd) \<in> set (files_of hs)"
proof (induction hs)
  case (Cons h hs)
  then show ?case by (cases h) auto
qed simp

text \<open>
  While an alert with line \<open>l\<close> goes down the chain: \<open>F\<close> is what the files held before, \<open>ds\<close> are the
  file handlers that have written it, \<open>rs\<close> those that have not. Handlers that share a file write the
  same line at the same place.
\<close>

definition midway ::
  "string \<Rightarrow> (string \<Rightarrow> string) \<Rightarrow> (string \<Rightarrow> string option) \<Rightarrow> (string \<times> nat) list \<Rightarrow> (string \<times> nat) list \<Rightarrow> io \<Rightarrow> bool" where
  "midway l F G ds rs io \<longleftrightarrow>
     (\<forall>(p, fd) \<in> set ds. fd < length (io_offsets io) \<and> io_offsets io ! fd = length (F p) + length l) \<and>
     (\<forall>(p, fd) \<in> set rs. fd < length (io_offsets io) \<and> io_offsets io ! fd = length (F p)) \<and>
     distinct (map snd (ds @ rs)) \<and>
     io_files io = (\<lambda>p. if p \<in> fst ` set ds then Some (F p @ l) else if p \<in> fst ` set rs then Some (F p) else G p)"

lemma overwrite_here:
  "overwrite t (length t) l = t @ l" "overwrite (t @ l) (length t) l = t @ l"
  by (simp_all add: overwrite_def)

lemma offsets_write:
  assumes "\<forall>(q, fd') \<in> set ds. fd' < length os \<and> os ! fd' = g q" and "fd \<notin> set (map snd ds)"
  shows "\<forall>(q, fd') \<in> set ds. fd' < length (os[fd := n]) \<and> os[fd := n] ! fd' = g q"
proof clarify
  fix q fd'
  assume d: "(q, fd') \<in> set ds"
  then have "fd' \<noteq> fd" using assms(2) by (auto intro: rev_image_eqI)
  then show "fd' < length (os[fd := n]) \<and> os[fd := n] ! fd' = g q" using assms(1) d by auto
qed

lemma midway_write:
  assumes m: "midway l F G ds ((p, fd) # rs) io"
  shows "midway l F G (ds @ [(p, fd)]) rs (write_file p fd l io)"
proof -
  have fd: "fd < length (io_offsets io)" "io_offsets io ! fd = length (F p)"
    using m by (auto simp: midway_def)
  have "fd \<notin> set (map snd ds)" "fd \<notin> set (map snd rs)"
    using m unfolding midway_def by simp_all
  note kept = this [THEN offsets_write [rotated]]
  have "io_files io p = Some (F p @ l) \<or> io_files io p = Some (F p)"
    using m by (auto simp: midway_def)
  then have "overwrite (case io_files io p of None \<Rightarrow> '''' | Some t \<Rightarrow> t) (io_offsets io ! fd) l = F p @ l"
    by (elim disjE) (simp_all add: fd(2) overwrite_here)
  then have f: "io_files (write_file p fd l io) = (io_files io)(p \<mapsto> F p @ l)"
    and o: "io_offsets (write_file p fd l io) = (io_offsets io)[fd := length (F p) + length l]"
    by (simp_all add: write_file_def fd(2))
  show ?thesis
    unfolding midway_def f o
  proof (intro conjI)
    show "\<forall>(q, fd') \<in> set (ds @ [(p, fd)]). fd' < length ((io_offsets io)[fd := length (F p) + length l]) \<and>
        (io_offsets io)[fd := length (F p) + length l] ! fd' = length (F q) + length l"
      using kept(1) [where g = "\<lambda>q. length (F q) + length l"] m fd(1) by (simp add: midway_def)
    show "\<forall>(q, fd') \<in> set rs. fd' < length ((io_offsets io)[fd := length (F p) + length l]) \<and>
        (io_offsets io)[fd := length (F p) + length l] ! fd' = length (F q)"
      using kept(2) [where g = "\<lambda>q. length (F q)"] m by (simp add: midway_def)
    show "distinct (map snd ((ds @ [(p, fd)]) @ rs))" using m by (simp add: midway_def)
    show "(io_files io)(p \<mapsto> F p @ l) = (\<lambda>q. if q \<in> fst ` set (ds @ [(p, fd)]) then Some (F q @ l)
        else if q \<in> fst ` set rs then Some (F q) else G q)"
      using m by (auto simp: midway_def)
  qed
qed

lemma midway_stream [simp]:
  "midway l F G ds rs (write_err s io) = midway l F G ds rs io"
  "midway l F G ds rs (write_out s io) = midway l F G ds rs io"
  by (simp_all add: midway_def write_err_def write_out_def)

lemma chain_send_Cons:
  "send_to_chain (h # hs) a io = send_to_chain hs a (fst (handler_send h a io))"
  by (cases h) (simp_all add: chain_send_def chain_step_def)

lemma midway_chain:
  "midway (alert_line a) F G ds (files_of hs) io \<Longrightarrow>
   midway (alert_line a) F G (ds @ files_of hs) [] (send_to_chain hs a io)"
proof (induction hs arbitrary: ds io)
  case Nil
  then show ?case by (simp add: chain_send_def)
next
  case (Cons h hs)
  show ?case
  proof (cases h)
    case (FileHandler p fd)
    with Cons.prems have "midway (alert_line a) F G (ds @ [(p, fd)]) (files_of hs) (write_file p fd (alert_line a) io)"
      by (simp add: midway_write)
    from Cons.IH [OF this] FileHandler show ?thesis by (simp add: chain_send_Cons)
  next
    case (StreamHandler b)
    with Cons.prems Cons.IH [of ds "(if b then write_err else write_out) (alert_line a) io"] show ?thesis
      by (simp add: chain_send_Cons split: if_splits)
  next
    case (NatsStub s)
    with Cons.prems Cons.IH [of ds "fst (handler_send h a io)"] show ?thesis by (simp add: chain_send_Cons)
  qed
qed

text \<open>Between two alerts: every file handler of the chain stands at the end of its file.\<close>

definition in_step :: "(string \<times> nat) list \<Rightarrow> (string \<Rightarrow> string) \<Rightarrow> (string \<Rightarrow> string option) \<Rightarrow> io \<Rightarrow> bool" where
  "in_step fs F G io \<longleftrightarrow> midway '''' F G [] fs io"

lemma in_step_send:
  assumes "in_step (files_of hs) F G io"
  shows "in_step (files_of hs) (\<lambda>p. F p @ alert_line a) G (send_to_chain hs a io)"
proof -
  have "midway (alert_line a) F G [] (files_of hs) io" using assms by (simp add: in_step_def midway_def)
  from midway_chain [OF this] show ?thesis by (simp add: in_step_def midway_def fun_eq_iff)
qed

lemma in_step_send_all:
  "in_step (files_of hs) F G io \<Longrightarrow>
   in_step (files_of hs) (\<lambda>p. F p @ concat (map alert_line alerts)) G (fold (send_to_chain hs) alerts io)"
proof (induction alerts arbitrary: F io)
  case (Cons a alerts)
  from Cons.IH [OF in_step_send [OF Cons.prems, of a]] show ?case by simp
qed simp

lemma in_step_open:
  assumes "in_step fs (\<lambda>_. '''') G io"
  shows "in_step (fs @ [(p, length (io_offsets io))]) (\<lambda>_. '''') G (snd (open_trunc p io))"
  using assms unfolding in_step_def midway_def
  by (auto simp: open_trunc_def nth_append fun_eq_iff)

lemma alert_handlers_lookup:
  "map_of (alert_handlers can_open) nm =
     (if nm = ''nats'' then Some make_nats_alert_handler
      else if nm = ''stderr'' then Some make_stdout_alert_handler
      else if nm = ''stdout'' then Some make_stdout_alert_handler
      else if nm = ''file'' then Some (make_file_alert_handler can_open) else None)"
  by (simp add: alert_handlers_def register_handler_def AList.update_conv')

lemma handlers_available:
  "set (available_handlers (alert_handlers can_open)) = {''file'', ''stdout'', ''stderr'', ''nats''}"
  "distinct (available_handlers (alert_handlers can_open))"
  "has_handler (alert_handlers can_open) nm \<longleftrightarrow> nm \<in> set (available_handlers (alert_handlers can_open))"
  "has_handler (alert_handlers can_open) (hc_name c) \<longleftrightarrow>
    create_handler (alert_handlers can_open) c io \<noteq> Inl (RuntimeError (''Unknown alert handler: '' @ hc_name c))"
proof -
  show "set (available_handlers (alert_handlers can_open)) = {''file'', ''stdout'', ''stderr'', ''nats''}"
    by (auto simp: available_handlers_def alert_handlers_def register_handler_def)
  show "distinct (available_handlers (alert_handlers can_open))"
    by (simp add: available_handlers_def alert_handlers_def register_handler_def)
  show "has_handler (alert_handlers can_open) nm \<longleftrightarrow> nm \<in> set (available_handlers (alert_handlers can_open))"
    by (auto simp: available_handlers_def has_handler_def map_of_eq_None_iff)
  show "has_handler (alert_handlers can_open) (hc_name c) \<longleftrightarrow>
    create_handler (alert_handlers can_open) c io \<noteq> Inl (RuntimeError (''Unknown alert handler: '' @ hc_name c))"
    by (auto simp: has_handler_def create_handler_def alert_handlers_lookup make_file_alert_handler_def
        make_stdout_alert_handler_def make_nats_alert_handler_def Let_def split: prod.splits)
qed

lemma create_handler_cases:
  assumes "create_handler (alert_handlers can_open) e io = Inr (h, io')"
  obtains (on_path) p where "h = FileHandler p (length (io_offsets io))" "io' = snd (open_trunc p io)"
  | (stream) b where "h = StreamHandler b" "io' = io"
  | (nats) subject s where "h = NatsStub subject" "io' = write_err s io"
proof -
  obtain f where f: "map_of (alert_handlers can_open) (hc_name e) = Some f" "f e io = Inr (h, io')"
    using assms by (auto simp: create_handler_def split: option.splits)
  from f(1) consider "f = make_file_alert_handler can_open" | "f = make_stdout_alert_handler"
    | "f = make_nats_alert_handler"
    unfolding alert_handlers_lookup by (auto split: if_splits)
  then show thesis
  proof cases
    case 1
    with f(2) show ?thesis
      by (intro on_path [of "get e ''path'' ''output/alerts.json''"])
        (auto simp: make_file_alert_handler_def Let_def open_trunc_def split: if_splits)
  next
    case 2
    with f(2) show ?thesis
      by (intro stream [of "get e ''stream'' ''stderr'' = ''stderr''"]) (simp_all add: make_stdout_alert_handler_def)
  next
    case 3
    with f(2) show ?thesis by (intro nats) (auto simp: make_nats_alert_handler_def Let_def)
  qed
qed

lemma create_in_step:
  assumes "create_handler (alert_handlers can_open) e io = Inr (h, io')" and "in_step (files_of hs) (\<lambda>_. '''') G io"
  shows "in_step (files_of (hs @ [h])) (\<lambda>_. '''') G io'"
  using assms(1)
proof (cases rule: create_handler_cases)
  case (on_path p)
  then show ?thesis using in_step_open [OF assms(2)] by simp
qed (use assms(2) in \<open>simp_all add: in_step_def\<close>)

lemma build_chain_in_step:
  assumes "build_chain can_open entries io = (Inr hs, io')"
  shows "in_step (files_of hs) (\<lambda>_. '''') (io_files io) io'"
proof -
  have "build_chain_from can_open entries hs0 io0 = (Inr hs, io') \<Longrightarrow>
      in_step (files_of hs0) (\<lambda>_. '''') G io0 \<Longrightarrow> in_step (files_of hs) (\<lambda>_. '''') G io'" for hs0 io0 G
    by (induction entries arbitrary: hs0 io0) (auto split: sum.splits intro: create_in_step)
  then show ?thesis using assms by (simp add: build_chain_def in_step_def midway_def)
qed


lemma getlines_lines:
  assumes "\<forall>s \<in> set ss. CHR 0x0A \<notin> set s"
  shows "getlines CHR 0x0A (concat (map (\<lambda>s. s @ [CHR 0x0A]) ss)) = ss"
  using assms by (induction ss) (simp_all add: getlines_part)

lemma files_hold_lines:
  assumes "build_chain can_open entries io0 = (Inr hs, io)" and "FileHandler path fd \<in> set hs"
    and "\<forall>a \<in> set alerts. printable (al_details a)"
  shows "\<exists>t. io_files (fold (send_to_chain hs) alerts io) path = Some t \<and> getlines CHR 0x0A t = map to_json alerts"
proof -
  have "in_step (files_of hs) (\<lambda>p. concat (map alert_line alerts)) (io_files io0)
      (fold (send_to_chain hs) alerts io)"
    using in_step_send_all [OF build_chain_in_step [OF assms(1)], of alerts] by simp
  moreover have "path \<in> fst ` set (files_of hs)" using assms(2) by (force simp: files_of_mem)
  ultimately have "io_files (fold (send_to_chain hs) alerts io) path = Some (concat (map alert_line alerts))"
    by (simp add: in_step_def midway_def)
  moreover have "concat (map alert_line alerts) = concat (map (\<lambda>s. s @ [CHR 0x0A]) (map to_json alerts))"
    by (simp add: alert_line_def [abs_def] comp_def)
  moreover have "getlines CHR 0x0A (concat (map (\<lambda>s. s @ [CHR 0x0A]) (map to_json alerts))) = map to_json alerts"
    using assms(3) by (intro getlines_lines) (auto dest: printable_no_newline [OF printable_to_json])
  ultimately show ?thesis by metis
qed


section \<open>Properties\<close>

text \<open>C37: One failing handler does not keep an alert from the others: a handler of the chain whose own
  \<open>send\<close> succeeds has received the alert after \<open>chain.send\<close>, once, whichever of the other handlers threw
  and whatever they wrote, as long as they and the log keep to their own sinks (\<open>view\<close> is this handler's).\<close>

theorem chain_isolates_failures:
  assumes "h \<in> set hs" and "distinct hs"
    and "\<And>io. view (fst (send h a io)) = view io @ [a]"
    and "\<And>h' io. h' \<in> set hs \<Longrightarrow> h' \<noteq> h \<Longrightarrow> view (fst (send h' a io)) = view io"
    and "\<And>s io. view (log s io) = view io"
  shows "view (chain_send send nm log hs a io) = view io @ [a]"
proof -
  have step: "view (chain_step send nm log a h' io) = view (fst (send h' a io))" for h' io
    by (cases "send h' a io") (simp add: chain_step_def assms(5) split: option.split)
  have others: "view (fold (chain_step send nm log a) gs io) = view io" if "set gs \<subseteq> set hs" "h \<notin> set gs" for gs io
    using that by (induction gs arbitrary: io) (auto simp: step assms(4))
  from assms(1) obtain xs ys where hs: "hs = xs @ h # ys" by (auto simp: in_set_conv_decomp)
  moreover from this assms(2) have "set xs \<subseteq> set hs" "h \<notin> set xs" "set ys \<subseteq> set hs" "h \<notin> set ys" by auto
  ultimately show ?thesis by (simp add: chain_send_def step others assms(3))
qed

text \<open>The file of every file handler of the chain built from a configuration holds, at the end, exactly one line
  per alert sent, in order, and reading the file line by line gives the alerts' JSON texts back, however
  many other handlers there are, also ones that opened the same file. No other file is touched.\<close>

theorem files_hold_the_alerts:
  assumes "build_chain can_open entries io0 = (Inr hs, io)" and "FileHandler path fd \<in> set hs"
    and "\<forall>a \<in> set alerts. printable (al_details a)"
  shows "\<exists>t. io_files (fold (send_to_chain hs) alerts io) path = Some t \<and> getlines CHR 0x0A t = map to_json alerts"
  by (rule files_hold_lines [OF assms])

text \<open>A handler that fails after it has written half a line, before one that works.\<close>

fun demo_send :: "bool \<Rightarrow> alert \<Rightarrow> alert list \<times> string \<Rightarrow> (alert list \<times> string) \<times> string option" where
  "demo_send True a (got, other) = ((got @ [a], other), None)"
| "demo_send False a (got, other) = ((got, other @ ''partial''), Some ''disk full'')"

theorem chain_isolates_failures_witness:
  "fst (chain_send demo_send (\<lambda>_. ''demo'') (\<lambda>s (got, other). (got, other @ s)) [False, True] demo_alert ([], '''')) =
     [] @ [demo_alert]"
proof -
  have "fst (fst (demo_send True demo_alert io)) = fst io @ [demo_alert]" for io by (cases io) simp
  moreover have "fst (fst (demo_send h' demo_alert io)) = fst io" if "h' \<noteq> True" for h' io
    using that by (cases h'; cases io) simp_all
  ultimately show ?thesis
    using chain_isolates_failures [of True "[False, True]" fst demo_send demo_alert "\<lambda>s (got, other). (got, other @ s)"
        "\<lambda>_. ''demo''" "([], '''')"]
    by (force split: prod.split)
qed

theorem files_hold_the_alerts_witness:
  "let entries = [\<lparr>hc_name = ''file'', hc_params = [''path'' \<mapsto> ''a'']\<rparr>,
       \<lparr>hc_name = ''file'', hc_params = [''path'' \<mapsto> ''a'']\<rparr>];
       io0 = \<lparr>io_files = [''a'' \<mapsto> ''old''], io_offsets = [], io_out = '''', io_err = ''''\<rparr>
   in \<exists>hs io t. build_chain (\<lambda>_. True) entries io0 = (Inr hs, io) \<and> length hs = 2 \<and>
        io_files (fold (send_to_chain hs) [demo_alert, demo_alert] io) ''a'' = Some t \<and>
        getlines CHR 0x0A t = map to_json [demo_alert, demo_alert]"
proof -
  let ?entries = "[\<lparr>hc_name = ''file'', hc_params = [''path'' \<mapsto> ''a'']\<rparr>,
       \<lparr>hc_name = ''file'', hc_params = [''path'' \<mapsto> ''a'']\<rparr>]"
  let ?start = "\<lparr>io_files = [''a'' \<mapsto> ''old''], io_offsets = [], io_out = '''', io_err = ''''\<rparr>"
  let ?hs = "[FileHandler ''a'' 0, FileHandler ''a'' 1]"
  let ?io = "snd (open_trunc ''a'' (snd (open_trunc ''a'' ?start)))"
  have b: "build_chain (\<lambda>_. True) ?entries ?start = (Inr ?hs, ?io)"
    by (simp add: build_chain_def create_handler_def alert_handlers_lookup make_file_alert_handler_def get_def
        open_trunc_def Let_def)
  have p:
   "\<forall>a \<in> set [demo_alert, demo_alert]. printable (al_details a)"
    by (simp add: demo_alert_def)
  have m: "FileHandler ''a'' 0 \<in> set ?hs" by simp
  from files_hold_the_alerts [OF b m p] b show ?thesis unfolding Let_def by force
qed

text \<open>The handler named \<open>stdout\<close> writes to standard error unless its \<open>stream\<close> parameter says otherwise; the
  handler \<open>stderr\<close> writes to standard output when \<open>stream\<close> is \<open>stdout\<close>; a name that is not registered raises
  an error that names it, and so does a file that cannot be opened.\<close>

theorem handler_registry_results:
  "create_handler (alert_handlers can_open) \<lparr>hc_name = ''stdout'', hc_params = (\<lambda>_. None)\<rparr> io =
     Inr (StreamHandler True, io) \<and>
   create_handler (alert_handlers can_open) \<lparr>hc_name = ''stderr'', hc_params = [''stream'' \<mapsto> ''stdout'']\<rparr> io =
     Inr (StreamHandler False, io) \<and>
   (\<forall>c e. create_handler (alert_handlers can_open) c io = Inl e \<longleftrightarrow>
     (hc_name c \<notin> {''file'', ''stdout'', ''stderr'', ''nats''} \<and> e = RuntimeError (''Unknown alert handler: '' @ hc_name c)) \<or>
     (hc_name c = ''file'' \<and> \<not> can_open (get c ''path'' ''output/alerts.json'') \<and>
        e = RuntimeError (''FileAlertHandler: cannot open '' @ get c ''path'' ''output/alerts.json'')))"
proof -
  have "create_handler (alert_handlers can_open) c io = Inl e \<longleftrightarrow>
     (hc_name c \<notin> {''file'', ''stdout'', ''stderr'', ''nats''} \<and> e = RuntimeError (''Unknown alert handler: '' @ hc_name c)) \<or>
     (hc_name c = ''file'' \<and> \<not> can_open (get c ''path'' ''output/alerts.json'') \<and>
        e = RuntimeError (''FileAlertHandler: cannot open '' @ get c ''path'' ''output/alerts.json''))" for c e
    unfolding create_handler_def alert_handlers_lookup
    by (cases "hc_name c = ''nats''"; cases "hc_name c = ''stderr''"; cases "hc_name c = ''stdout''";
        cases "hc_name c = ''file''")
      (simp_all add: make_nats_alert_handler_def make_stdout_alert_handler_def make_file_alert_handler_def Let_def open_trunc_def
        eq_commute [of _ e])
  then show ?thesis
    by (simp add: create_handler_def alert_handlers_lookup make_stdout_alert_handler_def get_def)
qed

end
