(* ===== verification/LPMTrie.thy ===== *)
theory LPMTrie
  imports Prelude
begin

text \<open>
  \<open>dsa::trie::LPMTrie\<close> (\<open>libdsa/include/dsa/trie/lpm_trie.h\<close>,
  \<open>libdsa/src/trie/lpm_trie.cpp\<close>): longest prefix match over IPv4 addresses by a binary trie.
  A \<open>unique_ptr<Node>\<close> is \<open>Null\<close> or a \<open>Node\<close> with its two children, its label and the flag
  \<open>has_prefix\<close>. A loop that walks down from the root is a recursion on the number of bits left.

  The abstract state is the map \<open>entries\<close> from bit strings to labels; \<open>insert\<close> and \<open>remove\<close>
  are its update and deletion, and \<open>lookup\<close> is its longest match. The locale
  \<open>ip_classifier\<close> states this contract and derives what a client sees.
\<close>

section \<open>State and operations\<close>

datatype node =
    Null
  | Node (child0: node) (child1: node) (label: int) (has_prefix: bool)

definition new_node :: node where
  "new_node = Node Null Null (-1) False"

record lpm =
  lpm_root :: node
  lpm_count :: nat
  lpm_node_count :: nat

definition lpm_new :: lpm where
  "lpm_new = \<lparr>lpm_root = new_node, lpm_count = 0, lpm_node_count = 1\<rparr>"

text \<open>
  \<open>get_bit\<close>: bit \<open>pos\<close> counted from the most significant one. A position above 31 would shift
  by a negative count, which is undefined behaviour.
\<close>

definition get_bit :: "u32 \<Rightarrow> nat \<Rightarrow> bool res" where
  "get_bit val pos = (if pos \<le> 31 then Inr (bit val (31 - pos)) else Inl Undefined)"

text \<open>\<open>if (!node->children[bit])\<close> make a node: the child and the number of nodes made.\<close>

fun ensure_node :: "node \<Rightarrow> node \<times> nat" where
  "ensure_node Null = (new_node, 1)"
| "ensure_node c = (c, 0)"

text \<open>
  \<open>insert\<close> below a node, \<open>n\<close> bits before the end of the prefix: the new subtree, the number of
  nodes made and the number of prefixes added.
\<close>

fun insert_node :: "u32 \<Rightarrow> int \<Rightarrow> nat \<Rightarrow> nat \<Rightarrow> node \<Rightarrow> (node \<times> nat \<times> nat) res" where
  "insert_node prefix lab i n Null = Inl Undefined"
| "insert_node prefix lab i 0 (Node l r lb hp) =
     Inr (Node l r lab True, 0, if hp then 0 else 1)"
| "insert_node prefix lab i (Suc n) (Node l r lb hp) =
     bind_res (get_bit prefix i) (\<lambda>b.
       let (c, fresh) = ensure_node (if b then r else l)
       in bind_res (insert_node prefix lab (i + 1) n c) (\<lambda>(c', made, added).
            Inr (if b then Node l c' lb hp else Node c' r lb hp, made + fresh, added)))"

definition lpm_insert :: "lpm \<Rightarrow> u32 \<Rightarrow> u8 \<Rightarrow> int \<Rightarrow> lpm res" where
  "lpm_insert t prefix prefix_len lab =
     bind_res (insert_node prefix lab 0 (unat prefix_len) (lpm_root t)) (\<lambda>(root, made, added).
       Inr \<lparr>lpm_root = root, lpm_count = lpm_count t + added,
            lpm_node_count = lpm_node_count t + made\<rparr>)"

fun remove_node :: "u32 \<Rightarrow> nat \<Rightarrow> nat \<Rightarrow> node \<Rightarrow> (node \<times> bool) res" where
  "remove_node prefix i n Null = Inr (Null, False)"
| "remove_node prefix i 0 (Node l r lb hp) =
     (if hp then Inr (Node l r (-1) False, True) else Inr (Node l r lb hp, False))"
| "remove_node prefix i (Suc n) (Node l r lb hp) =
     bind_res (get_bit prefix i) (\<lambda>b.
       bind_res (remove_node prefix (i + 1) n (if b then r else l)) (\<lambda>(c, removed).
         Inr (if b then Node l c lb hp else Node c r lb hp, removed)))"

definition lpm_remove :: "lpm \<Rightarrow> u32 \<Rightarrow> u8 \<Rightarrow> (lpm \<times> bool) res" where
  "lpm_remove t prefix prefix_len =
     bind_res (remove_node prefix 0 (unat prefix_len) (lpm_root t)) (\<lambda>(root, removed).
       Inr (t\<lparr>lpm_root := root, lpm_count := (if removed then lpm_count t - 1 else lpm_count t)\<rparr>,
            removed))"

text \<open>The loop of \<open>lookup\<close> from a node whose own prefix was looked at, \<open>n\<close> bits to go.\<close>

fun lookup_node :: "u32 \<Rightarrow> nat \<Rightarrow> nat \<Rightarrow> node \<Rightarrow> int \<Rightarrow> int" where
  "lookup_node ip i 0 t best = best"
| "lookup_node ip i (Suc n) t best =
     (case (if bit ip (31 - i) then child1 t else child0 t) of
        Null \<Rightarrow> best
      | Node l r lb hp \<Rightarrow>
          lookup_node ip (i + 1) n (Node l r lb hp) (if hp then lb else best))"

definition lpm_lookup :: "lpm \<Rightarrow> u32 \<Rightarrow> int" where
  "lpm_lookup t ip =
     lookup_node ip 0 32 (lpm_root t) (if has_prefix (lpm_root t) then label (lpm_root t) else -1)"

definition lpm_size :: "lpm \<Rightarrow> nat" where
  "lpm_size t = lpm_count t"

text \<open>\<open>node_size\<close> is \<open>sizeof(Node)\<close>.\<close>

definition lpm_memory_usage :: "nat \<Rightarrow> lpm \<Rightarrow> nat" where
  "lpm_memory_usage node_size t = lpm_node_count t * node_size"

section \<open>The abstract map\<close>

text \<open>The first \<open>n\<close> bits from position \<open>i\<close>, most significant first.\<close>

fun bits_from :: "u32 \<Rightarrow> nat \<Rightarrow> nat \<Rightarrow> bool list" where
  "bits_from w i 0 = []"
| "bits_from w i (Suc n) = bit w (31 - i) # bits_from w (i + 1) n"

abbreviation prefix_bits :: "nat \<Rightarrow> u32 \<Rightarrow> bool list" where
  "prefix_bits n w \<equiv> bits_from w 0 n"

fun entries :: "node \<Rightarrow> bool list \<Rightarrow> int option" where
  "entries Null bs = None"
| "entries (Node l r lb hp) [] = (if hp then Some lb else None)"
| "entries (Node l r lb hp) (b # bs) = entries (if b then r else l) bs"

fun count_prefixes :: "node \<Rightarrow> nat" where
  "count_prefixes Null = 0"
| "count_prefixes (Node l r lb hp) =
     count_prefixes l + count_prefixes r + (if hp then 1 else 0)"

fun count_nodes :: "node \<Rightarrow> nat" where
  "count_nodes Null = 0"
| "count_nodes (Node l r lb hp) = count_nodes l + count_nodes r + 1"

lemma length_bits_from [simp]: "length (bits_from w i n) = n"
  by (induction n arbitrary: i) auto

lemma bits_from_nth: "j < n \<Longrightarrow> bits_from w i n ! j = bit w (31 - (i + j))"
proof (induction n arbitrary: i j)
  case (Suc n)
  then show ?case by (cases j) auto
qed simp

lemma entries_new_node [simp]: "entries new_node = Map.empty"
proof
  fix bs show "entries new_node bs = None"
    by (cases bs) (auto simp: new_node_def)
qed

lemma entries_Node:
  "entries (Node l r lb hp) bs =
     (case bs of [] \<Rightarrow> if hp then Some lb else None | b # bs' \<Rightarrow> entries (if b then r else l) bs')"
  by (cases bs) auto

lemma get_bit_ok: "i \<le> 31 \<Longrightarrow> get_bit w i = Inr (bit w (31 - i))"
  by (simp add: get_bit_def)

section \<open>The loops on the abstract map\<close>

lemma ensure_node_ok:
  assumes "ensure_node t = (c, fresh)"
  shows "c \<noteq> Null" and "entries c = entries t" and "count_prefixes c = count_prefixes t"
    and "count_nodes c = count_nodes t + fresh"
  using assms by (cases t; auto simp: new_node_def entries_Node fun_eq_iff split: list.split)+

lemma insert_node_ok:
  assumes "t \<noteq> Null" and "i + n \<le> 32"
  shows "\<exists>t' made added. insert_node p lab i n t = Inr (t', made, added) \<and> t' \<noteq> Null \<and>
     entries t' = (entries t)(bits_from p i n \<mapsto> lab) \<and>
     count_nodes t' = count_nodes t + made \<and> count_prefixes t' = count_prefixes t + added"
  using assms
proof (induction n arbitrary: i t)
  case 0
  then obtain l r lb hp where t: "t = Node l r lb hp" by (cases t) auto
  show ?case by (auto simp: t entries_Node fun_eq_iff split: list.split)
next
  case (Suc n)
  then obtain l r lb hp where t: "t = Node l r lb hp" by (cases t) auto
  define b where "b = bit p (31 - i)"
  obtain c fresh where c: "ensure_node (if b then r else l) = (c, fresh)" by fastforce
  note e = ensure_node_ok [OF c]
  have "i + 1 + n \<le> 32" using Suc.prems by simp
  from Suc.IH [OF e(1) this] obtain c' made added where
    IH: "insert_node p lab (i + 1) n c = Inr (c', made, added)" "c' \<noteq> Null"
      "entries c' = (entries c)(bits_from p (i + 1) n \<mapsto> lab)"
      "count_nodes c' = count_nodes c + made" "count_prefixes c' = count_prefixes c + added"
    by blast
  let ?t' = "if b then Node l c' lb hp else Node c' r lb hp"
  have "insert_node p lab i (Suc n) t = Inr (?t', made + fresh, added)"
    using Suc.prems IH(1) c by (simp add: t get_bit_ok Let_def flip: b_def)
  moreover have "entries ?t' = (entries t)(bits_from p i (Suc n) \<mapsto> lab)"
    using IH(3) by (auto simp: t entries_Node fun_eq_iff e(2) b_def split: list.split)
  moreover have "count_nodes ?t' = count_nodes t + (made + fresh)"
    "count_prefixes ?t' = count_prefixes t + added"
    using IH(4,5) e(3,4) by (auto simp: t)
  ultimately show ?case by auto
qed

lemma remove_node_ok:
  assumes "i + n \<le> 32"
  shows "\<exists>t' removed. remove_node p i n t = Inr (t', removed) \<and> (t' = Null \<longleftrightarrow> t = Null) \<and>
     removed = (entries t (bits_from p i n) \<noteq> None) \<and>
     entries t' = (entries t)(bits_from p i n := None) \<and> count_nodes t' = count_nodes t \<and>
     count_prefixes t = count_prefixes t' + (if removed then 1 else 0)"
  using assms
proof (induction n arbitrary: i t)
  case 0
  then show ?case
    by (cases t) (auto simp: entries_Node fun_eq_iff split: list.split)
next
  case (Suc n)
  show ?case
  proof (cases t)
    case Null
    then show ?thesis by (intro exI [of _ Null] exI [of _ False]) (simp add: fun_eq_iff)
  next
    case (Node l r lb hp)
    define b where "b = bit p (31 - i)"
    have "i + 1 + n \<le> 32" using Suc.prems by simp
    from Suc.IH [OF this, of "if b then r else l"] obtain c removed where
      IH: "remove_node p (i + 1) n (if b then r else l) = Inr (c, removed)"
        "removed = (entries (if b then r else l) (bits_from p (i + 1) n) \<noteq> None)"
        "entries c = (entries (if b then r else l))(bits_from p (i + 1) n := None)"
        "count_nodes c = count_nodes (if b then r else l)"
        "count_prefixes (if b then r else l) = count_prefixes c + (if removed then 1 else 0)"
      by blast
    have "remove_node p i (Suc n) t =
        Inr (if b then Node l c lb hp else Node c r lb hp, removed)"
      using Suc.prems IH(1) by (simp add: Node get_bit_ok flip: b_def)
    moreover have "entries (if b then Node l c lb hp else Node c r lb hp) =
        (entries t)(bits_from p i (Suc n) := None)"
      using IH(3) by (auto simp: Node entries_Node fun_eq_iff b_def split: list.split)
    moreover have "removed = (entries t (bits_from p i (Suc n)) \<noteq> None)"
      using IH(2) by (simp add: Node b_def)
    ultimately show ?thesis
      using IH(4,5) by (auto simp: Node)
  qed
qed

section \<open>The longest match\<close>

text \<open>The value at the largest index up to \<open>n\<close> where there is one.\<close>

fun last_some :: "(nat \<Rightarrow> 'a option) \<Rightarrow> nat \<Rightarrow> 'a option" where
  "last_some f 0 = f 0"
| "last_some f (Suc n) = (case f (Suc n) of Some x \<Rightarrow> Some x | None \<Rightarrow> last_some f n)"

definition longest_match :: "(bool list \<Rightarrow> int option) \<Rightarrow> u32 \<Rightarrow> int" where
  "longest_match m ip =
     (case last_some (\<lambda>n. m (prefix_bits n ip)) 32 of Some l \<Rightarrow> l | None \<Rightarrow> -1)"

lemma last_some_shift:
  "last_some f (Suc n) = (case last_some (\<lambda>j. f (Suc j)) n of Some x \<Rightarrow> Some x | None \<Rightarrow> f 0)"
  by (induction n) (auto split: option.split)

lemma last_some_None: "last_some f n = None \<longleftrightarrow> (\<forall>j \<le> n. f j = None)"
  by (induction n) (auto simp: le_Suc_eq split: option.split)

lemma last_some_Some:
  "last_some f n = Some x \<longleftrightarrow> (\<exists>j \<le> n. f j = Some x \<and> (\<forall>i. j < i \<and> i \<le> n \<longrightarrow> f i = None))"
proof (induction n)
  case (Suc n)
  show ?case
  proof (cases "f (Suc n)")
    case None
    with Suc show ?thesis by (auto simp: le_Suc_eq)
  next
    case (Some y)
    then show ?thesis by (auto simp: le_Suc_eq)
  qed
qed auto

lemma last_some_eqI:
  "j \<le> n \<Longrightarrow> f j = Some x \<Longrightarrow> (\<And>i. j < i \<Longrightarrow> i \<le> n \<Longrightarrow> f i = None) \<Longrightarrow> last_some f n = Some x"
  by (auto simp: last_some_Some)

lemma lookup_node_eq:
  assumes "t \<noteq> Null"
  shows "lookup_node ip i n t (case entries t [] of Some l \<Rightarrow> l | None \<Rightarrow> d) =
     (case last_some (\<lambda>j. entries t (bits_from ip i j)) n of Some l \<Rightarrow> l | None \<Rightarrow> d)"
  using assms
proof (induction n arbitrary: i t d)
  case (Suc n)
  then obtain l r lb hp where t: "t = Node l r lb hp" by (cases t) auto
  define c where "c = (if bit ip (31 - i) then r else l)"
  have f: "(\<lambda>j. entries t (bits_from ip i (Suc j))) = (\<lambda>j. entries c (bits_from ip (i + 1) j))"
    by (simp add: t c_def)
  have shift: "last_some (\<lambda>j. entries t (bits_from ip i j)) (Suc n) =
      (case last_some (\<lambda>j. entries c (bits_from ip (i + 1) j)) n of
         Some x \<Rightarrow> Some x | None \<Rightarrow> entries t [])"
    by (simp only: last_some_shift f bits_from.simps(1))
  have step: "lookup_node ip i (Suc n) t best = (case c of Null \<Rightarrow> best
      | Node l r lb hp \<Rightarrow> lookup_node ip (i + 1) n (Node l r lb hp) (if hp then lb else best))" for best
    by (simp only: t c_def lookup_node.simps node.sel)
  let ?best = "case entries t [] of Some l \<Rightarrow> l | None \<Rightarrow> d"
  show ?case
  proof (cases c)
    case Null
    then have "last_some (\<lambda>j. entries c (bits_from ip (i + 1) j)) n = None"
      by (simp add: last_some_None)
    moreover have "lookup_node ip i (Suc n) t ?best = ?best"
      using Null by (simp only: step node.case)
    ultimately show ?thesis
      unfolding shift by (simp only: option.case)
  next
    case (Node l' r' lb' hp')
    then have "lookup_node ip i (Suc n) t ?best =
        lookup_node ip (i + 1) n c (case entries c [] of Some l \<Rightarrow> l | None \<Rightarrow> ?best)"
      by (simp add: step del: lookup_node.simps(2))
    also have "\<dots> = (case last_some (\<lambda>j. entries c (bits_from ip (i + 1) j)) n of
        Some l \<Rightarrow> l | None \<Rightarrow> ?best)"
      using Node by (intro Suc.IH) simp
    finally show ?thesis
      unfolding shift by (simp split: option.split)
  qed
qed simp

section \<open>The invariant of the class\<close>

definition lpm_ok :: "lpm \<Rightarrow> bool" where
  "lpm_ok t \<longleftrightarrow> lpm_root t \<noteq> Null \<and> lpm_count t = count_prefixes (lpm_root t) \<and>
     lpm_node_count t = count_nodes (lpm_root t)"

definition lpm_abs :: "lpm \<Rightarrow> bool list \<Rightarrow> int option" where
  "lpm_abs t = entries (lpm_root t)"

lemma lpm_new_ok: "lpm_ok lpm_new \<and> lpm_abs lpm_new = Map.empty"
  by (simp add: lpm_ok_def lpm_new_def lpm_abs_def) (simp add: new_node_def)

lemma lpm_insert_ok:
  assumes "lpm_ok t" and "unat len \<le> 32"
  shows "\<exists>t'. lpm_insert t p len lab = Inr t' \<and> lpm_ok t' \<and>
     lpm_abs t' = (lpm_abs t)(prefix_bits (unat len) p \<mapsto> lab)"
  using insert_node_ok [of "lpm_root t" 0 "unat len" p lab] assms
  by (auto simp: lpm_insert_def lpm_ok_def lpm_abs_def)

lemma lpm_remove_ok:
  assumes "lpm_ok t" and "unat len \<le> 32"
  shows "\<exists>t'. lpm_remove t p len = Inr (t', lpm_abs t (prefix_bits (unat len) p) \<noteq> None) \<and> lpm_ok t' \<and>
     lpm_abs t' = (lpm_abs t)(prefix_bits (unat len) p := None)"
  using remove_node_ok [of 0 "unat len" p "lpm_root t"] assms
  by (auto simp: lpm_remove_def lpm_ok_def lpm_abs_def)

lemma lpm_lookup_ok: "lpm_ok t \<Longrightarrow> lpm_lookup t ip = longest_match (lpm_abs t) ip"
  using lookup_node_eq [of "lpm_root t" ip 0 32 "-1"]
  by (cases "lpm_root t") (auto simp: lpm_lookup_def lpm_ok_def longest_match_def lpm_abs_def)

lemma dom_entries_Node:
  "dom (entries (Node l r lb hp)) =
     (let D = Cons False ` dom (entries l) \<union> Cons True ` dom (entries r)
      in if hp then insert [] D else D)"
proof (rule set_eqI)
  fix bs
  show "bs \<in> dom (entries (Node l r lb hp)) \<longleftrightarrow>
      bs \<in> (let D = Cons False ` dom (entries l) \<union> Cons True ` dom (entries r)
      in if hp then insert [] D else D)"
    by (cases bs; cases "hd bs") (auto simp: Let_def dom_def)
qed

lemma card_dom_entries: "finite (dom (entries t)) \<and> card (dom (entries t)) = count_prefixes t"
proof (induction t)
  case (Node l r lb hp)
  let ?D = "Cons False ` dom (entries l) \<union> Cons True ` dom (entries r)"
  have "finite ?D" "card ?D = count_prefixes l + count_prefixes r"
    using Node by (simp, subst card_Un_disjoint) (auto simp: card_image)
  moreover have "[] \<notin> ?D" by auto
  ultimately show ?case by (simp only: dom_entries_Node Let_def) simp
qed (simp add: dom_def)

lemma lpm_size_ok: "lpm_ok t \<Longrightarrow> lpm_size t = card (dom (lpm_abs t))"
  by (simp add: lpm_size_def lpm_ok_def lpm_abs_def card_dom_entries)

section \<open>The contract of an IP classifier\<close>

text \<open>
  \<open>IPClassifier\<close> (\<open>libdsa/include/dsa/trie/ip_classifier.h\<close>) as seen by a client: an
  abstract map from bit strings to labels, updated by \<open>insert\<close> and \<open>remove\<close> and read by
  \<open>lookup\<close> at the longest stored prefix of the address.
\<close>

locale ip_classifier =
  fixes ins :: "'s \<Rightarrow> u32 \<Rightarrow> u8 \<Rightarrow> int \<Rightarrow> 's res"
    and rem :: "'s \<Rightarrow> u32 \<Rightarrow> u8 \<Rightarrow> ('s \<times> bool) res"
    and look :: "'s \<Rightarrow> u32 \<Rightarrow> int"
    and siz :: "'s \<Rightarrow> nat"
    and abs :: "'s \<Rightarrow> bool list \<Rightarrow> int option"
    and ok :: "'s \<Rightarrow> bool"
  assumes insert_ok: "ok t \<Longrightarrow> unat len \<le> 32 \<Longrightarrow>
      \<exists>t'. ins t p len lab = Inr t' \<and> ok t' \<and> abs t' = (abs t)(prefix_bits (unat len) p \<mapsto> lab)"
    and remove_ok: "ok t \<Longrightarrow> unat len \<le> 32 \<Longrightarrow>
      \<exists>t'. rem t p len = Inr (t', abs t (prefix_bits (unat len) p) \<noteq> None) \<and> ok t' \<and>
        abs t' = (abs t)(prefix_bits (unat len) p := None)"
    and lookup_ok: "ok t \<Longrightarrow> look t ip = longest_match (abs t) ip"
    and size_ok: "ok t \<Longrightarrow> siz t = card (dom (abs t))"
begin

text \<open>Loading a table of networks in order.\<close>

lemma insert_all:
  assumes "ok t" and "\<forall>(p, len, lab) \<in> set nets. unat len \<le> 32"
  shows "\<exists>t'. fold_res (\<lambda>(p, len, lab) t. ins t p len lab) nets t = Inr t' \<and> ok t' \<and>
     abs t' = fold (\<lambda>(p, len, lab) m. m(prefix_bits (unat len) p \<mapsto> lab)) nets (abs t)"
  using assms
proof (induction nets arbitrary: t)
  case (Cons net nets)
  obtain p len lab where net: "net = (p, len, lab)" by (cases net)
  from insert_ok [of t len p lab] Cons.prems obtain t' where
    t': "ins t p len lab = Inr t'" "ok t'" "abs t' = (abs t)(prefix_bits (unat len) p \<mapsto> lab)"
    by (auto simp: net)
  from Cons.IH [OF t'(2)] Cons.prems(2) t'(1,3) show ?case by (simp add: net)
qed simp

lemma lookup_after_remove_insert:
  assumes "ok t" and "unat len \<le> 32" and "ins t p len lab = Inr t1"
    and "abs t (prefix_bits (unat len) p) = None"
  shows "\<exists>t2. rem t1 p len = Inr (t2, True) \<and> (\<forall>ip. look t2 ip = look t ip) \<and> siz t2 = siz t"
proof -
  from insert_ok [OF assms(1,2), of p lab] assms(3) have
    t1: "ok t1" "abs t1 = (abs t)(prefix_bits (unat len) p \<mapsto> lab)" by auto
  from remove_ok [OF t1(1) assms(2), of p] t1(2) obtain t2 where
    t2: "rem t1 p len = Inr (t2, True)" "ok t2" "abs t2 = (abs t)(prefix_bits (unat len) p := None)"
    by auto
  then have "abs t2 = abs t" using assms(4) by (simp add: fun_upd_idem)
  with t2 lookup_ok size_ok assms(1) show ?thesis by auto
qed

end

interpretation lpm: ip_classifier lpm_insert lpm_remove lpm_lookup lpm_size lpm_abs lpm_ok
  by unfold_locales (fact lpm_insert_ok lpm_remove_ok lpm_lookup_ok lpm_size_ok)+

section \<open>A linear scan as reference\<close>

text \<open>Whether a network of length \<open>n\<close> contains an address.\<close>

definition covers :: "u32 \<Rightarrow> nat \<Rightarrow> u32 \<Rightarrow> bool" where
  "covers p n ip \<longleftrightarrow> drop_bit (32 - n) ip = drop_bit (32 - n) p"

text \<open>
  The best network of a table by going through it once: a longer match replaces a shorter one,
  and of two equal networks the later one counts.
\<close>

fun scan_table :: "(u32 \<times> u8 \<times> int) list \<Rightarrow> u32 \<Rightarrow> (nat \<times> int) option \<Rightarrow> (nat \<times> int) option" where
  "scan_table [] ip best = best"
| "scan_table ((p, len, lab) # nets) ip best =
     scan_table nets ip
       (if covers p (unat len) ip \<and> (case best of None \<Rightarrow> True | Some (n, _) \<Rightarrow> n \<le> unat len)
        then Some (unat len, lab) else best)"

lemma prefix_bits_eq_iff:
  assumes "n \<le> 32"
  shows "prefix_bits n v = prefix_bits n w \<longleftrightarrow> drop_bit (32 - n) v = drop_bit (32 - n) w"
proof
  assume eq: "prefix_bits n v = prefix_bits n w"
  show "drop_bit (32 - n) v = drop_bit (32 - n) w"
  proof (rule bit_word_eqI)
    fix j
    show "bit (drop_bit (32 - n) v) j = bit (drop_bit (32 - n) w) j"
    proof (cases "j < n")
      case True
      then have "n - 1 - j < n" by simp
      from bits_from_nth [OF this, of v 0] bits_from_nth [OF this, of w 0]
      have "bit v (31 - (0 + (n - 1 - j))) = bit w (31 - (0 + (n - 1 - j)))"
        by (simp only: eq)
      moreover have "31 - (0 + (n - 1 - j)) = 32 - n + j" using True assms by arith
      ultimately show ?thesis by (simp only: bit_drop_bit_eq o_apply)
    qed (use assms in \<open>auto simp: bit_drop_bit_eq dest!: bit_imp_le_length\<close>)
  qed
next
  assume eq: "drop_bit (32 - n) v = drop_bit (32 - n) w"
  have "bit v (31 - j) = bit w (31 - j)" if "j < n" for j
    using arg_cong [OF eq, of "\<lambda>x. bit x (n - 1 - j)"] that assms by (simp add: bit_drop_bit_eq)
  then show "prefix_bits n v = prefix_bits n w"
    by (intro nth_equalityI) (simp_all add: bits_from_nth)
qed

text \<open>What a partial scan knows of the map it has seen.\<close>

definition scan_agrees :: "(bool list \<Rightarrow> int option) \<Rightarrow> u32 \<Rightarrow> (nat \<times> int) option \<Rightarrow> bool" where
  "scan_agrees m ip best \<longleftrightarrow>
     (case best of
        None \<Rightarrow> (\<forall>n \<le> 32. m (prefix_bits n ip) = None)
      | Some (n, lab) \<Rightarrow> n \<le> 32 \<and> m (prefix_bits n ip) = Some lab \<and>
          (\<forall>j. n < j \<and> j \<le> 32 \<longrightarrow> m (prefix_bits j ip) = None))"

lemma prefix_bits_eq_length: "prefix_bits n v = prefix_bits k w \<Longrightarrow> n = k"
  by (metis length_bits_from)

lemma scan_agrees_step:
  assumes "scan_agrees m ip best" and "len \<le> 32"
  shows "scan_agrees (m(prefix_bits len p \<mapsto> lab)) ip
    (if covers p len ip \<and> (case best of None \<Rightarrow> True | Some (n, _) \<Rightarrow> n \<le> len)
     then Some (len, lab) else best)"
proof -
  have upd: "(m(prefix_bits len p \<mapsto> lab)) (prefix_bits n ip) =
      (if n = len \<and> covers p len ip then Some lab else m (prefix_bits n ip))" for n
    using prefix_bits_eq_iff [OF assms(2), of ip p] prefix_bits_eq_length [of ip n p len]
    by (auto simp: covers_def)
  show ?thesis
    using assms unfolding scan_agrees_def upd by (auto split: option.splits prod.splits)
qed

lemma scan_table_agrees:
  assumes "scan_agrees m ip best" and "\<forall>(p, len, lab) \<in> set nets. unat len \<le> 32"
  shows "scan_agrees (fold (\<lambda>(p, len, lab) m. m(prefix_bits (unat len) p \<mapsto> lab)) nets m) ip
    (scan_table nets ip best)"
  using assms
proof (induction nets arbitrary: m best)
  case (Cons net nets)
  obtain p len lab where net: "net = (p, len, lab)" by (cases net)
  from Cons.prems have "unat len \<le> 32" by (simp add: net)
  from Cons.IH [OF scan_agrees_step [OF Cons.prems(1) this]] Cons.prems(2) show ?case
    by (simp add: net)
qed simp

lemma longest_match_scan:
  "scan_agrees m ip best \<Longrightarrow> longest_match m ip = (case best of None \<Rightarrow> -1 | Some (n, lab) \<Rightarrow> lab)"
proof (cases best)
  case None
  assume "scan_agrees m ip best"
  with None have "last_some (\<lambda>n. m (prefix_bits n ip)) 32 = None"
    by (simp add: scan_agrees_def last_some_None)
  with None show ?thesis by (simp add: longest_match_def)
next
  case (Some b)
  assume agr: "scan_agrees m ip best"
  obtain n lab where b: "b = (n, lab)" by (cases b)
  have "last_some (\<lambda>n. m (prefix_bits n ip)) 32 = Some lab"
    using agr by (intro last_some_eqI [of n]) (auto simp: Some b scan_agrees_def)
  with Some b show ?thesis by (simp add: longest_match_def)
qed

definition lpm_insert_all :: "lpm \<Rightarrow> (u32 \<times> u8 \<times> int) list \<Rightarrow> lpm res" where
  "lpm_insert_all t nets = fold_res (\<lambda>(p, len, lab) t. lpm_insert t p len lab) nets t"

lemma lpm_lookup_scan:
  assumes "\<forall>(p, len, lab) \<in> set nets. unat len \<le> 32"
  shows "\<exists>t. lpm_insert_all lpm_new nets = Inr t \<and>
     (\<forall>ip. lpm_lookup t ip =
        (case scan_table nets ip None of None \<Rightarrow> -1 | Some (n, lab) \<Rightarrow> lab))"
proof -
  from lpm.insert_all [OF conjunct1 [OF lpm_new_ok] assms] lpm_new_ok obtain t where
    t: "lpm_insert_all lpm_new nets = Inr t" "lpm_ok t"
      "lpm_abs t = fold (\<lambda>(p, len, lab) m. m(prefix_bits (unat len) p \<mapsto> lab)) nets Map.empty"
    by (auto simp: lpm_insert_all_def)
  have "scan_agrees (lpm_abs t) ip (scan_table nets ip None)" for ip
    unfolding t(3) by (rule scan_table_agrees [OF _ assms]) (simp add: scan_agrees_def)
  with t(1,2) show ?thesis by (auto simp: lpm_lookup_ok longest_match_scan)
qed

section \<open>Properties\<close>

text \<open>C11: Loading any table of networks with lengths up to 32 into an empty trie succeeds, and
  \<open>lookup\<close> then answers what a linear scan of the table answers: the label of the longest
  network that contains the address (the last one given, if it was given twice), or -1.\<close>

theorem lpm_lookup_is_scan:
  assumes "\<forall>(p, len, lab) \<in> set nets. unat len \<le> 32"
  shows "\<exists>t. lpm_insert_all lpm_new nets = Inr t \<and>
     (\<forall>ip. lpm_lookup t ip =
        (case scan_table nets ip None of None \<Rightarrow> -1 | Some (n, lab) \<Rightarrow> lab))"
  by (rule lpm_lookup_scan [OF assms])

theorem lpm_lookup_is_scan_witness:
  "\<exists>t. lpm_insert_all lpm_new [(0x0AF40000, 16, 1), (0x0AF40500, 24, 7)] = Inr t \<and>
     lpm_lookup t 0x0AF40563 = 7 \<and> lpm_lookup t 0x0AF40163 = 1 \<and> lpm_lookup t 0x08080808 = -1"
proof -
  have h: "\<forall>(p, len, lab) \<in> set [(0x0AF40000 :: u32, 16 :: u8, 1 :: int), (0x0AF40500, 24, 7)].
      unat len \<le> 32" by simp
  from lpm_lookup_is_scan [OF h] show ?thesis
    by (elim exE conjE) (auto simp: covers_def)
qed

lemma lpm_insert_all_ok:
  assumes "\<forall>(p, len, lab) \<in> set nets. unat len \<le> 32" and "lpm_insert_all lpm_new nets = Inr t"
  shows "lpm_ok t" and "dom (lpm_abs t) = (\<lambda>(p, len, lab). prefix_bits (unat len) p) ` set nets"
proof -
  from lpm.insert_all [OF conjunct1 [OF lpm_new_ok] assms(1)] assms(2) lpm_new_ok have
    t: "lpm_ok t" "lpm_abs t = fold (\<lambda>(p, len, lab) m. m(prefix_bits (unat len) p \<mapsto> lab)) nets Map.empty"
    by (auto simp: lpm_insert_all_def)
  have "dom (fold (\<lambda>(p, len, lab) m. m(prefix_bits (unat len) p \<mapsto> lab)) ns m) =
      dom m \<union> (\<lambda>(p, len, lab). prefix_bits (unat len) p) ` set ns" for ns :: "(u32 \<times> u8 \<times> int) list" and m
    by (induction ns arbitrary: m) auto
  then show "dom (lpm_abs t) = (\<lambda>(p, len, lab). prefix_bits (unat len) p) ` set nets"
    by (simp add: t(2))
  show "lpm_ok t" by (rule t(1))
qed

text \<open>\<open>size\<close> is the number of distinct networks loaded: a network given twice, or with
  different host bits, counts once.\<close>

theorem lpm_size_distinct:
  assumes "\<forall>(p, len, lab) \<in> set nets. unat len \<le> 32" and "lpm_insert_all lpm_new nets = Inr t"
  shows "lpm_size t = card ((\<lambda>(p, len, lab). prefix_bits (unat len) p) ` set nets)"
  using lpm_insert_all_ok [OF assms] by (simp add: lpm_size_ok)

theorem lpm_size_distinct_witness:
  "\<exists>t. lpm_insert_all lpm_new [(0x80000000, 1, 5), (0x80000001, 1, 6)] = Inr t \<and> lpm_size t = 1"
proof -
  have h: "\<forall>(p, len, lab) \<in> set [(0x80000000 :: u32, 1 :: u8, 5 :: int), (0x80000001, 1, 6)].
      unat len \<le> 32" by simp
  obtain t where t: "lpm_insert_all lpm_new [(0x80000000, 1, 5), (0x80000001, 1, 6)] = Inr t"
    using lpm.insert_all [OF conjunct1 [OF lpm_new_ok] h] by (auto simp: lpm_insert_all_def)
  show ?thesis using t lpm_size_distinct [OF h t] by (auto simp: bit_simps)
qed

text \<open>Removing a network that was just added to a table that did not hold it succeeds once,
  gives back every lookup and the size of the table, and a second removal finds nothing.\<close>

theorem lpm_remove_undoes_insert:
  assumes "\<forall>(p, len, lab) \<in> set nets. unat len \<le> 32" and "lpm_insert_all lpm_new nets = Inr t"
    and "unat len \<le> 32" and "\<forall>(q, m, l) \<in> set nets. prefix_bits (unat m) q \<noteq> prefix_bits (unat len) p"
  shows "\<exists>t1 t2 t3. lpm_insert t p len lab = Inr t1 \<and> lpm_remove t1 p len = Inr (t2, True) \<and>
     (\<forall>ip. lpm_lookup t2 ip = lpm_lookup t ip) \<and> lpm_size t2 = lpm_size t \<and>
     lpm_remove t2 p len = Inr (t3, False)"
proof -
  note ok = lpm_insert_all_ok [OF assms(1,2)]
  have "prefix_bits (unat len) p \<notin> dom (lpm_abs t)"
    using assms(4) unfolding ok(2) by fastforce
  then have new: "lpm_abs t (prefix_bits (unat len) p) = None"
    by (simp add: domIff)
  from lpm_insert_ok [OF ok(1) assms(3), of p lab] obtain t1 where
    t1: "lpm_insert t p len lab = Inr t1" "lpm_ok t1"
      "lpm_abs t1 = (lpm_abs t)(prefix_bits (unat len) p \<mapsto> lab)" by blast
  from lpm.lookup_after_remove_insert [OF ok(1) assms(3) t1(1) new] obtain t2 where
    t2: "lpm_remove t1 p len = Inr (t2, True)" "\<forall>ip. lpm_lookup t2 ip = lpm_lookup t ip"
      "lpm_size t2 = lpm_size t" by blast
  from lpm_remove_ok [OF t1(2) assms(3), of p] t2(1) have
    ok2: "lpm_ok t2" "lpm_abs t2 (prefix_bits (unat len) p) = None" by auto
  from lpm_remove_ok [OF ok2(1) assms(3), of p] ok2(2) t1(1) t2 show ?thesis by auto
qed

theorem lpm_remove_undoes_insert_witness:
  "\<exists>t1 t2 t3. lpm_insert lpm_new 0x0A000000 8 3 = Inr t1 \<and> lpm_remove t1 0x0A000000 8 = Inr (t2, True) \<and>
     (\<forall>ip. lpm_lookup t2 ip = lpm_lookup lpm_new ip) \<and> lpm_size t2 = lpm_size lpm_new \<and>
     lpm_remove t2 0x0A000000 8 = Inr (t3, False)"
  by (rule lpm_remove_undoes_insert [of "[]"]) (simp_all add: lpm_insert_all_def)

lemma insert_node_long:
  "t \<noteq> Null \<Longrightarrow> i \<le> 32 \<Longrightarrow> 32 < i + n \<Longrightarrow> insert_node p lab i n t = Inl Undefined"
proof (induction n arbitrary: i t)
  case (Suc n)
  then obtain l r lb hp where t: "t = Node l r lb hp" by (cases t) auto
  show ?case
  proof (cases "i \<le> 31")
    case True
    obtain c fresh where c: "ensure_node (if bit p (31 - i) then r else l) = (c, fresh)" by fastforce
    have "insert_node p lab (i + 1) n c = Inl Undefined"
      using ensure_node_ok(1) [OF c] Suc.prems True by (intro Suc.IH) auto
    with True c show ?thesis by (simp add: t get_bit_ok Let_def)
  qed (simp add: t get_bit_def)
qed simp

text \<open>\<open>insert\<close> takes any 8-bit length, but a length above 32 runs into a shift by a negative
  count, which is undefined behaviour; the caller has to bound it.\<close>

theorem lpm_insert_long_prefix:
  assumes "lpm_root t \<noteq> Null" and "32 < unat len"
  shows "lpm_insert t p len lab = Inl Undefined"
  using insert_node_long [OF assms(1), of 0 "unat len" p lab] assms(2)
  by (simp add: lpm_insert_def)

theorem lpm_insert_long_prefix_witness: "lpm_insert lpm_new 0x0A000000 33 1 = Inl Undefined"
  by (rule lpm_insert_long_prefix) (simp_all add: lpm_new_def new_node_def)

end
