(* ===== verification/Config.thy ===== *)
theory Config
  imports Event Handlers LPMTrie
begin

text \<open>
  The configuration (\<open>pipeline/include/config_loader.h\<close>) and its line-based reader
  (\<open>pipeline/src/config_loader.cpp\<close>): the CIDR parser and the state machine over the lines of the
  file, one step per line. The pointers \<open>current_handler\<close> and \<open>current_rule\<close> are null or point to
  the last element of their vector, so a flag stands for each. The first \<open>current_net\<close> is not
  initialized: its numbers are a parameter.
\<close>

section \<open>Types\<close>

record cidr_entry =
  ce_prefix :: u32
  ce_prefix_len :: u8
  ce_label :: int
  ce_name :: string

record algorithm_config =
  ac_name :: string
  ac_width :: int
  ac_depth :: int
  ac_threshold :: int
  ac_max_hops :: int

record pipeline_config =
  pc_frequency :: algorithm_config
  pc_scc :: algorithm_config
  pc_reachability :: algorithm_config
  pc_ip_classifier :: algorithm_config
  pc_networks :: "cidr_entry list"
  pc_event_source_type :: string
  pc_event_source_path :: string
  pc_window_seconds :: int
  pc_scc_interval_seconds :: int
  pc_snapshot_interval_seconds :: int
  pc_alerts_file :: string
  pc_graph_file :: string
  pc_stats_file :: string
  pc_alert_handlers :: "handler_config list"
  pc_severity_rules :: "severity_rule list"
  pc_node_name :: string
  pc_namespace :: string

definition default_algorithm :: algorithm_config where
  "default_algorithm =
     \<lparr>ac_name = '''', ac_width = 2048, ac_depth = 5, ac_threshold = 100, ac_max_hops = 3\<rparr>"

definition default_config :: pipeline_config where
  "default_config =
     \<lparr>pc_frequency = default_algorithm, pc_scc = default_algorithm, pc_reachability = default_algorithm,
      pc_ip_classifier = default_algorithm, pc_networks = [], pc_event_source_type = '''',
      pc_event_source_path = '''', pc_window_seconds = 60, pc_scc_interval_seconds = 10,
      pc_snapshot_interval_seconds = 5, pc_alerts_file = ''output/alerts.json'',
      pc_graph_file = ''output/graph.json'', pc_stats_file = ''output/stats.json'',
      pc_alert_handlers = [], pc_severity_rules = [], pc_node_name = '''', pc_namespace = ''''\<rparr>"

section \<open>Addresses\<close>

text \<open>The loop over the dotted parts; \<open>None\<close> is the early \<open>return false\<close>.\<close>

fun cidr_octets :: "string list \<Rightarrow> u8 list \<Rightarrow> nat \<Rightarrow> (u8 list \<times> nat) option res" where
  "cidr_octets [] octets idx = Inr (Some (octets, idx))"
| "cidr_octets (part # parts) octets idx =
     (if idx < 4
      then bind_res (stoi part) (\<lambda>v.
        if v < 0 \<or> v > 255 then Inr None
        else cidr_octets parts (octets[idx := word_of_int v]) (idx + 1))
      else Inr (Some (octets, idx)))"

text \<open>The answer and the two references, which an early return leaves half-way.\<close>

definition parse_cidr :: "string \<Rightarrow> u32 \<times> u8 \<Rightarrow> (bool \<times> u32 \<times> u8) res" where
  "parse_cidr cidr = (\<lambda>(prefix, prefix_len).
     case find_first (\<lambda>c. c = CHR ''/'') cidr 0 of
       None \<Rightarrow> Inr (False, prefix, prefix_len)
     | Some slash \<Rightarrow>
         bind_res (stoi (drop (slash + 1) cidr)) (\<lambda>len.
           if len < 0 \<or> len > 32 then Inr (False, prefix, prefix_len)
           else
             let prefix_len = word_of_int len in
             bind_res (cidr_octets (getlines CHR ''.'' (substr cidr 0 slash)) [0, 0, 0, 0] 0) (\<lambda>r.
               case r of
                 None \<Rightarrow> Inr (False, prefix, prefix_len)
               | Some (octets, idx) \<Rightarrow>
                   if idx \<noteq> 4 then Inr (False, prefix, prefix_len)
                   else Inr (True,
                     ip_from_octets (octets ! 0) (octets ! 1) (octets ! 2) (octets ! 3), prefix_len))))"

section \<open>Lines\<close>

definition trimmable :: "char \<Rightarrow> bool" where
  "trimmable c \<longleftrightarrow> c \<in> {CHR '' '', CHR 0x09, CHR 0x0D, CHR 0x0A, CHR 0x22}"

definition trim :: "string \<Rightarrow> string" where
  "trim s =
     (case find_first (\<lambda>c. \<not> trimmable c) s 0 of
        None \<Rightarrow> ''''
      | Some start \<Rightarrow>
          (case find_last (\<lambda>c. \<not> trimmable c) s of
             None \<Rightarrow> ''''
           | Some end \<Rightarrow> substr s start (end - start + 1)))"

definition extract_value :: "string \<Rightarrow> string" where
  "extract_value line =
     (case find_first (\<lambda>c. c = CHR '':'') line 0 of
        None \<Rightarrow> ''''
      | Some colon \<Rightarrow> trim (drop (colon + 1) line))"

definition extract_key :: "string \<Rightarrow> string" where
  "extract_key line =
     (case find_first (\<lambda>c. c = CHR '':'') line 0 of
        None \<Rightarrow> trim line
      | Some colon \<Rightarrow> trim (substr line 0 colon))"

definition strip_comment :: "string \<Rightarrow> string" where
  "strip_comment line =
     (case find_first (\<lambda>c. c = CHR ''#'') line 0 of None \<Rightarrow> line | Some comment \<Rightarrow> substr line 0 comment)"

section \<open>The state machine\<close>

datatype config_section =
    NoSection | ALGORITHMS | FREQ | SCC | REACH | IPCLASS | NETWORKS | NET_ENTRY | EVENT_SOURCE
  | ANALYSIS | OUTPUT | ALERT_HANDLERS | SEVERITY_RULES | SOC

record loader =
  ld_cfg :: pipeline_config
  ld_section :: config_section
  ld_algo_sub :: config_section
  ld_net :: cidr_entry
  ld_in_params :: bool
  ld_handler :: bool             \<comment> \<open>\<open>current_handler\<close> is not null\<close>
  ld_in_handler_params :: bool
  ld_rule :: bool                \<comment> \<open>\<open>current_rule\<close> is not null\<close>

definition map_last :: "('a \<Rightarrow> 'a) \<Rightarrow> 'a list \<Rightarrow> 'a list" where
  "map_last f xs = butlast xs @ [f (last xs)]"

definition top_section :: "string \<Rightarrow> config_section option" where
  "top_section key = map_of
     [(''algorithms'', ALGORITHMS), (''networks'', NETWORKS), (''event_source'', EVENT_SOURCE),
      (''analysis'', ANALYSIS), (''output'', OUTPUT), (''alert_handlers'', ALERT_HANDLERS),
      (''severity_rules'', SEVERITY_RULES), (''soc'', SOC)] key"

definition top_line :: "string \<Rightarrow> loader \<Rightarrow> loader" where
  "top_line key s =
     (let s = s\<lparr>ld_in_params := False, ld_in_handler_params := False, ld_handler := False\<rparr>
      in case top_section key of None \<Rightarrow> s | Some sec \<Rightarrow> s\<lparr>ld_section := sec\<rparr>)"

definition algo_section :: "string \<Rightarrow> config_section option" where
  "algo_section key = map_of
     [(''frequency_estimator'', FREQ), (''scc_detector'', SCC), (''reachability'', REACH),
      (''ip_classifier'', IPCLASS)] key"

text \<open>\<open>target\<close>: the entry of the current algorithm, if one is open.\<close>

fun on_target :: "config_section \<Rightarrow> (algorithm_config \<Rightarrow> algorithm_config res) \<Rightarrow> pipeline_config \<Rightarrow> pipeline_config res" where
  "on_target FREQ f c = bind_res (f (pc_frequency c)) (\<lambda>a. Inr (c\<lparr>pc_frequency := a\<rparr>))"
| "on_target SCC f c = bind_res (f (pc_scc c)) (\<lambda>a. Inr (c\<lparr>pc_scc := a\<rparr>))"
| "on_target REACH f c = bind_res (f (pc_reachability c)) (\<lambda>a. Inr (c\<lparr>pc_reachability := a\<rparr>))"
| "on_target IPCLASS f c = bind_res (f (pc_ip_classifier c)) (\<lambda>a. Inr (c\<lparr>pc_ip_classifier := a\<rparr>))"
| "on_target other f c = Inr c"

definition set_param :: "bool \<Rightarrow> string \<Rightarrow> string \<Rightarrow> algorithm_config \<Rightarrow> algorithm_config res" where
  "set_param params key val a =
     (let a = (if key = ''name'' then a\<lparr>ac_name := val\<rparr> else a) in
      if \<not> params then Inr a
      else if key = ''width'' then bind_res (stoi val) (\<lambda>v. Inr (a\<lparr>ac_width := v\<rparr>))
      else if key = ''depth'' then bind_res (stoi val) (\<lambda>v. Inr (a\<lparr>ac_depth := v\<rparr>))
      else if key = ''threshold'' then bind_res (stoi val) (\<lambda>v. Inr (a\<lparr>ac_threshold := v\<rparr>))
      else if key = ''max_hops'' then bind_res (stoi val) (\<lambda>v. Inr (a\<lparr>ac_max_hops := v\<rparr>))
      else Inr a)"

definition algorithm_line :: "nat \<Rightarrow> string \<Rightarrow> string \<Rightarrow> loader \<Rightarrow> loader res" where
  "algorithm_line indent key val s =
     (let s = (if indent \<le> 4 then s\<lparr>ld_in_params := False\<rparr> else s) in
      case (if indent \<le> 4 then algo_section key else None) of
        Some sub \<Rightarrow> Inr (s\<lparr>ld_algo_sub := sub\<rparr>)
      | None \<Rightarrow>
          if key = ''params'' then Inr (s\<lparr>ld_in_params := True\<rparr>)
          else bind_res
            (on_target (ld_algo_sub s) (set_param (ld_in_params s \<or> indent \<ge> 6) key val) (ld_cfg s))
            (\<lambda>c. Inr (s\<lparr>ld_cfg := c\<rparr>)))"

definition push_net :: "loader \<Rightarrow> loader" where
  "push_net s =
     (if ce_name (ld_net s) \<noteq> []
      then s\<lparr>ld_cfg := (ld_cfg s)\<lparr>pc_networks := pc_networks (ld_cfg s) @ [ld_net s]\<rparr>\<rparr> else s)"

definition empty_net :: cidr_entry where
  "empty_net = \<lparr>ce_prefix = 0, ce_prefix_len = 0, ce_label = 0, ce_name = ''''\<rparr>"

text \<open>The answer of \<open>parse_cidr\<close> is not looked at.\<close>

definition net_of_cidr :: "string \<Rightarrow> cidr_entry \<Rightarrow> cidr_entry res" where
  "net_of_cidr cidr n =
     bind_res (parse_cidr cidr (ce_prefix n, ce_prefix_len n)) (\<lambda>(ok, p, l).
       Inr (n\<lparr>ce_prefix := p, ce_prefix_len := l\<rparr>))"

definition network_line :: "string \<Rightarrow> string \<Rightarrow> string \<Rightarrow> loader \<Rightarrow> loader res" where
  "network_line trimmed key val s =
     (if key = ''- cidr'' \<or> (hd trimmed = CHR ''-'' \<and> find_str ''cidr'' trimmed \<noteq> None)
      then
        (let s = push_net s in
         case find_str ''cidr:'' trimmed of
           None \<Rightarrow> Inr (s\<lparr>ld_net := empty_net\<rparr>)
         | Some pos \<Rightarrow>
             bind_res (net_of_cidr (trim (drop (pos + 5) trimmed)) empty_net) (\<lambda>n. Inr (s\<lparr>ld_net := n\<rparr>)))
      else if key = ''label'' then bind_res (stoi val) (\<lambda>v. Inr (s\<lparr>ld_net := (ld_net s)\<lparr>ce_label := v\<rparr>\<rparr>))
      else if key = ''name'' then Inr (s\<lparr>ld_net := (ld_net s)\<lparr>ce_name := val\<rparr>\<rparr>)
      else Inr s)"

definition event_source_line :: "string \<Rightarrow> string \<Rightarrow> pipeline_config \<Rightarrow> pipeline_config" where
  "event_source_line key val c =
     (if key = ''type'' then c\<lparr>pc_event_source_type := val\<rparr>
      else if key = ''path'' then c\<lparr>pc_event_source_path := val\<rparr> else c)"

definition analysis_line :: "string \<Rightarrow> string \<Rightarrow> pipeline_config \<Rightarrow> pipeline_config res" where
  "analysis_line key val c =
     (if key = ''window_seconds'' then bind_res (stoi val) (\<lambda>v. Inr (c\<lparr>pc_window_seconds := v\<rparr>))
      else if key = ''scc_interval_seconds'' then bind_res (stoi val) (\<lambda>v. Inr (c\<lparr>pc_scc_interval_seconds := v\<rparr>))
      else if key = ''snapshot_interval_seconds''
        then bind_res (stoi val) (\<lambda>v. Inr (c\<lparr>pc_snapshot_interval_seconds := v\<rparr>))
      else Inr c)"

definition output_line :: "string \<Rightarrow> string \<Rightarrow> pipeline_config \<Rightarrow> pipeline_config" where
  "output_line key val c =
     (if key = ''alerts_file'' then c\<lparr>pc_alerts_file := val\<rparr>
      else if key = ''graph_file'' then c\<lparr>pc_graph_file := val\<rparr>
      else if key = ''stats_file'' then c\<lparr>pc_stats_file := val\<rparr> else c)"

definition on_handler :: "(handler_config \<Rightarrow> handler_config) \<Rightarrow> loader \<Rightarrow> loader" where
  "on_handler f s =
     s\<lparr>ld_cfg := (ld_cfg s)\<lparr>pc_alert_handlers := map_last f (pc_alert_handlers (ld_cfg s))\<rparr>\<rparr>"

definition handler_line :: "string \<Rightarrow> string \<Rightarrow> string \<Rightarrow> loader \<Rightarrow> loader" where
  "handler_line trimmed key val s =
     (if hd trimmed = CHR ''-'' then
        (let e = \<lparr>hc_name = (case find_str ''name:'' trimmed of
                     None \<Rightarrow> '''' | Some pos \<Rightarrow> trim (drop (pos + 5) trimmed)), hc_params = (\<lambda>_. None)\<rparr>
         in s\<lparr>ld_cfg := (ld_cfg s)\<lparr>pc_alert_handlers := pc_alert_handlers (ld_cfg s) @ [e]\<rparr>,
              ld_handler := True, ld_in_handler_params := False\<rparr>)
      else if \<not> ld_handler s then s
      else if key = ''name''
        then (on_handler (\<lambda>e. e\<lparr>hc_name := val\<rparr>) s)\<lparr>ld_in_handler_params := False\<rparr>
      else if key = ''params'' then s\<lparr>ld_in_handler_params := True\<rparr>
      else if ld_in_handler_params s
        then on_handler (\<lambda>e. e\<lparr>hc_params := (hc_params e)(key \<mapsto> val)\<rparr>) s
      else s)"

definition on_rule :: "(severity_rule \<Rightarrow> severity_rule) \<Rightarrow> loader \<Rightarrow> loader" where
  "on_rule f s =
     s\<lparr>ld_cfg := (ld_cfg s)\<lparr>pc_severity_rules := map_last f (pc_severity_rules (ld_cfg s))\<rparr>\<rparr>"

definition rule_line :: "string \<Rightarrow> string \<Rightarrow> string \<Rightarrow> loader \<Rightarrow> loader" where
  "rule_line trimmed key val s =
     (if hd trimmed = CHR ''-'' then
        (let r = \<lparr>sr_alert_type = (case find_str ''type:'' trimmed of
                     None \<Rightarrow> '''' | Some pos \<Rightarrow> trim (drop (pos + 5) trimmed)), sr_severity = ''''\<rparr>
         in s\<lparr>ld_cfg := (ld_cfg s)\<lparr>pc_severity_rules := pc_severity_rules (ld_cfg s) @ [r]\<rparr>, ld_rule := True\<rparr>)
      else if \<not> ld_rule s then s
      else if key = ''type'' then on_rule (\<lambda>r. r\<lparr>sr_alert_type := val\<rparr>) s
      else if key = ''severity'' then on_rule (\<lambda>r. r\<lparr>sr_severity := val\<rparr>) s
      else s)"

definition soc_line :: "string \<Rightarrow> string \<Rightarrow> pipeline_config \<Rightarrow> pipeline_config" where
  "soc_line key val c =
     (if key = ''node_name'' then c\<lparr>pc_node_name := val\<rparr>
      else if key = ''namespace'' then c\<lparr>pc_namespace := val\<rparr> else c)"

definition load_line :: "string \<Rightarrow> loader \<Rightarrow> loader res" where
  "load_line raw s =
     (let line = strip_comment raw; trimmed = trim line in
      if trimmed = [] then Inr s
      else
        let indent = (case find_first (\<lambda>c. c \<noteq> CHR '' '') line 0 of None \<Rightarrow> 0 | Some i \<Rightarrow> i);
            key = extract_key trimmed; val = extract_value trimmed
        in if indent = 0 then Inr (top_line key s)
           else case ld_section s of
             ALGORITHMS \<Rightarrow> algorithm_line indent key val s
           | NETWORKS \<Rightarrow> network_line trimmed key val s
           | EVENT_SOURCE \<Rightarrow> Inr (s\<lparr>ld_cfg := event_source_line key val (ld_cfg s)\<rparr>)
           | ANALYSIS \<Rightarrow> bind_res (analysis_line key val (ld_cfg s)) (\<lambda>c. Inr (s\<lparr>ld_cfg := c\<rparr>))
           | OUTPUT \<Rightarrow> Inr (s\<lparr>ld_cfg := output_line key val (ld_cfg s)\<rparr>)
           | ALERT_HANDLERS \<Rightarrow> Inr (handler_line trimmed key val s)
           | SEVERITY_RULES \<Rightarrow> Inr (rule_line trimmed key val s)
           | SOC \<Rightarrow> Inr (s\<lparr>ld_cfg := soc_line key val (ld_cfg s)\<rparr>)
           | _ \<Rightarrow> Inr s)"

definition load_start :: "u32 \<times> u8 \<times> int \<Rightarrow> loader" where
  "load_start = (\<lambda>(p, l, lab).
     \<lparr>ld_cfg = default_config, ld_section = NoSection, ld_algo_sub = NoSection,
      ld_net = \<lparr>ce_prefix = p, ce_prefix_len = l, ce_label = lab, ce_name = ''''\<rparr>,
      ld_in_params = False, ld_handler = False, ld_in_handler_params = False, ld_rule = False\<rparr>)"

text \<open>\<open>contents\<close>: the text of the file, \<open>None\<close> when it cannot be opened; \<open>junk\<close>: the uninitialized numbers.\<close>

definition load_config :: "u32 \<times> u8 \<times> int \<Rightarrow> string \<Rightarrow> string option \<Rightarrow> pipeline_config res" where
  "load_config junk path contents =
     (case contents of
        None \<Rightarrow> Inl (RuntimeError (''Cannot open config: '' @ path))
      | Some text \<Rightarrow>
          bind_res (fold_res load_line (getlines CHR 0x0A text) (load_start junk))
            (\<lambda>s. Inr (ld_cfg (push_net s))))"


section \<open>Networks of a configuration\<close>

lemma parse_cidr_len:
  assumes "parse_cidr cidr (p, l) = Inr (ok, p', l')" and "unat l \<le> 32"
  shows "unat l' \<le> 32"
proof -
  have w: "unat (word_of_int len :: u8) \<le> 32" if "\<not> (len < 0 \<or> len > 32)" for len
    using that by (simp add: unat_word_ariths nat_le_iff take_bit_int_eq_self unsigned_of_int)
  show ?thesis
    using assms w
    by (auto simp: parse_cidr_def Let_def bind_res_eq_Inr split: option.splits if_splits prod.splits)
qed

definition nets_ok :: "loader \<Rightarrow> bool" where
  "nets_ok s \<longleftrightarrow> unat (ce_prefix_len (ld_net s)) \<le> 32 \<and>
     (\<forall>n \<in> set (pc_networks (ld_cfg s)). unat (ce_prefix_len n) \<le> 32 \<and> ce_name n \<noteq> [])"

lemma nets_ok_push: "nets_ok s \<Longrightarrow> nets_ok (push_net s)"
  by (auto simp: nets_ok_def push_net_def)

lemma nets_ok_cfg:
  "nets_ok s \<Longrightarrow> pc_networks c = pc_networks (ld_cfg s) \<Longrightarrow> nets_ok (s\<lparr>ld_cfg := c\<rparr>)"
  by (simp add: nets_ok_def)

lemma nets_ok_flags [simp]:
  "nets_ok (s\<lparr>ld_in_params := b\<rparr>) = nets_ok s" "nets_ok (s\<lparr>ld_in_handler_params := b\<rparr>) = nets_ok s"
  "nets_ok (s\<lparr>ld_handler := b\<rparr>) = nets_ok s" "nets_ok (s\<lparr>ld_rule := b\<rparr>) = nets_ok s"
  "nets_ok (s\<lparr>ld_section := sec\<rparr>) = nets_ok s" "nets_ok (s\<lparr>ld_algo_sub := sec\<rparr>) = nets_ok s"
  by (simp_all add: nets_ok_def)

lemma network_line_ok:
  assumes "network_line trimmed key val s = Inr s'" and "nets_ok s"
  shows "nets_ok s'"
  using assms nets_ok_push [OF assms(2)]
  by (auto simp: network_line_def net_of_cidr_def Let_def bind_res_eq_Inr nets_ok_def empty_net_def
      split: if_splits option.splits dest!: parse_cidr_len)

lemma on_target_networks: 
  "on_target sec f c = Inr c' \<Longrightarrow> pc_networks c' = pc_networks c"
  by (cases sec) (auto simp: bind_res_eq_Inr)

lemma algorithm_line_ok: "algorithm_line indent key val s = Inr s' \<Longrightarrow> nets_ok s \<Longrightarrow> nets_ok s'"
  by (auto simp: algorithm_line_def Let_def bind_res_eq_Inr nets_ok_def dest!: on_target_networks
      split: if_splits option.splits)

lemma analysis_line_networks: "analysis_line key val c = Inr c' \<Longrightarrow> pc_networks c' = pc_networks c"
  by (auto simp: analysis_line_def bind_res_eq_Inr split: if_splits)

lemma other_lines_networks:
  "pc_networks (event_source_line key val c) = pc_networks c"
  "pc_networks (output_line key val c) = pc_networks c"
  "pc_networks (soc_line key val c) = pc_networks c"
  by (simp_all add: event_source_line_def output_line_def soc_line_def)

lemma handler_rule_ok:
  "nets_ok s \<Longrightarrow> nets_ok (handler_line trimmed key val s)"
  "nets_ok s \<Longrightarrow> nets_ok (rule_line trimmed key val s)"
  by (simp_all add: handler_line_def rule_line_def on_handler_def on_rule_def Let_def nets_ok_def)

lemma top_line_ok: "nets_ok s \<Longrightarrow> nets_ok (top_line key s)"
  by (simp add: top_line_def Let_def split: option.split)

lemma load_line_ok:
  assumes "load_line raw s = Inr s'" and "nets_ok s"
  shows "nets_ok s'"
  using assms
  by (auto simp: load_line_def Let_def bind_res_eq_Inr handler_rule_ok top_line_ok other_lines_networks
      split: if_splits config_section.splits
      intro!: nets_ok_cfg dest: network_line_ok algorithm_line_ok dest!: analysis_line_networks)


lemma find_first_hit: "(\<forall>x \<in> set p. \<not> P x) \<Longrightarrow> P c \<Longrightarrow> find_first P (p @ c # s) 0 = Some (length p)"
proof -
  have "(\<forall>x \<in> set p. \<not> P x) \<Longrightarrow> P c \<Longrightarrow> index_from P (p @ c # s) i = Some (i + length p)" for i
    by (induction p arbitrary: i) auto
  then show "(\<forall>x \<in> set p. \<not> P x) \<Longrightarrow> P c \<Longrightarrow> find_first P (p @ c # s) 0 = Some (length p)"
    by (simp add: find_first_def)
qed

lemma cidr_octets_dotted:
  assumes "a < 256" "b < 256" "c < 256" "d < 256"
  shows "cidr_octets (getlines CHR ''.'' (dotted a b c d)) [0, 0, 0, 0] 0 =
    Inr (Some ([of_nat a, of_nat b, of_nat c, of_nat d], 4))"
  using assms by (simp add: getlines_dotted stoi_to_string)

lemma parse_cidr_dotted:
  assumes "n \<le> 32"
  shows "parse_cidr (ip_to_string ip @ CHR ''/'' # to_string n) r = Inr (True, ip, of_nat n)"
proof -
  have "\<forall>x \<in> set (ip_to_string ip). x \<noteq> CHR ''/''"
    using dotted_chars is_digit_not by (fastforce simp: ip_to_string_def)
  then have "find_first (\<lambda>c. c = CHR ''/'') (ip_to_string ip @ CHR ''/'' # to_string n) 0 =
      Some (length (ip_to_string ip))" by (intro find_first_hit) auto
  then show ?thesis
    using assms
    by (simp add: parse_cidr_def stoi_to_string substr_def ip_to_string_def cidr_octets_dotted unat_octet
        ip_from_octets_octets split: prod.split)
qed

lemma load_config_nets_ok:
  assumes "load_config (p, l, lab) path contents = Inr c" and "unat l \<le> 32"
  shows "\<forall>n \<in> set (pc_networks c). unat (ce_prefix_len n) \<le> 32 \<and> ce_name n \<noteq> []"
proof -
  from assms(1) obtain body s where
    s: "fold_res load_line (getlines CHR 0x0A body) (load_start (p, l, lab)) = Inr s" "c = ld_cfg (push_net s)"
    by (auto simp: load_config_def bind_res_eq_Inr split: option.splits)
  have "nets_ok (load_start (p, l, lab))" using assms(2) by (simp add: nets_ok_def load_start_def default_config_def)
  then have "nets_ok s"
    by (rule fold_res_invariant [OF s(1), where P = "\<lambda>_. nets_ok"]) (rule load_line_ok)
  then show ?thesis using nets_ok_push [of s] s(2) by (auto simp: nets_ok_def)
qed

section \<open>The classifier of a configuration\<close>

text \<open>\<open>main\<close>: the networks are inserted in order.\<close>

definition net_entry :: "cidr_entry \<Rightarrow> u32 \<times> u8 \<times> int" where
  "net_entry n = (ce_prefix n, ce_prefix_len n, ce_label n)"

definition load_classifier :: "lpm \<Rightarrow> pipeline_config \<Rightarrow> lpm res" where
  "load_classifier t c =
     fold_res (\<lambda>n t. lpm_insert t (ce_prefix n) (ce_prefix_len n) (ce_label n)) (pc_networks c) t"

lemma load_classifier_all: "load_classifier t c = lpm_insert_all t (map net_entry (pc_networks c))"
  by (simp add: load_classifier_def lpm_insert_all_def fold_res_map net_entry_def)


section \<open>Properties\<close>

text \<open>A network written as an address and a length up to 32 is read back exactly, for every address.\<close>

theorem cidr_round_trip:
  assumes "n \<le> 32"
  shows "parse_cidr (ip_to_string ip @ CHR ''/'' # to_string n) r = Inr (True, ip, of_nat n)"
  by (rule parse_cidr_dotted [OF assms])

theorem cidr_round_trip_witness:
  "parse_cidr (ip_to_string 0x0AF40000 @ CHR ''/'' # to_string 16) (0, 0) = Inr (True, 0x0AF40000, 16)"
  using cidr_round_trip [of 16 "0x0AF40000" "(0, 0)"] by simp


definition demo_config_text :: string where
  "demo_config_text =
     ''networks:'' @ [CHR 0x0A] @ ''  - cidr: 10.244.0.0/16 # pods'' @ [CHR 0x0A] @ ''    label: 1'' @ [CHR 0x0A] @
     ''    name: pod'' @ [CHR 0x0A] @ ''  - cidr: 10.0.0.0'' @ [CHR 0x0A] @ ''    label: 7'' @ [CHR 0x0A] @
     ''    name: ten'' @ [CHR 0x0A]"

lemma demo_config_networks:
  "map_sum id pc_networks (load_config (0, 0, 0) ''c'' (Some demo_config_text)) =
     Inr [\<lparr>ce_prefix = 0x0AF40000, ce_prefix_len = 16, ce_label = 1, ce_name = ''pod''\<rparr>,
          \<lparr>ce_prefix = 0, ce_prefix_len = 0, ce_label = 7, ce_name = ''ten''\<rparr>]"
  by code_simp




end
