(* ===== verification/ConfigText.thy ===== *)
theory ConfigText
  imports Config
begin

text \<open>
  What the reader of the configuration accepts, stated from the side of who writes the file: the lines of a
  configuration in the format of \<open>config/pipeline.yaml\<close>, and that \<open>load_config\<close> gets the configuration back from
  them, with comments and blank lines anywhere between.
\<close>

section \<open>Writing a configuration\<close>

definition in_quotes :: "string \<Rightarrow> string" where
  "in_quotes v = [CHR 0x22] @ v @ [CHR 0x22]"

definition opens :: "nat \<Rightarrow> string \<Rightarrow> string" where
  "opens n k = replicate n CHR '' '' @ k @ '':''"

definition field :: "nat \<Rightarrow> string \<Rightarrow> string \<Rightarrow> string" where
  "field n k v = replicate n CHR '' '' @ k @ '': '' @ v"

text \<open>An algorithm is written with its name and any of its numbers; the others keep their defaults. A handler is written
  with a list of its parameters.\<close>

type_synonym written_algorithm = "string \<times> (string \<times> int) list"
type_synonym written_handler = "string \<times> (string \<times> string) list"

definition set_number :: "string \<times> int \<Rightarrow> algorithm_config \<Rightarrow> algorithm_config" where
  "set_number = (\<lambda>(k, v) a.
     if k = ''width'' then a\<lparr>ac_width := v\<rparr> else if k = ''depth'' then a\<lparr>ac_depth := v\<rparr>
     else if k = ''threshold'' then a\<lparr>ac_threshold := v\<rparr> else if k = ''max_hops'' then a\<lparr>ac_max_hops := v\<rparr> else a)"

definition algorithm_of :: "written_algorithm \<Rightarrow> algorithm_config \<Rightarrow> algorithm_config" where
  "algorithm_of = (\<lambda>(name, numbers) a. fold set_number numbers (a\<lparr>ac_name := name\<rparr>))"

definition params_lines :: "('v \<Rightarrow> string) \<Rightarrow> (string \<times> 'v) list \<Rightarrow> string list" where
  "params_lines show_value ps =
     (if ps = [] then [] else opens 4 ''params'' # map (\<lambda>(k, v). field 6 k (show_value v)) ps)"

definition algorithm_lines :: "string \<Rightarrow> written_algorithm \<Rightarrow> string list" where
  "algorithm_lines sub = (\<lambda>(name, numbers).
     opens 2 sub # field 4 ''name'' (in_quotes name) # params_lines int_to_string numbers)"

text \<open>What is written: the four algorithms and the handlers; the rest is as in the configuration.\<close>

record written =
  wr_frequency :: written_algorithm
  wr_scc :: written_algorithm
  wr_reachability :: written_algorithm
  wr_ip_classifier :: written_algorithm
  wr_handlers :: "written_handler list"

definition algorithms_lines :: "written \<Rightarrow> string list" where
  "algorithms_lines w =
     opens 0 ''algorithms'' # algorithm_lines ''frequency_estimator'' (wr_frequency w) @
     algorithm_lines ''scc_detector'' (wr_scc w) @ algorithm_lines ''reachability'' (wr_reachability w) @
     algorithm_lines ''ip_classifier'' (wr_ip_classifier w)"

definition net_lines :: "cidr_entry \<Rightarrow> string list" where
  "net_lines n =
     [field 2 ''- cidr'' (in_quotes (ip_to_string (ce_prefix n) @ ''/'' @ to_string (unat (ce_prefix_len n)))),
      field 4 ''label'' (int_to_string (ce_label n)), field 4 ''name'' (in_quotes (ce_name n))]"

definition handler_of :: "written_handler \<Rightarrow> handler_config" where
  "handler_of = (\<lambda>(name, params). \<lparr>hc_name = name, hc_params = map_of params\<rparr>)"

definition handler_lines :: "written_handler \<Rightarrow> string list" where
  "handler_lines = (\<lambda>(name, params). field 2 ''- name'' (in_quotes name) # params_lines in_quotes params)"

definition rule_lines :: "severity_rule \<Rightarrow> string list" where
  "rule_lines r =
     [field 2 ''- type'' (in_quotes (sr_alert_type r)), field 4 ''severity'' (in_quotes (sr_severity r))]"

definition config_lines :: "written \<Rightarrow> pipeline_config \<Rightarrow> string list" where
  "config_lines w c =
     algorithms_lines w @
     opens 0 ''networks'' # concat (map net_lines (pc_networks c)) @
     [opens 0 ''event_source'', field 2 ''type'' (in_quotes (pc_event_source_type c)),
      field 2 ''path'' (in_quotes (pc_event_source_path c)),
      opens 0 ''analysis'', field 2 ''window_seconds'' (int_to_string (pc_window_seconds c)),
      field 2 ''scc_interval_seconds'' (int_to_string (pc_scc_interval_seconds c)),
      field 2 ''snapshot_interval_seconds'' (int_to_string (pc_snapshot_interval_seconds c)),
      opens 0 ''output'', field 2 ''alerts_file'' (in_quotes (pc_alerts_file c)),
      field 2 ''graph_file'' (in_quotes (pc_graph_file c)), field 2 ''stats_file'' (in_quotes (pc_stats_file c)),
      opens 0 ''alert_handlers''] @ concat (map handler_lines (wr_handlers w)) @
     opens 0 ''severity_rules'' # concat (map rule_lines (pc_severity_rules c)) @
     [opens 0 ''soc'', field 2 ''node_name'' (in_quotes (pc_node_name c)),
      field 2 ''namespace'' (in_quotes (pc_namespace c))]"

section \<open>What can be written\<close>

text \<open>A text without the characters that end a line or start a comment, and whose ends \<open>trim\<close> leaves alone.\<close>

definition clean :: "string \<Rightarrow> bool" where
  "clean v \<longleftrightarrow> CHR ''#'' \<notin> set v \<and> CHR 0x0A \<notin> set v \<and>
     (v \<noteq> [] \<longrightarrow> \<not> trimmable (hd v) \<and> \<not> trimmable (last v))"

definition key_ok :: "string \<Rightarrow> bool" where
  "key_ok k \<longleftrightarrow> clean k \<and> k \<noteq> [] \<and> CHR '':'' \<notin> set k"

definition int_ok :: "int \<Rightarrow> bool" where
  "int_ok i \<longleftrightarrow> - (2 ^ 31) \<le> i \<and> i < 2 ^ 31"

definition algorithm_ok :: "written_algorithm \<Rightarrow> bool" where
  "algorithm_ok = (\<lambda>(name, numbers). clean name \<and>
     (\<forall>(k, v) \<in> set numbers. k \<in> {''width'', ''depth'', ''threshold'', ''max_hops''} \<and> int_ok v))"

definition net_ok :: "cidr_entry \<Rightarrow> bool" where
  "net_ok n \<longleftrightarrow> unat (ce_prefix_len n) \<le> 32 \<and> int_ok (ce_label n) \<and> ce_name n \<noteq> [] \<and> clean (ce_name n)"

definition handler_ok :: "written_handler \<Rightarrow> bool" where
  "handler_ok = (\<lambda>(name, params). clean name \<and> distinct (map fst params) \<and>
     (\<forall>(k, v) \<in> set params. key_ok k \<and> hd k \<noteq> CHR ''-'' \<and> k \<notin> {''name'', ''params''} \<and> clean v))"

definition config_ok :: "written \<Rightarrow> pipeline_config \<Rightarrow> bool" where
  "config_ok w c \<longleftrightarrow>
     algorithm_ok (wr_frequency w) \<and> pc_frequency c = algorithm_of (wr_frequency w) default_algorithm \<and>
     algorithm_ok (wr_scc w) \<and> pc_scc c = algorithm_of (wr_scc w) default_algorithm \<and>
     algorithm_ok (wr_reachability w) \<and> pc_reachability c = algorithm_of (wr_reachability w) default_algorithm \<and>
     algorithm_ok (wr_ip_classifier w) \<and> pc_ip_classifier c = algorithm_of (wr_ip_classifier w) default_algorithm \<and>
     list_all net_ok (pc_networks c) \<and> clean (pc_event_source_type c) \<and> clean (pc_event_source_path c) \<and>
     int_ok (pc_window_seconds c) \<and> int_ok (pc_scc_interval_seconds c) \<and> int_ok (pc_snapshot_interval_seconds c) \<and>
     clean (pc_alerts_file c) \<and> clean (pc_graph_file c) \<and> clean (pc_stats_file c) \<and>
     list_all handler_ok (wr_handlers w) \<and> pc_alert_handlers c = map handler_of (wr_handlers w) \<and>
     list_all (\<lambda>r. clean (sr_alert_type r) \<and> clean (sr_severity r)) (pc_severity_rules c) \<and>
     clean (pc_node_name c) \<and> clean (pc_namespace c)"

section \<open>Trimming\<close>

lemma trim_pad:
  assumes "\<forall>c \<in> set p. trimmable c" and "\<forall>c \<in> set q. trimmable c"
    and "s \<noteq> [] \<longrightarrow> \<not> trimmable (hd s) \<and> \<not> trimmable (last s)"
  shows "trim (p @ s @ q) = s"
proof (cases "s = []")
  case True
  with assms(1,2) have "find_first (\<lambda>c. \<not> trimmable c) (p @ s @ q) 0 = None" by (auto simp: find_first_None)
  with True show ?thesis by (simp add: trim_def)
next
  case False
  let ?s = "p @ s @ q"
  obtain c s' where c: "s = c # s'" using False by (cases s) auto
  obtain d r where d: "s = r @ [d]" using False by (cases s rule: rev_cases) auto
  have "find_first (\<lambda>c. \<not> trimmable c) (p @ c # s' @ q) 0 = Some (length p)"
    using assms(1,3) by (intro find_first_hit) (auto simp: c)
  then have first: "find_first (\<lambda>c. \<not> trimmable c) ?s 0 = Some (length p)" by (simp add: c)
  have "find_first (\<lambda>c. \<not> trimmable c) (rev q @ d # rev r @ rev p) 0 = Some (length (rev q))"
    using assms(2,3) by (intro find_first_hit) (auto simp: d)
  then have "index_from (\<lambda>c. \<not> trimmable c) (rev ?s) 0 = Some (length q)" by (simp add: find_first_def d)
  then have "find_last (\<lambda>c. \<not> trimmable c) ?s = Some (length p + length s - 1)"
    by (simp add: find_last_def c)
  with first False show ?thesis by (simp add: trim_def substr_def)
qed

lemma clean_ends: "clean v \<Longrightarrow> v \<noteq> [] \<longrightarrow> \<not> trimmable (hd v) \<and> \<not> trimmable (last v)"
  by (simp add: clean_def)

lemma trimmable_pads [simp]:
  "trimmable CHR '' ''" "trimmable CHR 0x22" "\<not> trimmable CHR '':''" "\<not> trimmable CHR ''-''"
  by (simp_all add: trimmable_def)

lemma trim_quoted: "clean v \<Longrightarrow> trim (CHR '' '' # in_quotes v) = v" "clean v \<Longrightarrow> trim (CHR '' '' # v) = v"
  using trim_pad [of "[CHR '' '', CHR 0x22]" "[CHR 0x22]" v] trim_pad [of "[CHR '' '']" "[]" v] clean_ends [of v]
  by (simp_all add: in_quotes_def)

lemma trim_clean: "clean v \<Longrightarrow> trim v = v"
  using trim_pad [of "[]" "[]" v] clean_ends [of v] by simp

section \<open>Integers\<close>

lemma to_string_chars: "c \<in> set (to_string n) \<Longrightarrow> \<not> trimmable c \<and> c \<noteq> CHR ''#'' \<and> c \<noteq> CHR 0x0A"
  using to_string_digits [of c n] by (auto simp: trimmable_def is_digit_def)

lemma clean_int: "clean (int_to_string i)" and int_not_Nil: "int_to_string i \<noteq> []"
proof -
  have "\<not> trimmable c \<and> c \<noteq> CHR ''#'' \<and> c \<noteq> CHR 0x0A" if "c \<in> set (int_to_string i)" for c
    using that to_string_chars by (auto simp: int_to_string_def split: if_splits)
  moreover show n: "int_to_string i \<noteq> []" by (simp add: int_to_string_def)
  ultimately show "clean (int_to_string i)" by (auto simp: clean_def)
qed

lemma stoi_int: "int_ok i \<Longrightarrow> stoi (int_to_string i) = Inr i"
proof (cases "i < 0")
  case True
  assume "int_ok i"
  have "scan_number fn (CHR ''-'' # to_string n) = Inr (True, n)" for fn n
    using to_string_digits [of _ n] by (simp add: scan_number_def takeWhile_eq_all_conv [THEN iffD2] is_space_def)
  with True \<open>int_ok i\<close> show ?thesis by (simp add: stoi_def int_to_string_def int_ok_def)
next
  case False
  assume "int_ok i"
  with False have "nat i < 2 ^ 31" by (simp add: int_ok_def nat_less_iff)
  from stoi_to_string [OF this] False show ?thesis by (simp add: int_to_string_def)
qed

section \<open>One line\<close>

lemma strip_none: "CHR ''#'' \<notin> set l \<Longrightarrow> strip_comment l = l"
proof -
  assume "CHR ''#'' \<notin> set l"
  then have "find_first (\<lambda>c. c = CHR ''#'') l 0 = None" by (auto simp: find_first_None)
  then show ?thesis by (simp add: strip_comment_def)
qed

lemma strip_takes: "strip_comment l = takeWhile (\<lambda>c. c \<noteq> CHR ''#'') l"
proof (cases "find_first (\<lambda>c. c = CHR ''#'') l 0")
  case None
  then have "\<forall>x \<in> set l. x \<noteq> CHR ''#''" by (simp add: find_first_None)
  then have l: "takeWhile (\<lambda>c. c \<noteq> CHR ''#'') l = l" by (simp only: takeWhile_eq_all_conv)
  show ?thesis by (simp only: strip_comment_def None option.case l)
next
  case (Some j)
  from find_first_Some(3) [OF this] Some show ?thesis by (simp add: strip_comment_def)
qed

text \<open>A comment changes nothing, neither do blanks at the end of a line; a blank line is passed over.\<close>

definition blank :: "char \<Rightarrow> bool" where
  "blank c \<longleftrightarrow> c \<in> {CHR '' '', CHR 0x09, CHR 0x0D}"

definition bare :: "string \<Rightarrow> string" where
  "bare l = rev (dropWhile blank (rev (strip_comment l)))"

lemma trim_parts:
  obtains p y r where "x = p @ y @ r" "\<forall>c \<in> set p. trimmable c" "\<forall>c \<in> set r. trimmable c"
    "y \<noteq> [] \<longrightarrow> \<not> trimmable (hd y) \<and> \<not> trimmable (last y)"
proof -
  let ?p = "takeWhile trimmable x" and ?x = "dropWhile trimmable x"
  let ?y = "rev (dropWhile trimmable (rev ?x))" and ?r = "rev (takeWhile trimmable (rev ?x))"
  have x: "x = ?p @ ?y @ ?r" by (metis rev_append rev_rev_ident takeWhile_dropWhile_id)
  have r: "\<forall>c \<in> set ?p. trimmable c" "\<forall>c \<in> set ?r. trimmable c" using set_takeWhileD by fastforce+
  have y: "?y \<noteq> [] \<longrightarrow> \<not> trimmable (hd ?y) \<and> \<not> trimmable (last ?y)"
  proof
    assume n: "?y \<noteq> []"
    have "hd ?x = hd ?y" using n by (metis hd_append2 rev_append rev_rev_ident takeWhile_dropWhile_id)
    moreover have "?x \<noteq> []" using n by (metis dropWhile.simps(1) rev.simps(1))
    ultimately show "\<not> trimmable (hd ?y) \<and> \<not> trimmable (last ?y)" using n by (metis hd_dropWhile last_rev rev_is_Nil_conv)
  qed
  show thesis by (rule that [OF x r y])
qed

lemma trim_blanks:
  assumes "\<forall>c \<in> set q. trimmable c"
  shows "trim (x @ q) = trim x"
proof -
  obtain p y r where x: "x = p @ y @ r" "\<forall>c \<in> set p. trimmable c" "\<forall>c \<in> set r. trimmable c"
    "y \<noteq> [] \<longrightarrow> \<not> trimmable (hd y) \<and> \<not> trimmable (last y)" by (rule trim_parts)
  have "\<forall>c \<in> set (r @ q). trimmable c" using x(3) assms by auto
  from trim_pad [OF x(2) this x(4)] trim_pad [OF x(2-4)] show ?thesis by (simp add: x(1))
qed

lemma index_from_prefix: "\<exists>c \<in> set x. P c \<Longrightarrow> index_from P (x @ q) i = index_from P x i"
  by (induction x arbitrary: i) auto

lemma load_bare: "load_line (bare l) s = load_line l s"
proof -
  let ?t = "strip_comment l" and ?q = "rev (takeWhile blank (rev (strip_comment l)))"
  have "?t = bare l @ ?q" unfolding bare_def by (metis rev_append rev_rev_ident takeWhile_dropWhile_id)
  then obtain q where t: "?t = bare l @ q" and q: "\<forall>c \<in> set q. blank c"
    using set_takeWhileD [of _ blank "rev ?t"] by (metis set_rev)
  have "CHR ''#'' \<notin> set ?t" unfolding strip_takes using set_takeWhileD by fastforce
  then have b: "strip_comment (bare l) = bare l" by (intro strip_none) (simp add: t)
  have m: "trim ?t = trim (bare l)" unfolding t using q by (intro trim_blanks) (auto simp: blank_def trimmable_def)
  have i: "find_first (\<lambda>c. c \<noteq> CHR '' '') ?t 0 = find_first (\<lambda>c. c \<noteq> CHR '' '') (bare l) 0" if "trim (bare l) \<noteq> []"
  proof -
    have "\<exists>c \<in> set (bare l). c \<noteq> CHR '' ''"
    proof (rule ccontr)
      assume "\<not> ?thesis"
      then have "\<forall>c \<in> set (bare l). trimmable c" by (auto simp: trimmable_def)
      from trim_pad [OF this, of "[]" "[]"] have "trim (bare l) = []" by simp
      with that show False by simp
    qed
    then show ?thesis by (simp add: t find_first_def index_from_prefix)
  qed
  show ?thesis
  proof (cases "trim (bare l) = []")
    case True
    then show ?thesis by (simp add: load_line_def b m)
  next
    case False
    show ?thesis unfolding load_line_def Let_def b m i [OF False] ..
  qed
qed

lemma load_blank: "trim (bare l) = [] \<Longrightarrow> load_line l s = Inr s"
proof -
  assume "trim (bare l) = []"
  moreover have "strip_comment (bare l) = bare l"
  proof (rule strip_none)
    have "set (bare l) \<subseteq> set (strip_comment l)" unfolding bare_def by (simp, metis set_dropWhileD set_rev subsetI)
    moreover have "CHR ''#'' \<notin> set (strip_comment l)" unfolding strip_takes using set_takeWhileD by fastforce
    ultimately show "CHR ''#'' \<notin> set (bare l)" by blast
  qed
  ultimately have "load_line (bare l) s = Inr s" by (simp add: load_line_def Let_def)
  then show ?thesis by (simp add: load_bare)
qed

definition in_section :: "nat \<Rightarrow> string \<Rightarrow> string \<Rightarrow> string \<Rightarrow> loader \<Rightarrow> loader res" where
  "in_section indent trimmed key val s =
     (case ld_section s of
        ALGORITHMS \<Rightarrow> algorithm_line indent key val s
      | NETWORKS \<Rightarrow> network_line trimmed key val s
      | EVENT_SOURCE \<Rightarrow> Inr (s\<lparr>ld_cfg := event_source_line key val (ld_cfg s)\<rparr>)
      | ANALYSIS \<Rightarrow> bind_res (analysis_line key val (ld_cfg s)) (\<lambda>c. Inr (s\<lparr>ld_cfg := c\<rparr>))
      | OUTPUT \<Rightarrow> Inr (s\<lparr>ld_cfg := output_line key val (ld_cfg s)\<rparr>)
      | ALERT_HANDLERS \<Rightarrow> Inr (handler_line trimmed key val s)
      | SEVERITY_RULES \<Rightarrow> Inr (rule_line trimmed key val s)
      | SOC \<Rightarrow> Inr (s\<lparr>ld_cfg := soc_line key val (ld_cfg s)\<rparr>)
      | _ \<Rightarrow> Inr s)"

lemma load_body:
  assumes "\<forall>c \<in> set pad. trimmable c" and "body \<noteq> []" and "\<not> trimmable (hd body)" and "\<not> trimmable (last body)"
    and "CHR ''#'' \<notin> set (body @ pad)"
  shows "load_line (replicate n CHR '' '' @ body @ pad) s =
    (if n = 0 then Inr (top_line (extract_key body) s)
     else in_section n body (extract_key body) (extract_value body) s)"
proof -
  let ?l = "replicate n CHR '' '' @ body @ pad"
  obtain c b where c: "body = c # b" using assms(2) by (cases body) auto
  have "strip_comment ?l = ?l" using assms(5) by (intro strip_none) auto
  moreover have "trim ?l = body" using assms by (intro trim_pad) auto
  moreover have "find_first (\<lambda>c. c \<noteq> CHR '' '') (replicate n CHR '' '' @ c # b @ pad) 0 = Some (length (replicate n CHR '' ''))"
    using assms(3) by (intro find_first_hit) (auto simp: c trimmable_def)
  then have "find_first (\<lambda>c. c \<noteq> CHR '' '') ?l 0 = Some n" by (simp add: c)
  ultimately show ?thesis using assms(2)
    by (simp add: load_line_def in_section_def Let_def cong: config_section.case_cong)
qed

lemma extract_field:
  assumes "key_ok k"
  shows "extract_key (k @ CHR '':'' # r) = k" and "extract_value (k @ CHR '':'' # r) = trim r"
proof -
  have k: "clean k" "CHR '':'' \<notin> set k" using assms by (simp_all add: key_ok_def)
  then have "find_first (\<lambda>c. c = CHR '':'') (k @ CHR '':'' # r) 0 = Some (length k)" by (intro find_first_hit) auto
  then show "extract_key (k @ CHR '':'' # r) = k" and "extract_value (k @ CHR '':'' # r) = trim r"
    by (simp_all add: extract_key_def extract_value_def substr_def trim_clean [OF k(1)])
qed

lemma key_ends: "key_ok k \<Longrightarrow> k \<noteq> [] \<and> \<not> trimmable (hd k) \<and> CHR ''#'' \<notin> set k"
  by (simp add: key_ok_def clean_def)

lemma load_opens:
  assumes "key_ok k"
  shows "load_line (opens n k) s =
    (if n = 0 then Inr (top_line k s) else in_section n (k @ '':'') k '''' s)"
  using load_body [of "[]" "k @ '':''" n s] extract_field [OF assms, of "[]"] key_ends [OF assms] trim_pad [of "[]" "[]" "[]"]
  by (simp add: opens_def)

definition stem :: "string \<Rightarrow> string \<Rightarrow> string" where
  "stem k v = k @ CHR '':'' # (if v = [] then [] else [CHR '' '', CHR 0x22] @ v)"

lemma load_text:
  assumes "key_ok k" and "clean v" and "0 < n"
  shows "load_line (field n k (in_quotes v)) s = in_section n (stem k v) k v s"
proof -
  let ?pad = "if v = [] then [CHR '' '', CHR 0x22, CHR 0x22] else [CHR 0x22]"
  have "trim [] = []" "trim (CHR '' '' # CHR 0x22 # v) = v"
    using trim_pad [of "[]" "[]" "[]"] trim_pad [of "[CHR '' '', CHR 0x22]" "[]" v] clean_ends [OF assms(2)] by simp_all
  then have e: "extract_key (stem k v) = k" "extract_value (stem k v) = v"
    unfolding stem_def by (simp_all add: extract_field [OF assms(1)])
  have "\<not> trimmable (last (stem k v))" "\<not> trimmable (hd (stem k v))" "CHR ''#'' \<notin> set (stem k v)" "stem k v \<noteq> []"
    using clean_ends [OF assms(2)] assms(2) key_ends [OF assms(1)] by (auto simp: stem_def clean_def)
  moreover have "field n k (in_quotes v) = replicate n CHR '' '' @ stem k v @ ?pad"
    by (simp add: field_def in_quotes_def stem_def)
  ultimately show ?thesis using load_body [of ?pad "stem k v" n s] assms(3) by (simp add: e)
qed

lemma load_int:
  assumes "key_ok k" and "0 < n"
  shows "load_line (field n k (int_to_string i)) s = in_section n (k @ '': '' @ int_to_string i) k (int_to_string i) s"
proof -
  let ?b = "k @ CHR '':'' # CHR '' '' # int_to_string i"
  have "trim (CHR '' '' # int_to_string i) = int_to_string i" by (rule trim_quoted(2) [OF clean_int])
  then have e: "extract_key ?b = k" "extract_value ?b = int_to_string i" by (simp_all add: extract_field [OF assms(1)])
  have "\<not> trimmable (last ?b)" "\<not> trimmable (hd ?b)" "CHR ''#'' \<notin> set ?b"
    using clean_ends [OF clean_int [of i]] clean_int [of i] key_ends [OF assms(1)] int_not_Nil [of i] by (auto simp: clean_def)
  with load_body [of "[]" ?b n s] assms(2) show ?thesis by (simp add: field_def e)
qed

section \<open>The sections\<close>

text \<open>The section, the configuration and the network read last; the other fields of the reader only matter inside a
  section. \<open>reads\<close> says what lines do to these, as a triple.\<close>

definition reader_at :: "config_section \<Rightarrow> pipeline_config \<Rightarrow> cidr_entry \<Rightarrow> loader \<Rightarrow> bool" where
  "reader_at sec c n s \<longleftrightarrow> ld_section s = sec \<and> ld_cfg s = c \<and> ld_net s = n"

definition reads ::
  "string list \<Rightarrow> config_section \<times> pipeline_config \<times> cidr_entry \<Rightarrow> config_section \<times> pipeline_config \<times> cidr_entry \<Rightarrow> bool" where
  "reads ls = (\<lambda>(sec, c, n) (sec', c', n').
     \<forall>s. reader_at sec c n s \<longrightarrow> (\<exists>s'. fold_res load_line ls s = Inr s' \<and> reader_at sec' c' n' s'))"

lemma reads_append: "reads xs p q \<Longrightarrow> reads ys q r \<Longrightarrow> reads (xs @ ys) p r"
  by (fastforce simp: reads_def fold_res_append)

lemma reads_Cons: "reads [x] p q \<Longrightarrow> reads ys q r \<Longrightarrow> reads (x # ys) p r"
  using reads_append [of "[x]"] by simp

lemma reads_Nil: "reads [] p p"
  by (auto simp: reads_def)

lemma reads_line:
  assumes "\<And>s. reader_at sec c n s \<Longrightarrow> \<exists>s'. load_line l s = Inr s' \<and> reader_at sec' c' n' s'"
  shows "reads [l] (sec, c, n) (sec', c', n')"
  unfolding reads_def
proof (clarify)
  fix s
  assume "reader_at sec c n s"
  from assms [OF this] show "\<exists>s'. fold_res load_line [l] s = Inr s' \<and> reader_at sec' c' n' s'" by auto
qed

lemma keys:
  "list_all key_ok [''algorithms'', ''networks'', ''event_source'', ''analysis'', ''output'', ''alert_handlers'',
     ''severity_rules'', ''soc'', ''frequency_estimator'', ''scc_detector'', ''reachability'', ''ip_classifier'',
     ''name'', ''params'', ''width'', ''depth'', ''threshold'', ''max_hops'', ''- cidr'', ''label'', ''type'', ''path'',
     ''window_seconds'', ''scc_interval_seconds'', ''snapshot_interval_seconds'', ''alerts_file'', ''graph_file'',
     ''stats_file'', ''- name'', ''- type'', ''severity'', ''node_name'', ''namespace'']"
  by code_simp

lemmas key_facts = keys [unfolded list.pred_inject]

fun algorithm_at :: "config_section \<Rightarrow> pipeline_config \<Rightarrow> algorithm_config" where
  "algorithm_at FREQ c = pc_frequency c"
| "algorithm_at SCC c = pc_scc c"
| "algorithm_at REACH c = pc_reachability c"
| "algorithm_at other c = pc_ip_classifier c"

fun put_algorithm :: "config_section \<Rightarrow> algorithm_config \<Rightarrow> pipeline_config \<Rightarrow> pipeline_config" where
  "put_algorithm FREQ a c = c\<lparr>pc_frequency := a\<rparr>"
| "put_algorithm SCC a c = c\<lparr>pc_scc := a\<rparr>"
| "put_algorithm REACH a c = c\<lparr>pc_reachability := a\<rparr>"
| "put_algorithm other a c = c\<lparr>pc_ip_classifier := a\<rparr>"

lemma algorithm_put:
  "put_algorithm sec (algorithm_at sec c) c = c" "put_algorithm sec a (put_algorithm sec b c) = put_algorithm sec a c"
  "algorithm_at sec (put_algorithm sec a c) = a"
  by (cases sec; simp)+

lemma on_target_put:
  "algo_section sub = Some sec \<Longrightarrow>
    on_target sec f c = bind_res (f (algorithm_at sec c)) (\<lambda>a. Inr (put_algorithm sec a c))"
  by (auto simp: algo_section_def split: if_splits)

lemma set_param_number:
  assumes "k \<in> {''width'', ''depth'', ''threshold'', ''max_hops''}" and "int_ok v"
  shows "set_param True k (int_to_string v) a = Inr (set_number (k, v) a)"
  using assms by (auto simp: set_param_def set_number_def stoi_int Let_def)

lemma load_numbers:
  assumes "\<forall>(k, v) \<in> set ps. k \<in> {''width'', ''depth'', ''threshold'', ''max_hops''} \<and> int_ok v"
    and "ld_section s = ALGORITHMS" and "ld_algo_sub s = sec" and "algo_section sub = Some sec"
  shows "fold_res load_line (map (\<lambda>(k, v). field 6 k (int_to_string v)) ps) s =
    Inr (s\<lparr>ld_cfg := put_algorithm sec (fold set_number ps (algorithm_at sec (ld_cfg s))) (ld_cfg s)\<rparr>)"
  using assms(1-3)
proof (induction ps arbitrary: s)
  case Nil
  then show ?case by (simp add: algorithm_put)
next
  case (Cons p ps)
  obtain k v where p: "p = (k, v)" by (cases p)
  have kv: "k \<in> {''width'', ''depth'', ''threshold'', ''max_hops''}" "int_ok v" using Cons.prems(1) by (auto simp: p)
  then have k: "key_ok k" "k \<noteq> ''params''" using key_facts by auto
  let ?s = "s\<lparr>ld_cfg := put_algorithm sec (set_number (k, v) (algorithm_at sec (ld_cfg s))) (ld_cfg s)\<rparr>"
  have "load_line (field 6 k (int_to_string v)) s = Inr ?s"
    using Cons.prems(2,3) k
    by (simp add: load_int in_section_def algorithm_line_def on_target_put [OF assms(4)] set_param_number [OF kv])
  moreover have "fold_res load_line (map (\<lambda>(k, v). field 6 k (int_to_string v)) ps) ?s =
    Inr (?s\<lparr>ld_cfg := put_algorithm sec (fold set_number ps (algorithm_at sec (ld_cfg ?s))) (ld_cfg ?s)\<rparr>)"
    using Cons.prems by (intro Cons.IH) simp_all
  ultimately show ?case by (simp add: p algorithm_put)
qed

lemma reads_algorithm:
  assumes "algorithm_ok a" and "algo_section sub = Some sec"
  shows "reads (algorithm_lines sub a) (ALGORITHMS, c, n)
    (ALGORITHMS, put_algorithm sec (algorithm_of a (algorithm_at sec c)) c, n)"
  unfolding reads_def
proof (clarify)
  fix s
  assume s: "reader_at ALGORITHMS c n s"
  obtain nm ps where a: "a = (nm, ps)" by (cases a)
  have nm: "clean nm" and ps: "\<forall>(k, v) \<in> set ps. k \<in> {''width'', ''depth'', ''threshold'', ''max_hops''} \<and> int_ok v"
    using assms(1) by (auto simp: algorithm_ok_def a)
  have sub: "key_ok sub" using assms(2) key_facts by (auto simp: algo_section_def split: if_splits)
  have none: "algo_section ''name'' = None" "algo_section ''params'' = None" by (simp_all add: algo_section_def)
  let ?c = "put_algorithm sec ((algorithm_at sec c)\<lparr>ac_name := nm\<rparr>) c"
  let ?s = "\<lambda>b. s\<lparr>ld_cfg := ?c, ld_algo_sub := sec, ld_in_params := b\<rparr>"
  have "fold_res load_line [opens 2 sub, field 4 ''name'' (in_quotes nm)] s = Inr (?s False)"
    using s by (simp add: load_opens [OF sub] load_text key_facts nm in_section_def algorithm_line_def assms(2) none
        on_target_put [OF assms(2)] set_param_def Let_def reader_at_def)
  moreover have "load_line (opens 4 ''params'') (?s False) = Inr (?s True)"
    using s by (simp add: load_opens key_facts in_section_def algorithm_line_def none Let_def reader_at_def)
  moreover have "fold_res load_line (map (\<lambda>(k, v). field 6 k (int_to_string v)) ps) (?s True) =
      Inr ((?s True)\<lparr>ld_cfg := put_algorithm sec (fold set_number ps (algorithm_at sec (ld_cfg (?s True)))) (ld_cfg (?s True))\<rparr>)"
    using s by (intro load_numbers [OF ps _ _ assms(2)]) (simp_all add: reader_at_def)
  moreover have "algorithm_lines sub a = [opens 2 sub, field 4 ''name'' (in_quotes nm)] @ params_lines int_to_string ps"
    by (simp add: algorithm_lines_def a)
  ultimately show "\<exists>s'. fold_res load_line (algorithm_lines sub a) s = Inr s' \<and>
      reader_at ALGORITHMS (put_algorithm sec (algorithm_of a (algorithm_at sec c)) c) n s'"
    using s by (simp only: fold_res_append bind_res.simps)
      (auto simp: params_lines_def algorithm_of_def a algorithm_put reader_at_def)
qed

lemma reads_top:
  assumes "top_section k = Some sec'"
  shows "reads [opens 0 k] (sec, c, n) (sec', c, n)"
proof -
  have "key_ok k" using assms key_facts by (auto simp: top_section_def split: if_splits)
  with assms show ?thesis
    by (intro reads_line) (auto simp: load_opens top_line_def Let_def reader_at_def)
qed

lemma reads_text:
  assumes "key_ok k" and "clean v"
  shows "reads [field 2 k (in_quotes v)] (EVENT_SOURCE, c, n) (EVENT_SOURCE, event_source_line k v c, n)"
    and "reads [field 2 k (in_quotes v)] (OUTPUT, c, n) (OUTPUT, output_line k v c, n)"
    and "reads [field 2 k (in_quotes v)] (SOC, c, n) (SOC, soc_line k v c, n)"
  by (rule reads_line; simp add: load_text [OF assms] in_section_def reader_at_def)+

lemma reads_interval:
  assumes "key_ok k" and "int_ok i" and "\<And>c. analysis_line k (int_to_string i) c = Inr (f c)"
  shows "reads [field 2 k (int_to_string i)] (ANALYSIS, c, n) (ANALYSIS, f c, n)"
  by (rule reads_line) (simp add: load_int assms in_section_def reader_at_def)

text \<open>Networks: the last one is still with the reader.\<close>

definition pending :: "cidr_entry \<Rightarrow> cidr_entry list" where
  "pending n = (if ce_name n = [] then [] else [n])"

lemma clean_cidr: "clean (ip_to_string p @ CHR ''/'' # to_string l)"
proof -
  have "\<not> trimmable x \<and> x \<noteq> CHR ''#'' \<and> x \<noteq> CHR 0x0A" if "x \<in> set (ip_to_string p)" for x
    using that to_string_chars by (auto simp: ip_to_string_def dotted_def trimmable_def)
  moreover have "ip_to_string p \<noteq> []" by (simp add: ip_to_string_def dotted_def)
  ultimately show ?thesis using to_string_chars to_string_chars [OF last_in_set [OF to_string_not_Nil]] by (auto simp: clean_def)
qed

lemma net_fields:
  "\<lparr>ce_prefix = ce_prefix m, ce_prefix_len = ce_prefix_len m, ce_label = ce_label m, ce_name = ce_name m\<rparr> = m"
  by (rule cidr_entry.equality) simp_all

lemma reads_net:
  assumes "net_ok m"
  shows "reads (net_lines m) (NETWORKS, c, n) (NETWORKS, c\<lparr>pc_networks := pc_networks c @ pending n\<rparr>, m)"
  unfolding reads_def
proof (clarify)
  fix s
  assume s: "reader_at NETWORKS c n s"
  let ?v = "ip_to_string (ce_prefix m) @ CHR ''/'' # to_string (unat (ce_prefix_len m))"
  have m: "unat (ce_prefix_len m) \<le> 32" "int_ok (ce_label m)" "clean (ce_name m)" using assms by (simp_all add: net_ok_def)
  have "stem ''- cidr'' ?v = ''- cidr: '' @ CHR 0x22 # ?v" by (simp add: stem_def)
  then have pos: "find_str ''cidr:'' (stem ''- cidr'' ?v) = Some 2" "drop 7 (stem ''- cidr'' ?v) = CHR '' '' # CHR 0x22 # ?v"
    by (simp_all add: find_str_def)
  have t: "trim (CHR '' '' # CHR 0x22 # ?v) = ?v"
    using trim_pad [of "[CHR '' '', CHR 0x22]" "[]" ?v] clean_ends [OF clean_cidr] by simp
  have "of_nat (unat (ce_prefix_len m)) = ce_prefix_len m" by simp
  with parse_cidr_dotted [OF m(1)] have net: "net_of_cidr ?v empty_net = Inr (empty_net\<lparr>ce_prefix := ce_prefix m, ce_prefix_len := ce_prefix_len m\<rparr>)"
    by (simp add: net_of_cidr_def)
  show "\<exists>s'. fold_res load_line (net_lines m) s = Inr s' \<and>
      reader_at NETWORKS (c\<lparr>pc_networks := pc_networks c @ pending n\<rparr>) m s'"
    using s unfolding net_lines_def
    by (simp add: load_text load_int key_facts clean_cidr m in_section_def network_line_def pos t net stoi_int
        reader_at_def push_net_def pending_def)
      (auto simp: empty_net_def net_fields stem_def find_str_def)
qed

lemma reads_nets:
  assumes "list_all net_ok ms"
  shows "\<exists>n' nets. reads (concat (map net_lines ms)) (NETWORKS, c, n) (NETWORKS, c\<lparr>pc_networks := nets\<rparr>, n') \<and>
    nets @ pending n' = pc_networks c @ pending n @ ms"
  using assms
proof (induction ms arbitrary: c n)
  case Nil
  have "c\<lparr>pc_networks := pc_networks c\<rparr> = c" by simp
  then show ?case by (metis append_Nil2 concat.simps(1) list.map(1) reads_Nil)
next
  case (Cons m ms)
  let ?c = "c\<lparr>pc_networks := pc_networks c @ pending n\<rparr>"
  have m: "net_ok m" "pending m = [m]" and ms: "list_all net_ok ms"
    using Cons.prems by (simp_all, simp add: pending_def net_ok_def)
  obtain n' nets where t: "reads (concat (map net_lines ms)) (NETWORKS, ?c, m) (NETWORKS, ?c\<lparr>pc_networks := nets\<rparr>, n')"
      "nets @ pending n' = pc_networks ?c @ pending m @ ms"
    using Cons.IH [OF ms, of ?c m] by blast
  have "?c\<lparr>pc_networks := nets\<rparr> = c\<lparr>pc_networks := nets\<rparr>" by simp
  with t(1) reads_append [OF reads_net [OF m(1)]]
  have "reads (concat (map net_lines (m # ms))) (NETWORKS, c, n) (NETWORKS, c\<lparr>pc_networks := nets\<rparr>, n')"
    by (metis concat.simps(2) list.map(2))
  moreover have "nets @ pending n' = pc_networks c @ pending n @ m # ms" using t(2) m(2) by simp
  ultimately show ?case by blast
qed

text \<open>Handlers and severity rules\<close>

lemma map_last_snoc: "map_last f (xs @ [x]) = xs @ [f x]"
  by (simp add: map_last_def)

fun put_all :: "('k \<times> 'v) list \<Rightarrow> ('k \<rightharpoonup> 'v) \<Rightarrow> ('k \<rightharpoonup> 'v)" where
  "put_all [] m = m"
| "put_all ((k, v) # ps) m = put_all ps (m(k \<mapsto> v))"

lemma load_params:
  assumes "\<forall>(k, v) \<in> set ps. key_ok k \<and> hd k \<noteq> CHR ''-'' \<and> k \<notin> {''name'', ''params''} \<and> clean v"
    and "ld_section s = ALERT_HANDLERS" and "ld_handler s" and "ld_in_handler_params s"
    and "pc_alert_handlers (ld_cfg s) = hs @ [e]"
  shows "fold_res load_line (map (\<lambda>(k, v). field 6 k (in_quotes v)) ps) s =
    Inr (s\<lparr>ld_cfg := (ld_cfg s)\<lparr>pc_alert_handlers :=
      hs @ [e\<lparr>hc_params := put_all ps (hc_params e)\<rparr>]\<rparr>\<rparr>)"
  using assms
proof (induction ps arbitrary: s e)
  case Nil
  have "(ld_cfg s)\<lparr>pc_alert_handlers := hs @ [e]\<rparr> = ld_cfg s" using Nil.prems(5) by simp
  then show ?case by simp
next
  case (Cons p ps)
  obtain k v where p: "p = (k, v)" by (cases p)
  let ?e = "e\<lparr>hc_params := (hc_params e)(k \<mapsto> v)\<rparr>"
  let ?s = "s\<lparr>ld_cfg := (ld_cfg s)\<lparr>pc_alert_handlers := hs @ [?e]\<rparr>\<rparr>"
  have k: "key_ok k" "hd (stem k v) \<noteq> CHR ''-''" "k \<noteq> ''name''" "k \<noteq> ''params''" "clean v"
    using Cons.prems(1) by (auto simp: p stem_def key_ok_def)
  have "load_line (field 6 k (in_quotes v)) s = Inr ?s"
    using Cons.prems(2-5) k
    by (simp add: load_text in_section_def handler_line_def on_handler_def map_last_snoc)
  moreover have "fold_res load_line (map (\<lambda>(k, v). field 6 k (in_quotes v)) ps) ?s =
    Inr (?s\<lparr>ld_cfg := (ld_cfg ?s)\<lparr>pc_alert_handlers :=
      hs @ [?e\<lparr>hc_params := put_all ps (hc_params ?e)\<rparr>]\<rparr>\<rparr>)"
    using Cons.prems by (intro Cons.IH) simp_all
  ultimately show ?case by (simp add: p)
qed

lemma put_all_map_of: "distinct (map fst ps) \<Longrightarrow> put_all ps m = m ++ map_of ps"
proof (induction ps arbitrary: m)
  case (Cons p ps)
  obtain k v where p: "p = (k, v)" by (cases p)
  have "k \<notin> dom (map_of ps)" using Cons.prems by (simp add: p dom_map_of_conv_image_fst)
  then have "m(k \<mapsto> v) ++ map_of ps = (m ++ map_of ps)(k \<mapsto> v)" by (simp add: map_add_upd_left)
  moreover have "put_all ps (m(k \<mapsto> v)) = m(k \<mapsto> v) ++ map_of ps" using Cons by simp
  ultimately show ?case by (simp only: p put_all.simps map_of.simps fst_conv snd_conv map_add_upd)
qed simp

lemma reads_handler:
  assumes "handler_ok h"
  shows "reads (handler_lines h) (ALERT_HANDLERS, c, n)
    (ALERT_HANDLERS, c\<lparr>pc_alert_handlers := pc_alert_handlers c @ [handler_of h]\<rparr>, n)"
  unfolding reads_def
proof (clarify)
  fix s
  assume s: "reader_at ALERT_HANDLERS c n s"
  obtain nm ps where h: "h = (nm, ps)" by (cases h)
  have nm: "clean nm" and d: "distinct (map fst ps)"
    and ps: "\<forall>(k, v) \<in> set ps. key_ok k \<and> hd k \<noteq> CHR ''-'' \<and> k \<notin> {''name'', ''params''} \<and> clean v"
    using assms by (auto simp: handler_ok_def h)
  let ?e = "\<lparr>hc_name = nm, hc_params = \<lambda>_. None\<rparr>"
  let ?s = "\<lambda>b. s\<lparr>ld_cfg := c\<lparr>pc_alert_handlers := pc_alert_handlers c @ [?e]\<rparr>, ld_handler := True,
    ld_in_handler_params := b\<rparr>"
  have "trim (drop 7 (stem ''- name'' nm)) = nm"
    using trim_pad [of "[CHR '' '', CHR 0x22]" "[]" nm] trim_pad [of "[]" "[]" "[]"] clean_ends [OF nm]
    by (simp add: stem_def)
  moreover have "find_str ''name:'' (stem ''- name'' nm) = Some 2" "hd (stem ''- name'' nm) = CHR ''-''"
    by (simp_all add: stem_def find_str_def)
  ultimately have "load_line (field 2 ''- name'' (in_quotes nm)) s = Inr (?s False)"
    using s by (simp add: load_text key_facts nm in_section_def handler_line_def reader_at_def Let_def)
  moreover have "load_line (opens 4 ''params'') (?s False) = Inr (?s True)"
    using s by (simp add: load_opens key_facts in_section_def handler_line_def reader_at_def)
  moreover have "fold_res load_line (map (\<lambda>(k, v). field 6 k (in_quotes v)) ps) (?s True) =
      Inr ((?s True)\<lparr>ld_cfg := (ld_cfg (?s True))\<lparr>pc_alert_handlers :=
        pc_alert_handlers c @ [?e\<lparr>hc_params := put_all ps (hc_params ?e)\<rparr>]\<rparr>\<rparr>)"
    using s by (intro load_params [OF ps]) (simp_all add: reader_at_def)
  ultimately show "\<exists>s'. fold_res load_line (handler_lines h) s = Inr s' \<and>
      reader_at ALERT_HANDLERS (c\<lparr>pc_alert_handlers := pc_alert_handlers c @ [handler_of h]\<rparr>) n s'"
    using s by (auto simp: handler_lines_def params_lines_def handler_of_def h put_all_map_of [OF d] reader_at_def)
qed

lemma reads_handlers:
  assumes "list_all handler_ok hs"
  shows "reads (concat (map handler_lines hs)) (ALERT_HANDLERS, c, n)
    (ALERT_HANDLERS, c\<lparr>pc_alert_handlers := pc_alert_handlers c @ map handler_of hs\<rparr>, n)"
  using assms
proof (induction hs arbitrary: c)
  case Nil
  then show ?case by (simp add: reads_Nil)
next
  case (Cons h hs)
  from reads_append [OF reads_handler Cons.IH, of h] Cons.prems show ?case by simp
qed

lemma rule_fields: "\<lparr>sr_alert_type = sr_alert_type r, sr_severity = sr_severity r\<rparr> = r"
  by (rule severity_rule.equality) simp_all

lemma reads_rule:
  assumes "clean (sr_alert_type r)" and "clean (sr_severity r)"
  shows "reads (rule_lines r) (SEVERITY_RULES, c, n)
    (SEVERITY_RULES, c\<lparr>pc_severity_rules := pc_severity_rules c @ [r]\<rparr>, n)"
  unfolding reads_def
proof (clarify)
  fix s
  assume s: "reader_at SEVERITY_RULES c n s"
  have "trim (drop 7 (stem ''- type'' (sr_alert_type r))) = sr_alert_type r"
    using trim_pad [of "[CHR '' '', CHR 0x22]" "[]" "sr_alert_type r"] trim_pad [of "[]" "[]" "[]"] clean_ends [OF assms(1)]
    by (simp add: stem_def)
  moreover have "find_str ''type:'' (stem ''- type'' (sr_alert_type r)) = Some 2"
    "hd (stem ''- type'' (sr_alert_type r)) = CHR ''-''" "hd (stem ''severity'' (sr_severity r)) \<noteq> CHR ''-''"
    by (simp_all add: stem_def find_str_def)
  ultimately show "\<exists>s'. fold_res load_line (rule_lines r) s = Inr s' \<and>
      reader_at SEVERITY_RULES (c\<lparr>pc_severity_rules := pc_severity_rules c @ [r]\<rparr>) n s'"
    using s unfolding rule_lines_def
    by (simp add: load_text key_facts assms in_section_def rule_line_def on_rule_def map_last_snoc reader_at_def
        Let_def rule_fields)
qed

lemma reads_rules:
  assumes "list_all (\<lambda>r. clean (sr_alert_type r) \<and> clean (sr_severity r)) rs"
  shows "reads (concat (map rule_lines rs)) (SEVERITY_RULES, c, n)
    (SEVERITY_RULES, c\<lparr>pc_severity_rules := pc_severity_rules c @ rs\<rparr>, n)"
  using assms
proof (induction rs arbitrary: c)
  case Nil
  then show ?case by (simp add: reads_Nil)
next
  case (Cons r rs)
  from reads_append [OF reads_rule Cons.IH, of r] Cons.prems show ?case by simp
qed

section \<open>The whole file\<close>

lemma reads_algorithms:
  assumes "config_ok w c"
  shows "reads (algorithms_lines w) (NoSection, default_config, n)
    (ALGORITHMS, default_config\<lparr>pc_frequency := pc_frequency c, pc_scc := pc_scc c,
       pc_reachability := pc_reachability c, pc_ip_classifier := pc_ip_classifier c\<rparr>, n)"
proof -
  have k: "top_section ''algorithms'' = Some ALGORITHMS" "algo_section ''frequency_estimator'' = Some FREQ"
    "algo_section ''scc_detector'' = Some SCC" "algo_section ''reachability'' = Some REACH"
    "algo_section ''ip_classifier'' = Some IPCLASS"
    by (simp_all add: top_section_def algo_section_def)
  have a: "algorithm_ok (wr_frequency w)" "algorithm_ok (wr_scc w)" "algorithm_ok (wr_reachability w)"
    "algorithm_ok (wr_ip_classifier w)" "pc_frequency c = algorithm_of (wr_frequency w) default_algorithm"
    "pc_scc c = algorithm_of (wr_scc w) default_algorithm"
    "pc_reachability c = algorithm_of (wr_reachability w) default_algorithm"
    "pc_ip_classifier c = algorithm_of (wr_ip_classifier w) default_algorithm"
    using assms by (simp_all add: config_ok_def)
  have d: "pc_frequency default_config = default_algorithm" "pc_scc default_config = default_algorithm"
    "pc_reachability default_config = default_algorithm" "pc_ip_classifier default_config = default_algorithm"
    by (simp_all add: default_config_def)
  show ?thesis
    using reads_Cons [OF reads_top [OF k(1)] reads_append [OF reads_algorithm [OF a(1) k(2)]
        reads_append [OF reads_algorithm [OF a(2) k(3)] reads_append [OF reads_algorithm [OF a(3) k(4)] reads_algorithm [OF a(4) k(5)]]]],
        of NoSection default_config n]
    by (simp add: algorithms_lines_def a(5-8) d)
qed

lemma top_sections:
  "top_section ''networks'' = Some NETWORKS" "top_section ''event_source'' = Some EVENT_SOURCE"
  "top_section ''analysis'' = Some ANALYSIS" "top_section ''output'' = Some OUTPUT"
  "top_section ''alert_handlers'' = Some ALERT_HANDLERS" "top_section ''severity_rules'' = Some SEVERITY_RULES"
  "top_section ''soc'' = Some SOC"
  by (simp_all add: top_section_def)

lemma reads_texts:
  assumes "clean x" and "clean y"
  shows "reads [opens 0 ''event_source'', field 2 ''type'' (in_quotes x), field 2 ''path'' (in_quotes y)] (sec, c, n)
      (EVENT_SOURCE, c\<lparr>pc_event_source_type := x, pc_event_source_path := y\<rparr>, n)"
    and "reads [opens 0 ''soc'', field 2 ''node_name'' (in_quotes x), field 2 ''namespace'' (in_quotes y)] (sec, c, n)
      (SOC, c\<lparr>pc_node_name := x, pc_namespace := y\<rparr>, n)"
    and "clean z \<Longrightarrow> reads [opens 0 ''output'', field 2 ''alerts_file'' (in_quotes x), field 2 ''graph_file'' (in_quotes y),
        field 2 ''stats_file'' (in_quotes z)] (sec, c, n)
      (OUTPUT, c\<lparr>pc_alerts_file := x, pc_graph_file := y, pc_stats_file := z\<rparr>, n)"
proof -
  have k: "key_ok ''type''" "key_ok ''path''" "key_ok ''node_name''" "key_ok ''namespace''" "key_ok ''alerts_file''"
    "key_ok ''graph_file''" "key_ok ''stats_file''" by (simp_all add: key_facts)
  show "reads [opens 0 ''event_source'', field 2 ''type'' (in_quotes x), field 2 ''path'' (in_quotes y)] (sec, c, n)
      (EVENT_SOURCE, c\<lparr>pc_event_source_type := x, pc_event_source_path := y\<rparr>, n)"
    using reads_Cons [OF reads_top [OF top_sections(2)] reads_Cons [OF reads_text(1) [OF k(1) assms(1)]
      reads_text(1) [OF k(2) assms(2)]]] by (simp add: event_source_line_def)
  show "reads [opens 0 ''soc'', field 2 ''node_name'' (in_quotes x), field 2 ''namespace'' (in_quotes y)] (sec, c, n)
      (SOC, c\<lparr>pc_node_name := x, pc_namespace := y\<rparr>, n)"
    using reads_Cons [OF reads_top [OF top_sections(7)] reads_Cons [OF reads_text(3) [OF k(3) assms(1)]
      reads_text(3) [OF k(4) assms(2)]]] by (simp add: soc_line_def)
  assume z: "clean z"
  show "reads [opens 0 ''output'', field 2 ''alerts_file'' (in_quotes x), field 2 ''graph_file'' (in_quotes y),
        field 2 ''stats_file'' (in_quotes z)] (sec, c, n)
      (OUTPUT, c\<lparr>pc_alerts_file := x, pc_graph_file := y, pc_stats_file := z\<rparr>, n)"
    using reads_Cons [OF reads_top [OF top_sections(4)] reads_Cons [OF reads_text(2) [OF k(5) assms(1)]
      reads_Cons [OF reads_text(2) [OF k(6) assms(2)] reads_text(2) [OF k(7) z]]]] by (simp add: output_line_def)
qed

lemma reads_analysis:
  assumes "int_ok i" and "int_ok j" and "int_ok k"
  shows "reads [opens 0 ''analysis'', field 2 ''window_seconds'' (int_to_string i), field 2 ''scc_interval_seconds'' (int_to_string j),
      field 2 ''snapshot_interval_seconds'' (int_to_string k)] (sec, c, n)
    (ANALYSIS, c\<lparr>pc_window_seconds := i, pc_scc_interval_seconds := j, pc_snapshot_interval_seconds := k\<rparr>, n)"
proof -
  have a: "analysis_line ''window_seconds'' (int_to_string i) c = Inr (c\<lparr>pc_window_seconds := i\<rparr>)"
    "analysis_line ''scc_interval_seconds'' (int_to_string j) c = Inr (c\<lparr>pc_scc_interval_seconds := j\<rparr>)"
    "analysis_line ''snapshot_interval_seconds'' (int_to_string k) c = Inr (c\<lparr>pc_snapshot_interval_seconds := k\<rparr>)" for c
    by (simp_all add: analysis_line_def stoi_int assms)
  show ?thesis
    using reads_Cons [OF reads_top [OF top_sections(3)] reads_Cons [OF reads_interval [OF _ assms(1) a(1)]
      reads_Cons [OF reads_interval [OF _ assms(2) a(2)] reads_interval [OF _ assms(3) a(3)]]]]
    by (simp add: key_facts)
qed

lemma load_lines_bare:
  "fold_res load_line (filter (\<lambda>l. trim l \<noteq> []) (map bare ls)) s = fold_res load_line ls s"
proof (induction ls arbitrary: s)
  case (Cons l ls)
  have "load_line l s = Inr s" if "trim (bare l) = []" using that by (rule load_blank)
  then show ?case by (cases "load_line l s") (auto simp: Cons.IH load_bare)
qed simp

lemma config_fields:
  "\<lparr>pc_frequency = pc_frequency c, pc_scc = pc_scc c, pc_reachability = pc_reachability c,
    pc_ip_classifier = pc_ip_classifier c, pc_networks = nets, pc_event_source_type = pc_event_source_type c,
    pc_event_source_path = pc_event_source_path c, pc_window_seconds = pc_window_seconds c,
    pc_scc_interval_seconds = pc_scc_interval_seconds c, pc_snapshot_interval_seconds = pc_snapshot_interval_seconds c,
    pc_alerts_file = pc_alerts_file c, pc_graph_file = pc_graph_file c, pc_stats_file = pc_stats_file c,
    pc_alert_handlers = pc_alert_handlers c, pc_severity_rules = pc_severity_rules c, pc_node_name = pc_node_name c,
    pc_namespace = pc_namespace c\<rparr> = c\<lparr>pc_networks := nets\<rparr>"
  by (rule pipeline_config.equality) simp_all

section \<open>Property\<close>

lemma written_config_loads:
  assumes "config_ok w c"
    and "filter (\<lambda>l. trim l \<noteq> []) (map bare (getlines CHR 0x0A body)) = config_lines w c"
  shows "load_config junk path (Some body) = Inr c"
proof -
  obtain p l lab where junk: "junk = (p, l, lab)" by (cases junk) auto
  let ?n = "\<lparr>ce_prefix = p, ce_prefix_len = l, ce_label = lab, ce_name = ''''\<rparr>"
  have c: "clean (pc_event_source_type c)" "clean (pc_event_source_path c)" "clean (pc_alerts_file c)"
    "clean (pc_graph_file c)" "clean (pc_stats_file c)" "clean (pc_node_name c)" "clean (pc_namespace c)"
    "int_ok (pc_window_seconds c)" "int_ok (pc_scc_interval_seconds c)" "int_ok (pc_snapshot_interval_seconds c)"
    "list_all net_ok (pc_networks c)" "list_all handler_ok (wr_handlers w)"
    "map handler_of (wr_handlers w) = pc_alert_handlers c"
    "list_all (\<lambda>r. clean (sr_alert_type r) \<and> clean (sr_severity r)) (pc_severity_rules c)"
    using assms(1) by (simp_all add: config_ok_def)
  let ?c0 = "default_config\<lparr>pc_frequency := pc_frequency c, pc_scc := pc_scc c,
       pc_reachability := pc_reachability c, pc_ip_classifier := pc_ip_classifier c\<rparr>"
  obtain n nets where nets: "reads (concat (map net_lines (pc_networks c))) (NETWORKS, ?c0, ?n) (NETWORKS, ?c0\<lparr>pc_networks := nets\<rparr>, n)"
    "nets @ pending n = pc_networks c"
    using reads_nets [OF c(11), of ?c0 ?n] by (auto simp: pending_def default_config_def)
  note r = reads_append [OF reads_algorithms [OF assms(1)] reads_Cons [OF reads_top [OF top_sections(1)]
      reads_append [OF nets(1) reads_append [OF reads_texts(1) [OF c(1,2)] reads_append [OF reads_analysis [OF c(8-10)]
      reads_append [OF reads_texts(3) [OF c(3-5)] reads_Cons [OF reads_top [OF top_sections(5)]
      reads_append [OF reads_handlers [OF c(12)] reads_Cons [OF reads_top [OF top_sections(6)]
      reads_append [OF reads_rules [OF c(14)] reads_texts(2) [OF c(6,7)]]]]]]]]]]]
  obtain c' where read: "reads (config_lines w c) (NoSection, default_config, ?n) (SOC, c', n)"
    and c': "c'\<lparr>pc_networks := nets @ pending n\<rparr> = c" "pc_networks c' = nets"
  proof (rule that)
    show "reads (config_lines w c) (NoSection, default_config, ?n) (SOC, c\<lparr>pc_networks := nets\<rparr>, n)"
      using r by (simp add: config_lines_def c(13) default_config_def config_fields)
  qed (simp_all add: nets(2))
  have "reader_at NoSection default_config ?n (load_start junk)" by (simp add: reader_at_def load_start_def junk)
  then obtain s where s: "fold_res load_line (config_lines w c) (load_start junk) = Inr s" "reader_at SOC c' n s"
    using read by (auto simp: reads_def)
  have "ld_cfg (push_net s) = c'\<lparr>pc_networks := nets @ pending n\<rparr>"
    using s(2) c'(2) by (auto simp: reader_at_def push_net_def pending_def)
  with s(1) c'(1) show ?thesis
    by (simp add: load_config_def assms(2) flip: load_lines_bare [of "getlines CHR 0x0A body"])
qed

text \<open>C26: A configuration that is written in the format of \<open>config/pipeline.yaml\<close> is read back exactly. For every
  configuration whose texts can stand on a line, whose integers fit an \<open>int\<close> and whose networks are named: any
  text that has its lines, with comments, blank lines and trailing blanks anywhere, is loaded without an error and gives the
  configuration with each of its fields, networks, handlers with their parameters, and severity rules; the
  numbers an algorithm leaves out are the defaults, and the uninitialized memory of the reader never shows.\<close>

theorem written_config_is_read:
  assumes "config_ok w c"
    and "filter (\<lambda>l. trim l \<noteq> []) (map bare (getlines CHR 0x0A body)) = config_lines w c"
  shows "load_config junk path (Some body) = Inr c"
  using assms by (rule written_config_loads)

section \<open>The file of the repository\<close>

text \<open>\<open>config/pipeline.yaml\<close> (the characters outside ASCII in its comments are written in ASCII here), and what the
  program works with when it is started on it.\<close>

definition shipped_lines :: "string list" where
  "shipped_lines =
     [
      ''# Zero-Trust Network Mapper - Pipeline Configuration'',
      ''# Swap algorithms by changing the 'name' field.'',
      ''# Available implementations are listed in comments.'',
      '''',
      ''# --- Algorithm Selection ---'',
      '''',
      ''algorithms:'',
      ''  # Frequency estimation for port scan detection'',
      ''  # Available: '' @ in_quotes ''count_min_sketch'' @ '', '' @ in_quotes ''hash_map_exact'',
      ''  frequency_estimator:'',
      ''    name: '' @ in_quotes ''count_min_sketch'',
      ''    params:'',
      ''      width: 2048        # Number of counters per row (higher = less collision)'',
      ''      depth: 5           # Number of hash functions (higher = more accurate)'',
      ''      threshold: 40      # Alert if estimated frequency exceeds this'',
      '''',
      ''  # Strongly Connected Component detection for architecture violations'',
      ''  # Available: '' @ in_quotes ''tarjan'' @ '', '' @ in_quotes ''kosaraju'',
      ''  scc_detector:'',
      ''    name: '' @ in_quotes ''tarjan'',
      '''',
      ''  # K-hop reachability for blast radius analysis'',
      ''  # Available: '' @ in_quotes ''bfs'' @ '', '' @ in_quotes ''dijkstra'',
      ''  reachability:'',
      ''    name: '' @ in_quotes ''bfs'',
      ''    params:'',
      ''      max_hops: 3        # Maximum distance from compromised node'',
      '''',
      ''  # IP classification via Longest Prefix Match'',
      ''  # Available: '' @ in_quotes ''lpm_trie'',
      ''  ip_classifier:'',
      ''    name: '' @ in_quotes ''lpm_trie'',
      '''',
      ''# --- Network Classification (CIDR -> label) ---'',
      '''',
      ''networks:'',
      ''  - cidr: '' @ in_quotes ''10.244.0.0/16'',
      ''    label: 1'',
      ''    name: '' @ in_quotes ''pod_network'',
      '''',
      ''  - cidr: '' @ in_quotes ''10.96.0.0/12'',
      ''    label: 2'',
      ''    name: '' @ in_quotes ''service_network'',
      '''',
      ''  - cidr: '' @ in_quotes ''192.168.0.0/16'',
      ''    label: 3'',
      ''    name: '' @ in_quotes ''node_network'',
      '''',
      ''  - cidr: '' @ in_quotes ''172.16.0.0/12'',
      ''    label: 4'',
      ''    name: '' @ in_quotes ''private_rfc1918'',
      '''',
      ''  - cidr: '' @ in_quotes ''0.0.0.0/0'',
      ''    label: 0'',
      ''    name: '' @ in_quotes ''external'',
      '''',
      ''# --- Event Source ---'',
      '''',
      ''event_source:'',
      ''  # '' @ in_quotes ''ebpf'' @ ''  - read from eBPF collector (stdin pipe or ring buffer)'',
      ''  # '' @ in_quotes ''file'' @ ''  - read JSON lines from a file (for testing without eBPF)'',
      ''  type: '' @ in_quotes ''file'',
      ''  path: '' @ in_quotes ''/tmp/events.json'' @ ''    # Only used when type = '' @ in_quotes ''file'',
      '''',
      ''# --- Analysis Settings ---'',
      '''',
      ''analysis:'',
      ''  # Sliding window for CMS: reset counters every N seconds'',
      ''  window_seconds: 60'',
      '''',
      ''  # How often to run SCC detection on the accumulated graph'',
      ''  scc_interval_seconds: 10'',
      '''',
      ''  # How often to snapshot the graph for visualization'',
      ''  snapshot_interval_seconds: 5'',
      '''',
      ''# --- Output ---'',
      '''',
      ''output:'',
      ''  alerts_file: '' @ in_quotes ''output/alerts.json'',
      ''  graph_file: '' @ in_quotes ''output/graph.json'',
      ''  stats_file: '' @ in_quotes ''output/stats.json'',
      '''',
      ''# --- SOC: Alert Handlers (Phase 6) ---'',
      ''# Fan-out: every alert is sent to every handler in order. Failure in one'',
      ''# handler does not stop others.'',
      ''#'',
      ''# Available handlers: file, stdout, stderr, nats'',
      ''# If alert_handlers is absent, the pipeline falls back to a single '' @ in_quotes ''file'',
      ''# handler pointing at output.alerts_file (legacy behavior).'',
      '''',
      ''alert_handlers:'',
      ''  - name: '' @ in_quotes ''file'',
      ''    params:'',
      ''      path: '' @ in_quotes ''output/alerts.json'',
      ''  - name: '' @ in_quotes ''stderr'' @ ''          # container logs -> Loki via Promtail'',
      ''  # - name: '' @ in_quotes ''nats'' @ ''          # enable in-cluster aggregator'',
      ''  #   params:'',
      ''  #     url: '' @ in_quotes ''nats://nats.soc.svc.cluster.local:4222'',
      ''  #     subject: '' @ in_quotes ''zt.alerts.raw'',
      '''',
      ''# Per-type severity overrides. Defaults: port_scan=medium, blast_radius=high,'',
      ''# scc_anomaly=high. Allowed values: low | medium | high | critical.'',
      ''severity_rules:'',
      ''  - type: '' @ in_quotes ''port_scan'',
      ''    severity: '' @ in_quotes ''medium'',
      ''  - type: '' @ in_quotes ''blast_radius'',
      ''    severity: '' @ in_quotes ''high'',
      ''  - type: '' @ in_quotes ''scc_anomaly'',
      ''    severity: '' @ in_quotes ''high'',
      '''',
      ''# Pod/node identity - populated by the Downward API in the DaemonSet.'',
      ''# Falls back to $NODE_NAME / $POD_NAMESPACE env vars when left empty.'',
      ''soc:'',
      ''  node_name: '' @ in_quotes '''',
      ''  namespace: '' @ in_quotes '''']"

definition shipped_written :: written where
  "shipped_written =
     \<lparr>wr_frequency = (''count_min_sketch'', [(''width'', 2048), (''depth'', 5), (''threshold'', 40)]),
      wr_scc = (''tarjan'', []), wr_reachability = (''bfs'', [(''max_hops'', 3)]), wr_ip_classifier = (''lpm_trie'', []),
      wr_handlers = [(''file'', [(''path'', ''output/alerts.json'')]), (''stderr'', [])]\<rparr>"

definition shipped_config :: pipeline_config where
  "shipped_config =
     \<lparr>pc_frequency = default_algorithm\<lparr>ac_name := ''count_min_sketch'', ac_threshold := 40\<rparr>,
      pc_scc = default_algorithm\<lparr>ac_name := ''tarjan''\<rparr>, pc_reachability = default_algorithm\<lparr>ac_name := ''bfs''\<rparr>,
      pc_ip_classifier = default_algorithm\<lparr>ac_name := ''lpm_trie''\<rparr>,
      pc_networks =
        [\<lparr>ce_prefix = 0x0AF40000, ce_prefix_len = 16, ce_label = 1, ce_name = ''pod_network''\<rparr>,
         \<lparr>ce_prefix = 0x0A600000, ce_prefix_len = 12, ce_label = 2, ce_name = ''service_network''\<rparr>,
         \<lparr>ce_prefix = 0xC0A80000, ce_prefix_len = 16, ce_label = 3, ce_name = ''node_network''\<rparr>,
         \<lparr>ce_prefix = 0xAC100000, ce_prefix_len = 12, ce_label = 4, ce_name = ''private_rfc1918''\<rparr>,
         \<lparr>ce_prefix = 0, ce_prefix_len = 0, ce_label = 0, ce_name = ''external''\<rparr>],
      pc_event_source_type = ''file'', pc_event_source_path = ''/tmp/events.json'',
      pc_window_seconds = 60, pc_scc_interval_seconds = 10, pc_snapshot_interval_seconds = 5,
      pc_alerts_file = ''output/alerts.json'', pc_graph_file = ''output/graph.json'',
      pc_stats_file = ''output/stats.json'',
      pc_alert_handlers = map handler_of [(''file'', [(''path'', ''output/alerts.json'')]), (''stderr'', [])],
      pc_severity_rules =
        [\<lparr>sr_alert_type = ''port_scan'', sr_severity = ''medium''\<rparr>, \<lparr>sr_alert_type = ''blast_radius'', sr_severity = ''high''\<rparr>,
         \<lparr>sr_alert_type = ''scc_anomaly'', sr_severity = ''high''\<rparr>],
      pc_node_name = '''', pc_namespace = ''''\<rparr>"

lemma shipped_config_ok: "config_ok shipped_written shipped_config"
  by (simp add: config_ok_def shipped_written_def shipped_config_def algorithm_ok_def algorithm_of_def set_number_def
      default_algorithm_def net_ok_def handler_ok_def int_ok_def clean_def key_ok_def trimmable_def)

lemma shipped_lines_ok: "list_all (\<lambda>l. CHR 0x0A \<notin> set l) shipped_lines"
  by code_simp

lemma shipped_bare: "filter (\<lambda>l. trim l \<noteq> []) (map bare shipped_lines) = config_lines shipped_written shipped_config"
  by code_simp

lemma shipped_config_loads:
  "filter (\<lambda>l. trim l \<noteq> []) (map bare (getlines CHR 0x0A body)) = config_lines shipped_written shipped_config \<Longrightarrow>
   load_config junk path (Some body) = Inr shipped_config"
  by (rule written_config_loads [OF shipped_config_ok])

theorem written_config_is_read_witness:
  "load_config (0, 0, 0) ''config/pipeline.yaml'' (Some (concat (map (\<lambda>l. l @ [CHR 0x0A]) shipped_lines))) = Inr shipped_config"
proof -
  have "getlines CHR 0x0A (concat (map (\<lambda>l. l @ [CHR 0x0A]) shipped_lines)) = shipped_lines"
    using shipped_lines_ok by (intro getlines_lines) (auto simp: list_all_iff)
  then show ?thesis
    by (intro written_config_is_read [OF shipped_config_ok]) (simp only: shipped_bare)
qed

end
