(* ===== verification/CountMinSketch.thy ===== *)
theory CountMinSketch
  imports Estimator
begin

text \<open>
  \<open>dsa::frequency::CountMinSketch\<close> (\<open>libdsa/src/frequency/count_min_sketch.cpp\<close>): the
  MurmurHash3-style hash on 32-bit words, the table of 64-bit counters, and the five virtual
  functions. The invariant \<open>cms_inv c xs\<close> says what every cell counts; from it follow that an
  estimate never falls below the true count and that it is the least of the row counts.

  A width of 0 makes \<open>hash % width_\<close> a division by zero, which the model returns as such.
\<close>

section \<open>State\<close>

record cms =
  cms_width :: u32
  cms_depth :: u32
  cms_table :: "u64 list list"
  cms_seeds :: "u32 list"

definition cms_new :: "u32 \<Rightarrow> u32 \<Rightarrow> cms" where
  "cms_new width depth =
     \<lparr>cms_width = width, cms_depth = depth,
      cms_table = replicate (unat depth) (replicate (unat width) 0),
      cms_seeds = map (\<lambda>i. 0x9e3779b9 + of_nat i * 0x517cc1b7) [0..<unat depth]\<rparr>"

section \<open>The hash\<close>

definition rotl32 :: "nat \<Rightarrow> u32 \<Rightarrow> u32" where
  "rotl32 r k = push_bit r k OR drop_bit (32 - r) k"

definition scramble :: "u32 \<Rightarrow> u32" where
  "scramble k = rotl32 15 (k * 0xcc9e2d51) * 0x1b873593"

fun hash_blocks :: "bytes \<Rightarrow> u32 \<Rightarrow> u32 \<times> bytes" where
  "hash_blocks (a # b # c # d # rest) h =
     hash_blocks rest (rotl32 13 (h XOR scramble (load32 a b c d)) * 5 + 0xe6546b64)"
| "hash_blocks tail h = (h, tail)"

text \<open>The fall-through \<open>switch (key_len & 3)\<close>.\<close>

fun hash_tail :: "bytes \<Rightarrow> u32 \<Rightarrow> u32" where
  "hash_tail [a, b, c] h =
     h XOR scramble (push_bit 16 (ucast c) XOR push_bit 8 (ucast b) XOR ucast a)"
| "hash_tail [a, b] h = h XOR scramble (push_bit 8 (ucast b) XOR ucast a)"
| "hash_tail [a] h = h XOR scramble (ucast a)"
| "hash_tail _ h = h"

definition hash_final :: "u32 \<Rightarrow> u32" where
  "hash_final h0 =
     (let h1 = h0 XOR drop_bit 16 h0;
          h2 = h1 * 0x85ebca6b;
          h3 = h2 XOR drop_bit 13 h2;
          h4 = h3 * 0xc2b2ae35
      in h4 XOR drop_bit 16 h4)"

definition cms_hash :: "bytes \<Rightarrow> u32 \<Rightarrow> u32" where
  "cms_hash key seed =
     (let (h, tail) = hash_blocks key seed
      in hash_final (hash_tail tail h XOR of_nat (length key)))"

section \<open>Operations\<close>

definition cms_col :: "cms \<Rightarrow> bytes \<Rightarrow> nat \<Rightarrow> u32 res" where
  "cms_col c key i =
     (if cms_width c = 0 then Inl DivideByZero
      else Inr (cms_hash key (cms_seeds c ! i) mod cms_width c))"

definition cms_record :: "cms \<Rightarrow> bytes \<Rightarrow> cms res" where
  "cms_record c key =
     bind_res
       (fold_res (\<lambda>i t. bind_res (cms_col c key i)
            (\<lambda>col. Inr (t[i := (t ! i)[unat col := t ! i ! unat col + 1]])))
          [0..<unat (cms_depth c)] (cms_table c))
       (\<lambda>t. Inr (c\<lparr>cms_table := t\<rparr>))"

definition cms_estimate :: "cms \<Rightarrow> bytes \<Rightarrow> u64 res" where
  "cms_estimate c key =
     fold_res (\<lambda>i m. bind_res (cms_col c key i)
          (\<lambda>col. Inr (min m (cms_table c ! i ! unat col))))
       [0..<unat (cms_depth c)] (-1)"

definition cms_reset :: "cms \<Rightarrow> cms" where
  "cms_reset c = c\<lparr>cms_table := map (\<lambda>row. replicate (length row) 0) (cms_table c)\<rparr>"

text \<open>\<open>depth_ * width_\<close> is a 32-bit product; only then is it widened to \<open>size_t\<close>.\<close>

definition cms_memory_usage :: "cms \<Rightarrow> u64" where
  "cms_memory_usage c =
     ucast (cms_depth c * cms_width c) * 8 + of_nat (length (cms_seeds c)) * 4"

definition cms_name :: "cms \<Rightarrow> string" where
  "cms_name c = ''count_min_sketch''"

definition cms_ops :: "cms estimator_ops" where
  "cms_ops = \<lparr>op_record = cms_record, op_estimate = cms_estimate, op_reset = cms_reset,
     op_memory_usage = cms_memory_usage, op_name = cms_name\<rparr>"

section \<open>What the cells count\<close>

definition cms_cell :: "cms \<Rightarrow> nat \<Rightarrow> bytes \<Rightarrow> nat" where
  "cms_cell c i k = unat (cms_hash k (cms_seeds c ! i) mod cms_width c)"

text \<open>The number of stream elements that share the cell of \<open>k\<close> in row \<open>i\<close>.\<close>

definition cms_row_count :: "cms \<Rightarrow> bytes list \<Rightarrow> nat \<Rightarrow> nat \<Rightarrow> nat" where
  "cms_row_count c xs i j = length (filter (\<lambda>x. cms_cell c i x = j) xs)"

definition cms_inv :: "cms \<Rightarrow> bytes list \<Rightarrow> bool" where
  "cms_inv c xs \<longleftrightarrow>
     cms_width c \<noteq> 0 \<and>
     length (cms_table c) = unat (cms_depth c) \<and> length (cms_seeds c) = unat (cms_depth c) \<and>
     (\<forall>i < unat (cms_depth c). length (cms_table c ! i) = unat (cms_width c) \<and>
        (\<forall>j < unat (cms_width c). cms_table c ! i ! j = of_nat (cms_row_count c xs i j)))"

lemma cms_cell_bound: "cms_width c \<noteq> 0 \<Longrightarrow> cms_cell c i k < unat (cms_width c)"
  by (simp add: cms_cell_def unat_mod unat_gt_0)

lemma cms_col_ok:
  "cms_width c \<noteq> 0 \<Longrightarrow> cms_col c k i = Inr (cms_hash k (cms_seeds c ! i) mod cms_width c)"
  by (simp add: cms_col_def)

lemma cms_new_inv: "width \<noteq> 0 \<Longrightarrow> cms_inv (cms_new width depth) []"
  by (simp add: cms_inv_def cms_new_def cms_row_count_def)

lemma cms_record_eq:
  assumes "cms_width c \<noteq> 0" and "length (cms_table c) = unat (cms_depth c)"
  shows "cms_record c k = Inr (c\<lparr>cms_table := map (\<lambda>i. (cms_table c ! i)
           [cms_cell c i k := cms_table c ! i ! cms_cell c i k + 1]) [0..<unat (cms_depth c)]\<rparr>)"
  using assms fold_update_each [of "unat (cms_depth c)" "cms_table c"
      "\<lambda>i row. row[cms_cell c i k := row ! cms_cell c i k + 1]"]
  by (simp add: cms_record_def cms_col_ok res_simps cms_cell_def)

lemma cms_row_count_snoc:
  "cms_row_count c (xs @ [k]) i j = cms_row_count c xs i j + (if cms_cell c i k = j then 1 else 0)"
  by (simp add: cms_row_count_def)

lemma cms_record_inv:
  assumes "cms_inv c xs"
  shows "\<exists>c'. cms_record c k = Inr c' \<and> cms_inv c' (xs @ [k])"
proof -
  let ?t = "map (\<lambda>i. (cms_table c ! i)[cms_cell c i k := cms_table c ! i ! cms_cell c i k + 1])
              [0..<unat (cms_depth c)]"
  have cell: "cms_cell (c\<lparr>cms_table := ?t\<rparr>) = cms_cell c"
    by (intro ext) (simp add: cms_cell_def)
  have "cms_inv (c\<lparr>cms_table := ?t\<rparr>) (xs @ [k])"
    using assms unfolding cms_inv_def
    by (auto simp: cms_row_count_def cell nth_list_update cms_cell_bound)
  moreover have "cms_record c k = Inr (c\<lparr>cms_table := ?t\<rparr>)"
    using assms by (intro cms_record_eq) (simp_all add: cms_inv_def)
  ultimately show ?thesis by blast
qed

lemma cms_estimate_eq:
  assumes "cms_inv c xs"
  shows "cms_estimate c k = Inr (fold (\<lambda>i m. min m (of_nat (cms_row_count c xs i (cms_cell c i k))))
           [0..<unat (cms_depth c)] (-1))"
proof -
  have "cms_estimate c k = Inr (fold (\<lambda>i m. min m (cms_table c ! i ! cms_cell c i k))
           [0..<unat (cms_depth c)] (-1))"
    using assms by (simp add: cms_estimate_def cms_inv_def cms_col_ok res_simps cms_cell_def)
  also have "fold (\<lambda>i m. min m (cms_table c ! i ! cms_cell c i k)) [0..<unat (cms_depth c)] (-1) =
      fold (\<lambda>i m. min m (of_nat (cms_row_count c xs i (cms_cell c i k))))
        [0..<unat (cms_depth c)] (-1)"
    using assms by (intro fold_cong refl ext) (simp add: cms_inv_def cms_cell_bound)
  finally show ?thesis .
qed

lemma cms_row_count_ge: "count_list xs k \<le> cms_row_count c xs i (cms_cell c i k)"
  unfolding cms_row_count_def count_list_filter by (rule length_filter_mono) simp

lemma cms_row_count_le: "cms_row_count c xs i j \<le> length xs"
  by (simp add: cms_row_count_def)

lemma cms_estimate_over:
  assumes "cms_inv c xs" and "length xs < 2 ^ 64" and "cms_estimate c k = Inr n"
  shows "count_list xs k \<le> unat n"
proof -
  have b: "count_list xs k < 2 ^ 64"
    using assms(2) count_le_length [of xs k] by linarith
  have r: "cms_row_count c xs i j < 2 ^ 64" for i j
    using assms(2) cms_row_count_le [of c xs i j] by linarith
  have n: "n = fold (\<lambda>i m. min m (of_nat (cms_row_count c xs i (cms_cell c i k))))
      [0..<unat (cms_depth c)] (-1)"
    using assms(3) cms_estimate_eq [OF assms(1), of k] by simp
  have "(of_nat (count_list xs k) :: u64) \<le> n"
    unfolding n le_fold_min by (simp add: of_nat_u64_le [OF b r] cms_row_count_ge)
  then show ?thesis
    using b by (simp add: word_le_nat_alt unat_of_nat_u64)
qed

lemma cms_reset_inv: "cms_inv c xs \<Longrightarrow> cms_inv (cms_reset c) []"
  by (auto simp: cms_inv_def cms_reset_def cms_row_count_def)

interpretation cms: over_estimator cms_ops cms_inv
proof unfold_locales
  show "\<exists>e'. op_record cms_ops e k = Inr e' \<and> cms_inv e' (xs @ [k])" if "cms_inv e xs" for e xs k
    using cms_record_inv [OF that] by (simp add: cms_ops_def)
  show "\<exists>n. op_estimate cms_ops e k = Inr n" if "cms_inv e xs" for e xs k
    using cms_estimate_eq [OF that] by (simp add: cms_ops_def)
  show "cms_inv (op_reset cms_ops e) []" if "cms_inv e xs" for e xs
    using cms_reset_inv [OF that] by (simp add: cms_ops_def)
  show "count_list xs k \<le> unat n"
    if "cms_inv e xs" "length xs < 2 ^ 64" "op_estimate cms_ops e k = Inr n" for e xs k n
    using cms_estimate_over that by (simp add: cms_ops_def)
qed

section \<open>Properties of a recorded stream\<close>

definition cms_record_all :: "cms \<Rightarrow> bytes list \<Rightarrow> cms res" where
  "cms_record_all c xs = fold_res (\<lambda>k c. cms_record c k) xs c"

lemma cms_record_frame:
  "cms_record c k = Inr c' \<Longrightarrow> cms_width c' = cms_width c \<and> cms_depth c' = cms_depth c \<and>
     cms_seeds c' = cms_seeds c"
  by (auto simp: cms_record_def res_simps)

lemma cms_record_all_frame:
  "cms_record_all c xs = Inr c' \<Longrightarrow> cms_width c' = cms_width c \<and> cms_depth c' = cms_depth c \<and>
     cms_seeds c' = cms_seeds c"
  unfolding cms_record_all_def
proof (induction xs arbitrary: c)
  case (Cons x xs)
  then obtain d where "cms_record c x = Inr d" "fold_res (\<lambda>k c. cms_record c k) xs d = Inr c'"
    by (auto simp: bind_res_eq_Inr)
  with Cons.IH [of d] cms_record_frame [of c x d] show ?case by simp
qed simp

lemma cms_record_all_new:
  assumes "width \<noteq> 0"
  shows "\<exists>c. cms_record_all (cms_new width depth) xs = Inr c \<and> cms_inv c xs \<and>
     cms_width c = width \<and> cms_depth c = depth \<and> cms_seeds c = cms_seeds (cms_new width depth)"
proof -
  from cms.record_all [OF cms_new_inv [OF assms, of depth], where ks = xs] obtain c where
    c: "cms_record_all (cms_new width depth) xs = Inr c" "cms_inv c xs"
    by (auto simp: cms_ops_def cms_record_all_def)
  with cms_record_all_frame [OF c(1)] show ?thesis by (auto simp: cms_new_def)
qed

lemma cms_estimate_Min:
  assumes "cms_inv c xs" and "length xs < 2 ^ 64" and "cms_depth c \<noteq> 0"
    and "cms_estimate c k = Inr n"
  shows "unat n = Min ((\<lambda>i. cms_row_count c xs i (cms_cell c i k)) ` {..<unat (cms_depth c)})"
proof -
  let ?r = "\<lambda>i. cms_row_count c xs i (cms_cell c i k)"
  have d: "unat (cms_depth c) > 0" using assms(3) by (simp add: unat_gt_0)
  have r: "?r i < 2 ^ 64" for i
    using assms(2) cms_row_count_le [of c xs i "cms_cell c i k"] by linarith
  have "n = fold (\<lambda>i m. min m (of_nat (?r i))) [0..<unat (cms_depth c)] (-1)"
    using assms(4) cms_estimate_eq [OF assms(1), of k] by simp
  also have "\<dots> = Min ((\<lambda>i. of_nat (?r i)) ` set [0..<unat (cms_depth c)])"
    by (rule fold_min_Min) (use d in auto)
  finally have "n = Min ((\<lambda>i. of_nat (?r i)) ` {..<unat (cms_depth c)})"
    by (simp add: atLeast0LessThan)
  moreover have "mono (unat :: u64 \<Rightarrow> nat)" by (simp add: mono_def word_le_nat_alt)
  ultimately have "unat n = Min (unat ` (\<lambda>i. of_nat (?r i) :: u64) ` {..<unat (cms_depth c)})"
    using d by (simp add: mono_Min_commute [of unat] lessThan_empty_iff)
  then show ?thesis using r by (simp add: image_image unat_of_nat_u64)
qed

text \<open>C8: On a sketch of non-zero width and depth, recording any stream of fewer than 2^64 keys
  succeeds, and the estimate of any key is exactly the least, over the rows, of the number of
  stream elements hashed to the same column as that key; so it never falls below the true
  frequency and never exceeds the length of the stream.\<close>

theorem cms_stream_estimate:
  assumes "width \<noteq> 0" and "depth \<noteq> 0" and "length xs < 2 ^ 64"
  shows "\<exists>c n. cms_record_all (cms_new width depth) xs = Inr c \<and> cms_estimate c k = Inr n \<and>
     unat n = Min ((\<lambda>i. length (filter (\<lambda>x.
         cms_hash x (0x9e3779b9 + of_nat i * 0x517cc1b7) mod width =
         cms_hash k (0x9e3779b9 + of_nat i * 0x517cc1b7) mod width) xs)) ` {..<unat depth}) \<and>
     count_list xs k \<le> unat n \<and> unat n \<le> length xs"
proof -
  from cms_record_all_new [OF assms(1), of depth xs] obtain c where
    c: "cms_record_all (cms_new width depth) xs = Inr c" "cms_inv c xs" "cms_width c = width"
      "cms_depth c = depth" "cms_seeds c = cms_seeds (cms_new width depth)" by blast
  from cms_estimate_eq [OF c(2), of k] obtain n where n: "cms_estimate c k = Inr n" by blast
  have m: "unat n = Min ((\<lambda>i. cms_row_count c xs i (cms_cell c i k)) ` {..<unat depth})"
    using cms_estimate_Min [OF c(2) assms(3) _ n] assms(2) c(4) by simp
  have "cms_row_count c xs i (cms_cell c i k) = length (filter (\<lambda>x.
         cms_hash x (0x9e3779b9 + of_nat i * 0x517cc1b7) mod width =
         cms_hash k (0x9e3779b9 + of_nat i * 0x517cc1b7) mod width) xs)" if "i < unat depth" for i
    using that c(3-5) by (simp add: cms_row_count_def cms_cell_def cms_new_def word_unat_eq_iff [symmetric])
  with m have "unat n = Min ((\<lambda>i. length (filter (\<lambda>x.
         cms_hash x (0x9e3779b9 + of_nat i * 0x517cc1b7) mod width =
         cms_hash k (0x9e3779b9 + of_nat i * 0x517cc1b7) mod width) xs)) ` {..<unat depth})"
    by (simp cong: image_cong_simp)
  moreover have "unat n \<le> cms_row_count c xs 0 (cms_cell c 0 k)"
    unfolding m using assms(2) by (intro Min_le) (auto simp: unat_gt_0)
  then have "unat n \<le> length xs"
    using cms_row_count_le order_trans by blast
  ultimately show ?thesis
    using c(1) n cms_estimate_over [OF c(2) assms(3) n] by blast
qed

theorem cms_stream_estimate_witness:
  "\<exists>c n. cms_record_all (cms_new 4 2) [[1], [2], [1]] = Inr c \<and> cms_estimate c [1] = Inr n \<and>
     2 \<le> unat n \<and> unat n \<le> 3"
  using cms_stream_estimate [of 4 2 "[[1], [2], [1]]" "[1]"] by auto

text \<open>After any stream, \<open>reset\<close> brings a sketch back to the very state its constructor made.\<close>

theorem cms_reset_fresh:
  assumes "width \<noteq> 0" and "cms_record_all (cms_new width depth) xs = Inr c"
  shows "cms_reset c = cms_new width depth"
proof -
  from cms_record_all_new [OF assms(1), of depth xs] assms(2) have
    c: "cms_inv c xs" "cms_width c = width" "cms_depth c = depth"
      "cms_seeds c = cms_seeds (cms_new width depth)" by auto
  then have "map (\<lambda>row. replicate (length row) 0) (cms_table c) =
      replicate (unat depth) (replicate (unat width) 0)"
    by (intro nth_equalityI) (auto simp: cms_inv_def)
  with c(2-4) show ?thesis by (cases c) (simp add: cms_reset_def cms_new_def)
qed

theorem cms_reset_fresh_witness: "cms_reset (cms_new 3 2) = cms_new 3 2"
  by (rule cms_reset_fresh [of 3 2 "[]"]) (simp_all add: cms_record_all_def)

text \<open>\<open>memory_usage\<close> reports eight bytes per counter and four per seed, but with the number
  of counters reduced modulo 2^32, because \<open>depth_ * width_\<close> is computed in 32 bits.\<close>

theorem cms_memory_usage_wraps:
  "unat (cms_memory_usage (cms_new width depth)) =
     (unat depth * unat width) mod 2 ^ 32 * 8 + unat depth * 4"
proof -
  have d: "unat depth < 2 ^ 32" using unsigned_less [of depth] by simp
  have m: "(unat depth * unat width) mod 2 ^ 32 < 2 ^ 32" by simp
  have "unat (depth * width) = (unat depth * unat width) mod 2 ^ 32"
    by (simp add: unat_word_ariths)
  then show ?thesis
    using d m unfolding cms_memory_usage_def cms_new_def
    by (simp add: unat_word_ariths unsigned_ucast_eq unat_of_nat take_bit_nat_eq_self mod_mult_right_eq)
qed

lemma cms_zero_width:
  assumes "depth \<noteq> 0"
  shows "cms_record (cms_new 0 depth) k = Inl DivideByZero \<and>
     cms_estimate (cms_new 0 depth) k = Inl DivideByZero"
proof -
  have "unat depth > 0" using assms by (simp add: unat_gt_0)
  then have i: "[0..<unat depth] = 0 # [1..<unat depth]" by (simp add: upt_conv_Cons)
  have "cms_width (cms_new 0 depth) = 0" "cms_depth (cms_new 0 depth) = depth"
    by (simp_all add: cms_new_def)
  then show ?thesis
    by (simp add: cms_record_def cms_estimate_def i cms_col_def)
qed

text \<open>A sketch of width 0 (the command line accepts it) traps with a division by zero at the
  first \<open>record\<close> or \<open>estimate\<close>.\<close>

theorem cms_zero_width_traps:
  assumes "depth \<noteq> 0"
  shows "cms_record (cms_new 0 depth) k = Inl DivideByZero \<and>
     cms_estimate (cms_new 0 depth) k = Inl DivideByZero"
  using assms by (rule cms_zero_width)

theorem cms_zero_width_traps_witness: "cms_record (cms_new 0 2) [7] = Inl DivideByZero"
  using cms_zero_width_traps [of 2 "[7]"] by simp

end
