(* ===== verification/HashMapExact.thy ===== *)
theory HashMapExact
  imports Estimator
begin

text \<open>
  \<open>dsa::frequency::HashMapExact\<close> (\<open>libdsa/src/frequency/hash_map_exact.cpp\<close>): the exact
  counter, a hash map from key strings to 64-bit counts. It meets the contract
  \<open>exact_estimator\<close> for streams shorter than 2^64.

  The sizes \<open>sizeof(counts_)\<close> and \<open>k.capacity()\<close> that \<open>memory_usage\<close> adds up are
  implementation-defined; they are the parameters \<open>sz\<close> and \<open>cap\<close>.
\<close>

record hm =
  hm_counts :: "(bytes \<times> u64) list"

definition hm_new :: hm where
  "hm_new = \<lparr>hm_counts = []\<rparr>"

text \<open>\<open>counts_[k]++\<close>: a missing key is first inserted with count 0.\<close>

definition hm_record :: "hm \<Rightarrow> bytes \<Rightarrow> hm" where
  "hm_record h k =
     h\<lparr>hm_counts := AList.update k
         ((case map_of (hm_counts h) k of None \<Rightarrow> 0 | Some v \<Rightarrow> v) + 1) (hm_counts h)\<rparr>"

definition hm_estimate :: "hm \<Rightarrow> bytes \<Rightarrow> u64" where
  "hm_estimate h k = (case map_of (hm_counts h) k of None \<Rightarrow> 0 | Some v \<Rightarrow> v)"

definition hm_reset :: "hm \<Rightarrow> hm" where
  "hm_reset h = h\<lparr>hm_counts := []\<rparr>"

definition hm_memory_usage :: "u64 \<Rightarrow> (bytes \<Rightarrow> u64) \<Rightarrow> hm \<Rightarrow> u64" where
  "hm_memory_usage sz cap h =
     fold (\<lambda>(k, v) total. total + (cap k + 8 + 8 * 2)) (hm_counts h) sz"

definition hm_name :: "hm \<Rightarrow> string" where
  "hm_name h = ''hash_map_exact''"

definition hm_ops :: "u64 \<Rightarrow> (bytes \<Rightarrow> u64) \<Rightarrow> hm estimator_ops" where
  "hm_ops sz cap =
     \<lparr>op_record = (\<lambda>h k. Inr (hm_record h k)), op_estimate = (\<lambda>h k. Inr (hm_estimate h k)),
      op_reset = hm_reset, op_memory_usage = hm_memory_usage sz cap, op_name = hm_name\<rparr>"

section \<open>Correctness\<close>

definition hm_inv :: "hm \<Rightarrow> bytes list \<Rightarrow> bool" where
  "hm_inv h xs \<longleftrightarrow> distinct (map fst (hm_counts h)) \<and>
     fst ` set (hm_counts h) = set xs \<and> (\<forall>k. hm_estimate h k = of_nat (count_list xs k))"

lemma hm_inv_new: "hm_inv hm_new []"
  by (simp add: hm_inv_def hm_new_def hm_estimate_def)

lemma hm_estimate_record:
  "hm_estimate (hm_record h k) x = (if x = k then hm_estimate h x + 1 else hm_estimate h x)"
  by (simp add: hm_estimate_def hm_record_def alist_simps)

lemma hm_keys_record:
  "fst ` set (hm_counts (hm_record h k)) = insert k (fst ` set (hm_counts h))"
  by (simp add: hm_record_def AList.dom_update)

lemma hm_distinct_record:
  "distinct (map fst (hm_counts h)) \<Longrightarrow> distinct (map fst (hm_counts (hm_record h k)))"
  by (simp add: hm_record_def AList.distinct_update)

lemma hm_inv_record: "hm_inv h xs \<Longrightarrow> hm_inv (hm_record h k) (xs @ [k])"
  by (simp add: hm_inv_def hm_estimate_record hm_keys_record hm_distinct_record)

lemma hm_inv_reset: "hm_inv h xs \<Longrightarrow> hm_inv (hm_reset h) []"
  by (simp add: hm_inv_def hm_reset_def hm_estimate_def)

interpretation hm: exact_estimator "hm_ops sz cap" hm_inv for sz cap
proof unfold_locales
  fix e xs k
  assume inv: "hm_inv e xs"
  show "\<exists>e'. op_record (hm_ops sz cap) e k = Inr e' \<and> hm_inv e' (xs @ [k])"
    using hm_inv_record [OF inv] by (simp add: hm_ops_def)
  show "\<exists>n. op_estimate (hm_ops sz cap) e k = Inr n" by (simp add: hm_ops_def)
  show "hm_inv (op_reset (hm_ops sz cap) e) []"
    using hm_inv_reset [OF inv] by (simp add: hm_ops_def)
  show "unat n = count_list xs k"
    if "length xs < 2 ^ 64" "op_estimate (hm_ops sz cap) e k = Inr n" for n
    using inv that le_less_trans [OF count_le_length that(1), of k]
    by (auto simp: hm_ops_def hm_inv_def unat_of_nat_u64)
qed

text \<open>After a stream shorter than 2^64 the exact counter answers the true frequency of every
  key, seen or not, and holds one entry per distinct key.\<close>

theorem hm_exact_counts:
  assumes "length xs < 2 ^ 64"
  shows "unat (hm_estimate (fold (\<lambda>k h. hm_record h k) xs hm_new) k) = count_list xs k \<and>
     length (hm_counts (fold (\<lambda>k h. hm_record h k) xs hm_new)) = card (set xs)"
proof -
  have "hm_inv h ys \<Longrightarrow> hm_inv (fold (\<lambda>k h. hm_record h k) xs h) (ys @ xs)" for h ys
  proof (induction xs arbitrary: h ys)
    case (Cons x xs)
    from Cons.IH [OF hm_inv_record [OF Cons.prems, of x]] show ?case by simp
  qed simp
  from this [OF hm_inv_new] have inv: "hm_inv (fold (\<lambda>k h. hm_record h k) xs hm_new) xs"
    by simp
  have "count_list xs k < 2 ^ 64"
    using assms count_le_length [of xs k] by linarith
  moreover have "length (hm_counts (fold (\<lambda>k h. hm_record h k) xs hm_new)) = card (set xs)"
    using inv distinct_card [of "map fst (hm_counts (fold (\<lambda>k h. hm_record h k) xs hm_new))"]
    by (simp add: hm_inv_def)
  moreover have "hm_estimate (fold (\<lambda>k h. hm_record h k) xs hm_new) k = of_nat (count_list xs k)"
    using inv by (simp only: hm_inv_def)
  ultimately show ?thesis by (simp only: unat_of_nat_u64)
qed

theorem hm_exact_counts_witness:
  "unat (hm_estimate (fold (\<lambda>k h. hm_record h k) [[1], [2], [1]] hm_new) [1]) = 2"
proof -
  have h: "length [[1], [2], [1 :: u8]] < 2 ^ 64" by simp
  have c: "count_list [[1], [2], [1 :: u8]] [1] = 2" by simp
  show ?thesis
    by (rule trans [OF conjunct1 [OF hm_exact_counts [OF h]] c])
qed

end
