(* ===== verification/HeavyHitters.thy ===== *)
theory HeavyHitters
  imports Estimator
begin

text \<open>
  \<open>dsa::frequency::HeavyHitters\<close> (\<open>libdsa/src/frequency/heavy_hitters.cpp\<close>): the
  Misra-Gries summary with at most \<open>k - 1\<close> counters. The invariant keeps a ghost number \<open>d\<close> of
  decrement phases: each of them discards \<open>k\<close> stream elements, so \<open>k * d\<close> plus the counters is
  the length of the stream, and a counter lags behind the true count by at most \<open>d\<close>.
\<close>

section \<open>State and operations\<close>

record mg =
  mg_k :: u32
  mg_n :: u64
  mg_counters :: "(bytes \<times> u64) list"

definition mg_new :: "u32 \<Rightarrow> mg res" where
  "mg_new k =
     (if k < 2 then Inl (InvalidArgument ''HeavyHitters: k must be >= 2'')
      else Inr \<lparr>mg_k = k, mg_n = 0, mg_counters = []\<rparr>)"

text \<open>The decrement-all phase: subtract 1 from every counter, drop those reaching 0.\<close>

fun mg_decrement :: "(bytes \<times> u64) list \<Rightarrow> (bytes \<times> u64) list" where
  "mg_decrement [] = []"
| "mg_decrement ((k, v) # cs) =
     (if v - 1 = 0 then mg_decrement cs else (k, v - 1) # mg_decrement cs)"

definition mg_record :: "mg \<Rightarrow> bytes \<Rightarrow> mg" where
  "mg_record h0 s =
     (let h = h0\<lparr>mg_n := mg_n h0 + 1\<rparr> in
      case map_of (mg_counters h) s of
        Some v \<Rightarrow> h\<lparr>mg_counters := AList.update s (v + 1) (mg_counters h)\<rparr>
      | None \<Rightarrow>
          if length (mg_counters h) + 1 < unat (mg_k h)
          then h\<lparr>mg_counters := mg_counters h @ [(s, 1)]\<rparr>
          else h\<lparr>mg_counters := mg_decrement (mg_counters h)\<rparr>)"

definition mg_estimate :: "mg \<Rightarrow> bytes \<Rightarrow> u64" where
  "mg_estimate h s = (case map_of (mg_counters h) s of None \<Rightarrow> 0 | Some v \<Rightarrow> v)"

definition mg_reset :: "mg \<Rightarrow> mg" where
  "mg_reset h = h\<lparr>mg_counters := [], mg_n := 0\<rparr>"

text \<open>\<open>sz\<close> is \<open>sizeof(*this)\<close>, \<open>cap\<close> the capacity of a stored key.\<close>

definition mg_memory_usage :: "u64 \<Rightarrow> (bytes \<Rightarrow> u64) \<Rightarrow> mg \<Rightarrow> u64" where
  "mg_memory_usage sz cap h =
     fold (\<lambda>(k, v) total. total + (cap k + 8 + 8 * 2)) (mg_counters h) sz"

definition mg_name :: "mg \<Rightarrow> string" where
  "mg_name h = ''heavy_hitters''"

definition mg_ops :: "u64 \<Rightarrow> (bytes \<Rightarrow> u64) \<Rightarrow> mg estimator_ops" where
  "mg_ops sz cap =
     \<lparr>op_record = (\<lambda>h k. Inr (mg_record h k)), op_estimate = (\<lambda>h k. Inr (mg_estimate h k)),
      op_reset = mg_reset, op_memory_usage = mg_memory_usage sz cap, op_name = mg_name\<rparr>"

section \<open>The invariant\<close>

definition mg_total :: "(bytes \<times> u64) list \<Rightarrow> nat" where
  "mg_total cs = sum_list (map (\<lambda>(k, v). unat v) cs)"

definition mg_positive :: "(bytes \<times> u64) list \<Rightarrow> bool" where
  "mg_positive cs \<longleftrightarrow> (\<forall>(k, v) \<in> set cs. v \<noteq> 0)"

text \<open>The shape of the summary, whatever the stream.\<close>

definition mg_shape :: "mg \<Rightarrow> bool" where
  "mg_shape h \<longleftrightarrow> 2 \<le> mg_k h \<and> distinct (map fst (mg_counters h)) \<and>
     length (mg_counters h) < unat (mg_k h)"

text \<open>What it says of a stream \<open>xs\<close> after \<open>d\<close> decrement phases.\<close>

definition mg_tracks :: "mg \<Rightarrow> bytes list \<Rightarrow> nat \<Rightarrow> bool" where
  "mg_tracks h xs d \<longleftrightarrow>
     mg_n h = of_nat (length xs) \<and> mg_positive (mg_counters h) \<and>
     length xs = mg_total (mg_counters h) + unat (mg_k h) * d \<and>
     (\<forall>x. unat (mg_estimate h x) \<le> count_list xs x \<and>
          count_list xs x \<le> unat (mg_estimate h x) + d)"

definition mg_inv :: "mg \<Rightarrow> bytes list \<Rightarrow> bool" where
  "mg_inv h xs \<longleftrightarrow> mg_shape h \<and> (length xs < 2 ^ 64 \<longrightarrow> (\<exists>d. mg_tracks h xs d))"

lemma mg_new_inv: "mg_new k = Inr h \<Longrightarrow> mg_inv h []"
  by (auto simp: mg_new_def mg_inv_def mg_shape_def mg_tracks_def mg_total_def mg_estimate_def
      mg_positive_def word_le_nat_alt not_less split: if_splits intro!: exI [of _ 0])

subsection \<open>Decrementing\<close>

lemma mg_decrement_keys: "set (map fst (mg_decrement cs)) \<subseteq> set (map fst cs)"
  by (induction cs rule: mg_decrement.induct) auto

lemma mg_decrement_distinct:
  "distinct (map fst cs) \<Longrightarrow> distinct (map fst (mg_decrement cs))"
proof (induction cs rule: mg_decrement.induct)
  case (2 k v cs)
  with mg_decrement_keys [of cs] show ?case by auto
qed simp

lemma mg_decrement_length: "length (mg_decrement cs) \<le> length cs"
  by (induction cs rule: mg_decrement.induct) auto

lemma mg_decrement_nonzero: "mg_positive (mg_decrement cs)"
  unfolding mg_positive_def by (induction cs rule: mg_decrement.induct) auto

lemma mg_decrement_lookup:
  "distinct (map fst cs) \<Longrightarrow>
   map_of (mg_decrement cs) x =
     (case map_of cs x of None \<Rightarrow> None | Some v \<Rightarrow> if v - 1 = 0 then None else Some (v - 1))"
proof (induction cs rule: mg_decrement.induct)
  case (2 k v cs)
  have "map_of (mg_decrement cs) k = None"
    using 2(3) mg_decrement_keys [of cs] by (auto simp: map_of_eq_None_iff)
  moreover have "map_of cs k = None"
    using 2(3) by (simp add: map_of_eq_None_iff)
  ultimately show ?case using 2 by auto
qed simp

lemma unat_minus_one_nonzero: "v \<noteq> 0 \<Longrightarrow> unat (v - 1 :: u64) = unat v - 1"
  by (rule unat_minus_one)

lemma mg_decrement_total:
  "mg_positive cs \<Longrightarrow> mg_total cs = mg_total (mg_decrement cs) + length cs"
proof (induction cs rule: mg_decrement.induct)
  case (2 k v cs)
  have "0 < unat v" using 2(3) by (simp add: unat_gt_0 mg_positive_def)
  then show ?case
    using 2 by (auto simp: mg_total_def mg_positive_def unat_minus_one_nonzero)
qed (simp add: mg_total_def)

subsection \<open>Recording\<close>

lemma mg_total_update:
  "map_of cs k = Some v \<Longrightarrow> unat (v + 1) = unat v + 1 \<Longrightarrow>
   mg_total (AList.update k (v + 1) cs) = mg_total cs + 1"
  by (induction cs) (auto simp: mg_total_def split: if_splits)

lemma mg_update_positive:
  "mg_positive cs \<Longrightarrow> w \<noteq> 0 \<Longrightarrow> mg_positive (AList.update x w cs)"
  unfolding mg_positive_def by (induction cs) auto

text \<open>The three branches of \<open>record\<close>.\<close>

lemma mg_record_hit:
  "map_of (mg_counters h) k = Some v \<Longrightarrow> mg_record h k =
     h\<lparr>mg_n := mg_n h + 1, mg_counters := AList.update k (v + 1) (mg_counters h)\<rparr>"
  by (simp add: mg_record_def Let_def)

lemma mg_record_add:
  "map_of (mg_counters h) k = None \<Longrightarrow> length (mg_counters h) + 1 < unat (mg_k h) \<Longrightarrow>
   mg_record h k = h\<lparr>mg_n := mg_n h + 1, mg_counters := mg_counters h @ [(k, 1)]\<rparr>"
  by (simp add: mg_record_def Let_def)

lemma mg_record_drop:
  "map_of (mg_counters h) k = None \<Longrightarrow> \<not> length (mg_counters h) + 1 < unat (mg_k h) \<Longrightarrow>
   mg_record h k = h\<lparr>mg_n := mg_n h + 1, mg_counters := mg_decrement (mg_counters h)\<rparr>"
  by (simp add: mg_record_def Let_def)

lemmas mg_branches = mg_record_hit mg_record_add mg_record_drop

lemma mg_branch_cases:
  obtains (hit) v where "map_of (mg_counters h) k = Some v"
  | (add) "map_of (mg_counters h) k = None" "length (mg_counters h) + 1 < unat (mg_k h)"
  | (drop) "map_of (mg_counters h) k = None" "\<not> length (mg_counters h) + 1 < unat (mg_k h)"
  by (cases "map_of (mg_counters h) k") auto

lemma mg_record_k [simp]: "mg_k (mg_record h k) = mg_k h"
  by (rule mg_branch_cases [of h k]) (simp_all add: mg_branches)

lemma mg_record_shape:
  assumes h: "mg_shape h"
  shows "mg_shape (mg_record h k)"
proof (rule mg_branch_cases [of h k])
  fix v
  assume v: "map_of (mg_counters h) k = Some v"
  then have "k \<in> fst ` set (mg_counters h)"
    by (metis map_of_eq_None_iff option.distinct(1))
  then have "length (AList.update k (v + 1) (mg_counters h)) = length (mg_counters h)"
    using alist_update_keys [of k "v + 1" "mg_counters h"] by (metis length_map)
  with v h show ?thesis by (simp add: mg_record_hit mg_shape_def AList.distinct_update)
next
  assume "map_of (mg_counters h) k = None" "length (mg_counters h) + 1 < unat (mg_k h)"
  with h show ?thesis by (simp add: mg_record_add mg_shape_def map_of_eq_None_iff)
next
  assume "map_of (mg_counters h) k = None" "\<not> length (mg_counters h) + 1 < unat (mg_k h)"
  with h mg_decrement_length [of "mg_counters h"] show ?thesis
    by (simp add: mg_record_drop mg_shape_def mg_decrement_distinct)
qed

lemma mg_tracks_hit:
  assumes "mg_tracks h xs d" and "length xs + 1 < 2 ^ 64" and "map_of (mg_counters h) k = Some v"
  shows "mg_tracks (mg_record h k) (xs @ [k]) d"
proof -
  have "unat v \<le> count_list xs k"
    using assms(1,3) by (auto simp: mg_tracks_def mg_estimate_def split: option.splits)
  then have "unat v + 1 < 2 ^ 64"
    using assms(2) count_le_length [of xs k] by linarith
  then have v: "unat (v + 1) = unat v + 1"
    by (simp add: unat_word_ariths)
  then have "v + 1 \<noteq> 0" by (metis add_is_0 unat_0 one_neq_zero)
  then have "mg_positive (AList.update k (v + 1) (mg_counters h))"
    using assms(1) by (intro mg_update_positive) (simp_all add: mg_tracks_def)
  moreover have "mg_estimate (mg_record h k) x = (if x = k then v + 1 else mg_estimate h x)" for x
    using assms(3) by (simp add: mg_record_hit mg_estimate_def alist_simps)
  moreover have "mg_estimate h k = v"
    using assms(3) by (simp add: mg_estimate_def)
  moreover note mg_total_update [OF assms(3) v]
  ultimately show ?thesis
    using assms(1,3) v unfolding mg_tracks_def by (auto simp: mg_record_hit)
qed

lemma mg_tracks_add:
  assumes "mg_tracks h xs d" and "map_of (mg_counters h) k = None"
    and "length (mg_counters h) + 1 < unat (mg_k h)"
  shows "mg_tracks (mg_record h k) (xs @ [k]) d"
proof -
  have "mg_estimate (mg_record h k) x = (if x = k then 1 else mg_estimate h x)" for x
    using assms(2,3) by (auto simp: mg_record_add mg_estimate_def map_add_def split: option.split)
  moreover have "mg_estimate h k = 0"
    using assms(2) by (simp add: mg_estimate_def)
  moreover from this have "count_list xs k \<le> d"
    using assms(1) unfolding mg_tracks_def by (metis add_0 unat_0)
  ultimately show ?thesis
    using assms unfolding mg_tracks_def
    by (auto simp: mg_record_add mg_positive_def mg_total_def)
qed

lemma mg_tracks_drop:
  assumes "mg_tracks h xs d" and "mg_shape h" and "map_of (mg_counters h) k = None"
    and "\<not> length (mg_counters h) + 1 < unat (mg_k h)"
  shows "mg_tracks (mg_record h k) (xs @ [k]) (d + 1)"
proof -
  have pos: "mg_positive (mg_counters h)" using assms(1) by (simp add: mg_tracks_def)
  have len: "length (mg_counters h) + 1 = unat (mg_k h)"
    using assms(2,4) by (simp add: mg_shape_def)
  have est: "unat (mg_estimate (mg_record h k) x) = unat (mg_estimate h x) - 1" for x
  proof (cases "map_of (mg_counters h) x")
    case (Some v)
    then have "v \<noteq> 0" using pos map_of_SomeD by (force simp: mg_positive_def)
    with Some assms(2-4) show ?thesis
      by (auto simp: mg_record_drop mg_estimate_def mg_decrement_lookup mg_shape_def
          unat_minus_one_nonzero)
  qed (use assms(2-4) in \<open>simp add: mg_record_drop mg_estimate_def mg_decrement_lookup mg_shape_def\<close>)
  have zero: "mg_estimate h k = 0"
    using assms(3) by (simp add: mg_estimate_def)
  have bounds: "unat (mg_estimate (mg_record h k) x) \<le> count_list (xs @ [k]) x \<and>
      count_list (xs @ [k]) x \<le> unat (mg_estimate (mg_record h k) x) + (d + 1)" for x
  proof -
    have "unat (mg_estimate h x) \<le> count_list xs x" "count_list xs x \<le> unat (mg_estimate h x) + d"
      using assms(1) by (simp_all add: mg_tracks_def)
    then show ?thesis using zero by (auto simp: est)
  qed
  have "mg_positive (mg_counters (mg_record h k))"
    using assms(3,4) by (simp add: mg_record_drop mg_decrement_nonzero)
  moreover have "length (xs @ [k]) =
      mg_total (mg_counters (mg_record h k)) + unat (mg_k (mg_record h k)) * (d + 1)"
    using assms(1,3,4) len mg_decrement_total [OF pos]
    by (simp add: mg_tracks_def mg_record_drop algebra_simps)
  moreover have "mg_n (mg_record h k) = of_nat (length (xs @ [k]))"
    using assms(1,3,4) by (simp add: mg_tracks_def mg_record_drop)
  ultimately show ?thesis using bounds unfolding mg_tracks_def by blast
qed

lemma mg_inv_record:
  assumes "mg_inv h xs"
  shows "mg_inv (mg_record h k) (xs @ [k])"
proof -
  have "\<exists>d. mg_tracks (mg_record h k) (xs @ [k]) d" if len: "length (xs @ [k]) < 2 ^ 64"
  proof -
    from assms len obtain d where d: "mg_tracks h xs d" and "mg_shape h"
      by (auto simp: mg_inv_def)
    then show ?thesis
      using len mg_tracks_hit [OF d, of k] mg_tracks_add [OF d, of k] mg_tracks_drop [OF d, of k]
      by (cases h k rule: mg_branch_cases) auto
  qed
  then show ?thesis using assms by (simp add: mg_inv_def mg_record_shape)
qed

lemma mg_inv_reset: "mg_inv h xs \<Longrightarrow> mg_inv (mg_reset h) []"
  by (auto simp: mg_inv_def mg_shape_def mg_reset_def mg_tracks_def mg_positive_def mg_total_def
      mg_estimate_def word_le_nat_alt intro!: exI [of _ 0])

interpretation mg: under_estimator "mg_ops sz cap" mg_inv for sz cap
proof unfold_locales
  fix e xs k
  assume inv: "mg_inv e xs"
  show "\<exists>e'. op_record (mg_ops sz cap) e k = Inr e' \<and> mg_inv e' (xs @ [k])"
    using mg_inv_record [OF inv] by (simp add: mg_ops_def)
  show "\<exists>n. op_estimate (mg_ops sz cap) e k = Inr n" by (simp add: mg_ops_def)
  show "mg_inv (op_reset (mg_ops sz cap) e) []"
    using mg_inv_reset [OF inv] by (simp add: mg_ops_def)
  show "unat n \<le> count_list xs k"
    if "length xs < 2 ^ 64" "op_estimate (mg_ops sz cap) e k = Inr n" for n
    using inv that by (auto simp: mg_ops_def mg_inv_def mg_tracks_def)
qed

section \<open>The Misra-Gries bounds\<close>

lemma mg_stream_inv:
  "mg_inv h ys \<Longrightarrow> mg_inv (fold (\<lambda>k h. mg_record h k) xs h) (ys @ xs)"
proof (induction xs arbitrary: h ys)
  case (Cons x xs)
  from Cons.IH [OF mg_inv_record [OF Cons.prems, of x]] show ?case by simp
qed simp

lemma mg_stream_k: "mg_k (fold (\<lambda>k h. mg_record h k) xs h) = mg_k h"
  by (induction xs arbitrary: h) auto

lemma mg_stream_bounds:
  assumes "mg_new k = Inr h0" and "length xs < 2 ^ 64"
    and "h = fold (\<lambda>x h. mg_record h x) xs h0"
  shows "unat (mg_estimate h x) \<le> count_list xs x \<and>
     unat k * (count_list xs x - unat (mg_estimate h x)) \<le> length xs \<and>
     length (mg_counters h) \<le> unat k - 1 \<and> unat (mg_n h) = length xs"
proof -
  have k: "mg_k h = k"
    using assms(1,3) by (auto simp: mg_stream_k mg_new_def split: if_splits)
  have inv: "mg_inv h xs"
    using mg_stream_inv [OF mg_new_inv [OF assms(1)]] assms(3) by simp
  then obtain d where d: "mg_tracks h xs d" and shape: "mg_shape h"
    using assms(2) by (auto simp: mg_inv_def)
  have "unat (mg_estimate h x) \<le> count_list xs x" "count_list xs x \<le> unat (mg_estimate h x) + d"
    and len: "length xs = mg_total (mg_counters h) + unat k * d"
    and n: "mg_n h = of_nat (length xs)"
    using d k by (simp_all add: mg_tracks_def)
  moreover from this have "unat k * (count_list xs x - unat (mg_estimate h x)) \<le> unat k * d"
    by (intro mult_le_mono) auto
  then have "unat k * (count_list xs x - unat (mg_estimate h x)) \<le> length xs"
    using len by linarith
  moreover have "unat (mg_n h) = length xs"
    unfolding n by (rule unat_of_nat_u64 [OF assms(2)])
  moreover have "length (mg_counters h) \<le> unat k - 1"
    using shape k by (simp add: mg_shape_def) linarith
  ultimately show ?thesis by blast
qed

text \<open>C21: The Misra-Gries guarantee: after a stream of \<open>n < 2^64\<close> keys an estimate never exceeds
  the true frequency, falls short of it by at most \<open>n / k\<close>, at most \<open>k - 1\<close> counters are in
  use, and \<open>stream_length\<close> is \<open>n\<close>.\<close>

theorem mg_bounds:
  assumes "mg_new k = Inr h0" and "length xs < 2 ^ 64"
    and "h = fold (\<lambda>x h. mg_record h x) xs h0"
  shows "unat (mg_estimate h x) \<le> count_list xs x \<and>
     unat k * (count_list xs x - unat (mg_estimate h x)) \<le> length xs \<and>
     length (mg_counters h) \<le> unat k - 1 \<and> unat (mg_n h) = length xs"
  using assms by (rule mg_stream_bounds)

theorem mg_bounds_witness:
  "unat (mg_estimate (fold (\<lambda>x h. mg_record h x) [[1], [2], [1], [3]]
     \<lparr>mg_k = 2, mg_n = 0, mg_counters = []\<rparr>) [1]) \<le> 2"
proof -
  have h: "length [[1], [2], [1], [3 :: u8]] < 2 ^ 64"
    and new: "mg_new 2 = Inr \<lparr>mg_k = 2, mg_n = 0, mg_counters = []\<rparr>"
    and c: "count_list [[1], [2], [1], [3 :: u8]] [1] = 2"
    by (simp_all add: mg_new_def)
  show ?thesis
    using conjunct1 [OF mg_bounds [OF new h refl, of "[1]"]] unfolding c .
qed

text \<open>A key that makes up more than one \<open>k\<close>-th of the stream is always reported.\<close>

theorem mg_finds_heavy_hitters:
  assumes "mg_new k = Inr h0" and "length xs < 2 ^ 64" and "length xs < unat k * count_list xs x"
  shows "mg_estimate (fold (\<lambda>x h. mg_record h x) xs h0) x \<noteq> 0"
proof
  obtain d where "mg_tracks (fold (\<lambda>x h. mg_record h x) xs h0) xs d"
    using mg_stream_inv [OF mg_new_inv [OF assms(1)], of xs] assms(2) by (auto simp: mg_inv_def)
  moreover assume "mg_estimate (fold (\<lambda>x h. mg_record h x) xs h0) x = 0"
  moreover have "mg_k (fold (\<lambda>x h. mg_record h x) xs h0) = k"
    using assms(1) by (auto simp: mg_stream_k mg_new_def split: if_splits)
  ultimately have "count_list xs x \<le> d" "unat k * d \<le> length xs"
    unfolding mg_tracks_def by (metis add_0 unat_0, simp)
  then have "unat k * count_list xs x \<le> length xs"
    using mult_le_mono2 order_trans by blast
  with assms(3) show False by simp
qed

theorem mg_finds_heavy_hitters_witness:
  "mg_estimate (fold (\<lambda>x h. mg_record h x) [[1], [2], [1]]
     \<lparr>mg_k = 2, mg_n = 0, mg_counters = []\<rparr>) [1] \<noteq> 0"
  by (rule mg_finds_heavy_hitters [of 2]) (simp_all add: mg_new_def)

end
