(* ===== verification/DirectedGraph.thy ===== *)
theory DirectedGraph
  imports Prelude
begin

text \<open>
  \<open>dsa::graph::DirectedGraph\<close> (\<open>libdsa/src/graph/directed_graph.cpp\<close>): a hash map from
  vertices to their neighbour sets and a running edge count. Both containers are iterated over
  by the algorithms, so they are lists: \<open>adj\<close> in the iteration order of the hash map and each
  neighbour list in that of its set. The order of a graph is arbitrary in every theorem about
  an algorithm, which therefore holds for any hash function.

  The abstract graph is the set \<open>verts\<close> and the relation \<open>edges\<close>; \<open>graph_ok\<close> is the class
  invariant, kept by every operation.
\<close>

section \<open>State and operations\<close>

record graph =
  adj :: "(u32 \<times> u32 list) list"
  edge_count :: nat

definition graph_empty :: graph where
  "graph_empty = \<lparr>adj = [], edge_count = 0\<rparr>"

definition has_vertex :: "graph \<Rightarrow> u32 \<Rightarrow> bool" where
  "has_vertex g v \<longleftrightarrow> map_of (adj g) v \<noteq> None"

definition has_edge :: "graph \<Rightarrow> u32 \<Rightarrow> u32 \<Rightarrow> bool" where
  "has_edge g u v = (case map_of (adj g) u of None \<Rightarrow> False | Some ns \<Rightarrow> v \<in> set ns)"

definition neighbors :: "graph \<Rightarrow> u32 \<Rightarrow> u32 list" where
  "neighbors g v = (case map_of (adj g) v of None \<Rightarrow> [] | Some ns \<Rightarrow> ns)"

definition vertices :: "graph \<Rightarrow> u32 list" where
  "vertices g = map fst (adj g)"

definition num_vertices :: "graph \<Rightarrow> nat" where
  "num_vertices g = length (adj g)"

definition num_edges :: "graph \<Rightarrow> nat" where
  "num_edges g = edge_count g"

text \<open>\<open>adj_.try_emplace(v)\<close>\<close>

definition add_vertex :: "graph \<Rightarrow> u32 \<Rightarrow> graph" where
  "add_vertex g v = (if has_vertex g v then g else g\<lparr>adj := adj g @ [(v, [])]\<rparr>)"

definition add_edge :: "graph \<Rightarrow> u32 \<Rightarrow> u32 \<Rightarrow> graph" where
  "add_edge g0 u v =
     (let g = add_vertex (add_vertex g0 u) v; ns = neighbors g u
      in if v \<in> set ns then g
         else g\<lparr>adj := AList.update u (ns @ [v]) (adj g), edge_count := edge_count g + 1\<rparr>)"

definition remove_edge :: "graph \<Rightarrow> u32 \<Rightarrow> u32 \<Rightarrow> graph" where
  "remove_edge g u v =
     (case map_of (adj g) u of
        None \<Rightarrow> g
      | Some ns \<Rightarrow>
          if v \<in> set ns
          then g\<lparr>adj := AList.update u (remove1 v ns) (adj g), edge_count := edge_count g - 1\<rparr>
          else g)"

definition transpose_graph :: "graph \<Rightarrow> graph" where
  "transpose_graph g =
     fold (\<lambda>(u, ns) gt. fold (\<lambda>v gt. add_edge gt v u) ns (add_vertex gt u)) (adj g) graph_empty"

definition clear_graph :: "graph \<Rightarrow> graph" where
  "clear_graph g = g\<lparr>adj := [], edge_count := 0\<rparr>"

section \<open>The abstract graph\<close>

definition verts :: "graph \<Rightarrow> u32 set" where
  "verts g = fst ` set (adj g)"

definition edges :: "graph \<Rightarrow> (u32 \<times> u32) set" where
  "edges g = {(u, v). v \<in> set (neighbors g u)}"

definition graph_ok :: "graph \<Rightarrow> bool" where
  "graph_ok g \<longleftrightarrow>
     distinct (map fst (adj g)) \<and> (\<forall>u. distinct (neighbors g u)) \<and>
     Range (edges g) \<subseteq> verts g \<and> edge_count g = card (edges g)"

named_theorems graph_simps "the operations on the abstract graph"

lemma edges_iff: "(u, v) \<in> edges g \<longleftrightarrow> v \<in> set (neighbors g u)"
  by (simp add: edges_def)

lemma finite_edges [simp]: "finite (edges g)"
  by (rule finite_subset [of _ UNIV]) auto

lemma has_vertex_iff [graph_simps]: "has_vertex g v \<longleftrightarrow> v \<in> verts g"
  by (auto simp: has_vertex_def verts_def map_of_eq_None_iff)

lemma has_edge_iff [graph_simps]: "has_edge g u v \<longleftrightarrow> (u, v) \<in> edges g"
  by (auto simp: has_edge_def edges_def neighbors_def split: option.split)

lemma set_vertices [graph_simps]: "set (vertices g) = verts g"
  by (simp add: vertices_def verts_def)

lemma distinct_vertices: "graph_ok g \<Longrightarrow> distinct (vertices g)"
  by (simp add: graph_ok_def vertices_def)

lemma distinct_neighbors: "graph_ok g \<Longrightarrow> distinct (neighbors g u)"
  by (simp add: graph_ok_def)

lemma neighbors_not_vert: "u \<notin> verts g \<Longrightarrow> neighbors g u = []"
  by (simp add: neighbors_def verts_def flip: map_of_eq_None_iff)

lemma edges_verts: "graph_ok g \<Longrightarrow> (u, v) \<in> edges g \<Longrightarrow> u \<in> verts g \<and> v \<in> verts g"
proof
  assume ok: "graph_ok g" and e: "(u, v) \<in> edges g"
  show "u \<in> verts g"
    using e neighbors_not_vert [of u g] by (cases "u \<in> verts g") (auto simp: edges_iff)
  show "v \<in> verts g" using ok e by (auto simp: graph_ok_def)
qed

lemma num_vertices_card: "graph_ok g \<Longrightarrow> num_vertices g = card (verts g)"
  by (metis distinct_card distinct_vertices length_map num_vertices_def set_vertices vertices_def)

lemma graph_empty_simps [graph_simps]: "verts graph_empty = {}" "edges graph_empty = {}"
  by (simp_all add: verts_def edges_def graph_empty_def neighbors_def)

lemma graph_empty_ok: "graph_ok graph_empty"
  by (simp add: graph_ok_def graph_empty_simps) (simp add: graph_empty_def neighbors_def)

subsection \<open>Vertices and edges\<close>

lemma neighbors_add_vertex: "neighbors (add_vertex g v) u = neighbors g u"
  by (auto simp: neighbors_def add_vertex_def has_vertex_def map_add_def split: option.split)

lemma neighbors_put:
  "neighbors (g\<lparr>adj := AList.update u ns (adj g), edge_count := n\<rparr>) w =
     (if w = u then ns else neighbors g w)"
  by (simp add: neighbors_def alist_simps)

lemma add_vertex_simps [graph_simps]:
  "verts (add_vertex g v) = insert v (verts g)"
  "edges (add_vertex g v) = edges g"
  "edge_count (add_vertex g v) = edge_count g"
proof -
  show "verts (add_vertex g v) = insert v (verts g)"
    by (simp add: add_vertex_def has_vertex_iff) (auto simp: verts_def)
  show "edges (add_vertex g v) = edges g" by (simp add: edges_def neighbors_add_vertex)
  show "edge_count (add_vertex g v) = edge_count g" by (simp add: add_vertex_def)
qed

lemma add_vertex_ok:
  assumes "graph_ok g"
  shows "graph_ok (add_vertex g v)"
proof -
  have "distinct (map fst (adj (add_vertex g v)))"
    using assms by (auto simp: add_vertex_def has_vertex_iff verts_def graph_ok_def)
  then show ?thesis
    using assms by (auto simp: graph_ok_def add_vertex_simps neighbors_add_vertex)
qed

lemma neighbors_add_edge:
  "neighbors (add_edge g u v) w =
     (if w = u \<and> v \<notin> set (neighbors g u) then neighbors g u @ [v] else neighbors g w)"
  by (simp add: add_edge_def Let_def neighbors_add_vertex neighbors_put)

lemma add_edge_simps [graph_simps]:
  "verts (add_edge g u v) = insert u (insert v (verts g))"
  "edges (add_edge g u v) = insert (u, v) (edges g)"
proof -
  show "edges (add_edge g u v) = insert (u, v) (edges g)"
    by (auto simp: edges_def neighbors_add_edge split: if_splits)
  show "verts (add_edge g u v) = insert u (insert v (verts g))"
    by (simp add: add_edge_def Let_def verts_def AList.dom_update add_vertex_simps(1) [unfolded verts_def])
      blast
qed

lemma add_edge_count:
  "edge_count (add_edge g u v) = (if (u, v) \<in> edges g then edge_count g else edge_count g + 1)"
  by (simp add: add_edge_def Let_def neighbors_add_vertex edges_iff graph_simps)

lemma add_edge_ok:
  assumes "graph_ok g"
  shows "graph_ok (add_edge g u v)"
proof -
  have "distinct (map fst (adj (add_vertex (add_vertex g u) v)))"
    using assms add_vertex_ok by (simp add: graph_ok_def)
  then have "distinct (map fst (adj (add_edge g u v)))"
    by (simp add: add_edge_def Let_def AList.distinct_update)
  then show ?thesis
    using assms by (auto simp: graph_ok_def neighbors_add_edge graph_simps add_edge_count
        insert_absorb card_insert_if)
qed

lemma neighbors_remove_edge:
  "neighbors (remove_edge g u v) w = (if w = u then remove1 v (neighbors g u) else neighbors g w)"
  by (auto simp: remove_edge_def neighbors_def alist_simps remove1_idem split: option.split)

lemma remove_edge_simps [graph_simps]:
  "verts (remove_edge g u v) = verts g"
  "graph_ok g \<Longrightarrow> edges (remove_edge g u v) = edges g - {(u, v)}"
proof -
  have "u \<in> fst ` set (adj g)" if "map_of (adj g) u = Some ns" for ns
    using that by (metis map_of_eq_None_iff option.distinct(1))
  then show "verts (remove_edge g u v) = verts g"
    by (auto simp: remove_edge_def verts_def AList.dom_update split: option.split)
  show "edges (remove_edge g u v) = edges g - {(u, v)}" if "graph_ok g"
    using that by (auto simp: edges_def neighbors_remove_edge graph_ok_def split: if_splits)
qed

lemma remove_edge_count:
  "edge_count (remove_edge g u v) = (if (u, v) \<in> edges g then edge_count g - 1 else edge_count g)"
  by (auto simp: remove_edge_def edges_iff neighbors_def split: option.split)

lemma remove_edge_ok:
  assumes "graph_ok g"
  shows "graph_ok (remove_edge g u v)"
proof -
  have "distinct (map fst (adj (remove_edge g u v)))"
    using assms by (simp add: remove_edge_def graph_ok_def AList.distinct_update split: option.split)
  then show ?thesis
    using assms by (auto simp: graph_ok_def neighbors_remove_edge graph_simps remove_edge_count
        card_Diff_singleton_if)
qed

lemma clear_graph_ok:
  "graph_ok (clear_graph g)" "verts (clear_graph g) = {}" "edges (clear_graph g) = {}"
  by (simp_all add: graph_ok_def clear_graph_def verts_def edges_def neighbors_def)

subsection \<open>The reverse graph\<close>

lemma fold_add_edge:
  "edges (fold (\<lambda>v gt. add_edge gt v u) ns gt) = edges gt \<union> (\<lambda>v. (v, u)) ` set ns"
  "verts (fold (\<lambda>v gt. add_edge gt v u) ns gt) =
     (if ns = [] then verts gt else insert u (set ns \<union> verts gt))"
  "graph_ok gt \<Longrightarrow> graph_ok (fold (\<lambda>v gt. add_edge gt v u) ns gt)"
proof (induction ns arbitrary: gt)
  case (Cons n ns)
  { case 1 show ?case using Cons.IH(1) by (auto simp: graph_simps) }
  { case 2 show ?case using Cons.IH(2) by (auto simp: graph_simps) }
  { case 3 then show ?case using Cons.IH(3) by (simp add: add_edge_ok) }
qed auto

definition transpose_into :: "(u32 \<times> u32 list) list \<Rightarrow> graph \<Rightarrow> graph" where
  "transpose_into al gt =
     fold (\<lambda>(u, ns) gt. fold (\<lambda>v gt. add_edge gt v u) ns (add_vertex gt u)) al gt"

lemma transpose_into:
  "edges (transpose_into al gt) = edges gt \<union> {(v, u). \<exists>ns. (u, ns) \<in> set al \<and> v \<in> set ns}"
  "verts (transpose_into al gt) = verts gt \<union> fst ` set al \<union> (\<Union>(u, ns) \<in> set al. set ns)"
  "graph_ok gt \<Longrightarrow> graph_ok (transpose_into al gt)"
proof (induction al arbitrary: gt)
  case (Cons p al)
  obtain u ns where p: "p = (u, ns)" by (cases p)
  have step: "transpose_into (p # al) gt =
      transpose_into al (fold (\<lambda>v gt. add_edge gt v u) ns (add_vertex gt u))" for gt
    by (simp add: transpose_into_def p)
  { case 1 show ?case unfolding step Cons.IH(1) by (auto simp: p fold_add_edge(1) graph_simps) }
  { case 2 show ?case unfolding step Cons.IH(2) by (auto simp: p fold_add_edge(2) graph_simps) }
  { case 3 then show ?case unfolding step
      by (intro Cons.IH(3) fold_add_edge(3) add_vertex_ok) }
qed (simp_all add: transpose_into_def)

lemma transpose_graph_into: "transpose_graph g = transpose_into (adj g) graph_empty"
  by (simp add: transpose_graph_def transpose_into_def)

lemma entry_iff_edge:
  "distinct (map fst (adj g)) \<Longrightarrow> (\<exists>ns. (u, ns) \<in> set (adj g) \<and> v \<in> set ns) \<longleftrightarrow> (u, v) \<in> edges g"
  by (auto simp: edges_def neighbors_def split: option.split dest: map_of_SomeD)

lemma transpose_graph_ok:
  assumes "graph_ok g"
  shows "graph_ok (transpose_graph g)" and "edges (transpose_graph g) = (edges g)\<inverse>"
    and "verts (transpose_graph g) = verts g"
proof -
  show "graph_ok (transpose_graph g)"
    unfolding transpose_graph_into by (intro transpose_into(3) graph_empty_ok)
  have d: "distinct (map fst (adj g))" using assms by (simp add: graph_ok_def)
  then show "edges (transpose_graph g) = (edges g)\<inverse>"
    by (auto simp: transpose_graph_into transpose_into(1) graph_simps entry_iff_edge)
  have "v \<in> verts g" if "(u, ns) \<in> set (adj g)" "v \<in> set ns" for u v ns
    using that d entry_iff_edge [OF d] edges_verts [OF assms] by blast
  then show "verts (transpose_graph g) = verts g"
    by (auto simp: transpose_graph_into transpose_into(2) graph_simps) (auto simp: verts_def intro: rev_image_eqI)
qed

section \<open>Any history of operations\<close>

datatype graph_op =
    AddVertex u32 | AddEdge u32 u32 | RemoveEdge u32 u32 | Transpose | Clear

fun graph_step :: "graph \<Rightarrow> graph_op \<Rightarrow> graph" where
  "graph_step g (AddVertex v) = add_vertex g v"
| "graph_step g (AddEdge u v) = add_edge g u v"
| "graph_step g (RemoveEdge u v) = remove_edge g u v"
| "graph_step g Transpose = transpose_graph g"
| "graph_step g Clear = clear_graph g"

definition graph_run :: "graph_op list \<Rightarrow> graph" where
  "graph_run ops = fold (\<lambda>x g. graph_step g x) ops graph_empty"

lemma graph_step_ok: "graph_ok g \<Longrightarrow> graph_ok (graph_step g x)"
  by (cases x)
    (simp_all add: add_vertex_ok add_edge_ok remove_edge_ok transpose_graph_ok clear_graph_ok)

lemma graph_run_ok: "graph_ok (graph_run ops)"
proof -
  have "graph_ok g \<Longrightarrow> graph_ok (fold (\<lambda>x g. graph_step g x) ops g)" for g
    by (induction ops arbitrary: g) (simp_all add: graph_step_ok)
  then show ?thesis by (simp add: graph_run_def graph_empty_ok)
qed

text \<open>The specification of one operation on the abstract graph.\<close>

fun spec_step :: "u32 set \<times> (u32 \<times> u32) set \<Rightarrow> graph_op \<Rightarrow> u32 set \<times> (u32 \<times> u32) set" where
  "spec_step (V, E) (AddVertex v) = (insert v V, E)"
| "spec_step (V, E) (AddEdge u v) = (insert u (insert v V), insert (u, v) E)"
| "spec_step (V, E) (RemoveEdge u v) = (V, E - {(u, v)})"
| "spec_step (V, E) Transpose = (V, E\<inverse>)"
| "spec_step (V, E) Clear = ({}, {})"

text \<open>C24: Whatever sequence of operations built a graph, its hash-map representation refines the
  mathematical one: it has exactly the vertices and edges that the same operations give on a
  set of vertices and a set of edges.\<close>

theorem graph_refines_sets:
  "({v. has_vertex (graph_run ops) v}, {(u, v). has_edge (graph_run ops) u v}) =
     fold (\<lambda>x s. spec_step s x) ops ({}, {})"
proof -
  have step: "(verts (graph_step g x), edges (graph_step g x)) = spec_step (verts g, edges g) x"
    if "graph_ok g" for g x
    using that by (cases x) (simp_all add: graph_simps transpose_graph_ok clear_graph_ok)
  have "(verts (fold (\<lambda>x g. graph_step g x) ops g), edges (fold (\<lambda>x g. graph_step g x) ops g)) =
      fold (\<lambda>x s. spec_step s x) ops (verts g, edges g)" if "graph_ok g" for g
    using that by (induction ops arbitrary: g) (simp_all add: step graph_step_ok)
  from this [OF graph_empty_ok] show ?thesis
    by (simp add: graph_run_def graph_simps)
qed

text \<open>After any sequence of operations the counters are right and the graph is closed: \<open>num_edges\<close>
  is the number of edges, \<open>num_vertices\<close> that of vertices, \<open>vertices\<close> lists each once, and both
  ends of every edge are vertices.\<close>

theorem graph_counts:
  "num_edges (graph_run ops) = card {(u, v). has_edge (graph_run ops) u v} \<and>
   num_vertices (graph_run ops) = card {v. has_vertex (graph_run ops) v} \<and>
   distinct (vertices (graph_run ops)) \<and>
   (\<forall>u v. has_edge (graph_run ops) u v \<longrightarrow>
      has_vertex (graph_run ops) u \<and> has_vertex (graph_run ops) v)"
proof -
  have ok: "graph_ok (graph_run ops)" by (rule graph_run_ok)
  have "num_edges (graph_run ops) = card (edges (graph_run ops))"
    using ok by (simp add: graph_ok_def num_edges_def)
  with ok show ?thesis
    using edges_verts [OF ok]
    by (simp add: graph_simps num_vertices_card distinct_vertices)
qed

theorem graph_counts_witness:
  "has_edge (graph_run [AddEdge 1 2]) 1 2 \<and> has_vertex (graph_run [AddEdge 1 2]) 2"
proof -
  have e: "has_edge (graph_run [AddEdge 1 2]) 1 2"
    by (simp add: graph_run_def graph_simps)
  with graph_counts [of "[AddEdge 1 2]"] show ?thesis by blast
qed

end
