(* ===== verification/Reachability.thy ===== *)
theory Reachability
  imports DirectedGraph "HOL-Library.Product_Lexorder"
begin

text \<open>
  The blast-radius analysers (\<open>libdsa/src/graph/bfs.cpp\<close>, \<open>libdsa/src/graph/dijkstra.cpp\<close>):
  both compute the vertices within \<open>max_hops\<close> of a source with their distances, BFS with a FIFO
  queue, Dijkstra with a heap of (distance, vertex) pairs. A \<open>ReachabilityResult\<close> is the list of
  its entries; the heap is the sorted list of its entries, whose head is \<open>top()\<close>.

  The specification is \<open>hops g s v d\<close>: \<open>d\<close> is the length of a shortest path. The locale
  \<open>reachability\<close> is the contract of the interface \<open>ReachabilityAnalyzer\<close>, met by both.
\<close>

type_synonym distances = "(u32 \<times> int) list"

section \<open>Breadth-first search\<close>

text \<open>\<open>result[u]\<close>: the stored distance, after inserting 0 for a missing key.\<close>

definition dist_at :: "distances \<Rightarrow> u32 \<Rightarrow> distances \<times> int" where
  "dist_at result u =
     (case map_of result u of Some d \<Rightarrow> (result, d) | None \<Rightarrow> (result @ [(u, 0)], 0))"

fun bfs_visit :: "int \<Rightarrow> u32 list \<Rightarrow> distances \<Rightarrow> u32 list \<Rightarrow> distances \<times> u32 list" where
  "bfs_visit d [] result q = (result, q)"
| "bfs_visit d (v # vs) result q =
     (if map_of result v = None then bfs_visit d vs (result @ [(v, d + 1)]) (q @ [v])
      else bfs_visit d vs result q)"

definition unseen :: "distances \<Rightarrow> nat" where
  "unseen r = card (- dom (map_of r))"

lemma unseen_snoc: "map_of r v = None \<Longrightarrow> Suc (unseen (r @ [(v, d)])) = unseen r"
proof -
  assume "map_of r v = None"
  then have "- dom (map_of r) = insert v (- dom (map_of (r @ [(v, d)])))"
    by (auto simp: map_add_def split: option.splits)
  then have "unseen r = card (insert v (- dom (map_of (r @ [(v, d)]))))"
    by (simp add: unseen_def)
  also have "\<dots> = Suc (unseen (r @ [(v, d)]))"
    unfolding unseen_def by (rule card_insert_disjoint) (auto intro: finite_subset [of _ UNIV])
  finally show ?thesis by simp
qed

lemma bfs_visit_measure:
  "bfs_visit d vs r q = (r', q') \<Longrightarrow> 2 * unseen r' + length q' \<le> 2 * unseen r + length q"
proof (induction d vs r q rule: bfs_visit.induct)
  case (2 d v vs r q)
  show ?case
  proof (cases "map_of r v = None")
    case True
    with 2 unseen_snoc [OF True, of "d + 1"] show ?thesis by simp
  qed (use 2 in \<open>auto split: if_splits\<close>)
qed simp

function bfs_loop :: "graph \<Rightarrow> int \<Rightarrow> distances \<Rightarrow> u32 list \<Rightarrow> distances" where
  "bfs_loop g max_hops result [] = result"
| "bfs_loop g max_hops result (u # q) =
     (let (result', d) = dist_at result u
      in if d \<ge> max_hops then bfs_loop g max_hops result' q
         else let (result'', q') = bfs_visit d (neighbors g u) result' q
              in bfs_loop g max_hops result'' q')"
  by pat_completeness auto
termination
proof (relation "measure (\<lambda>(g, k, r, q). 2 * unseen r + length q)", goal_cases)
  case (2 g k r u q x r' d)
  then have "unseen r' \<le> unseen r"
    using unseen_snoc [of r u 0] by (auto simp: dist_at_def split: option.splits)
  then show ?case by simp
next
  case (3 g k r u q x r' d y r'' q')
  then have "unseen r' \<le> unseen r"
    using unseen_snoc [of r u 0] by (auto simp: dist_at_def split: option.splits)
  with bfs_visit_measure [OF trans [OF 3(4) [symmetric] 3(5) [symmetric]]] show ?case by simp
qed simp

definition bfs_reachable_within :: "graph \<Rightarrow> u32 \<Rightarrow> int \<Rightarrow> distances" where
  "bfs_reachable_within g source max_hops = bfs_loop g max_hops [(source, 0)] [source]"

section \<open>Dijkstra with unit weights\<close>

type_synonym heap = "(int \<times> u32) list"

fun push_neighbors :: "distances \<Rightarrow> int \<Rightarrow> int \<Rightarrow> u32 list \<Rightarrow> heap \<Rightarrow> heap" where
  "push_neighbors result max_hops d_u [] pq = pq"
| "push_neighbors result max_hops d_u (v # vs) pq =
     push_neighbors result max_hops d_u vs
       (if map_of result v = None \<and> d_u + 1 \<le> max_hops then insort (d_u + 1, v) pq else pq)"

function dijkstra_loop :: "graph \<Rightarrow> int \<Rightarrow> distances \<Rightarrow> heap \<Rightarrow> distances" where
  "dijkstra_loop g max_hops result [] = result"
| "dijkstra_loop g max_hops result ((d_u, u) # pq) =
     (if d_u > max_hops then result
      else if map_of result u \<noteq> None then dijkstra_loop g max_hops result pq
      else let result' = result @ [(u, d_u)]
           in dijkstra_loop g max_hops result'
                (push_neighbors result' max_hops d_u (neighbors g u) pq))"
  by pat_completeness auto
termination
proof (relation "measures [\<lambda>(g, k, r, pq). unseen r, \<lambda>(g, k, r, pq). length pq]", goal_cases)
  case (3 g k r d u pq)
  then show ?case using unseen_snoc [of r u d] by simp
qed simp_all

definition dijkstra_reachable_within :: "graph \<Rightarrow> u32 \<Rightarrow> int \<Rightarrow> distances" where
  "dijkstra_reachable_within g source max_hops = dijkstra_loop g max_hops [] [(0, source)]"

section \<open>Shortest paths\<close>

definition hops :: "graph \<Rightarrow> u32 \<Rightarrow> u32 \<Rightarrow> int \<Rightarrow> bool" where
  "hops g s v d \<longleftrightarrow> 0 \<le> d \<and> (s, v) \<in> edges g ^^ nat d \<and> (\<forall>m < nat d. (s, v) \<notin> edges g ^^ m)"

text \<open>
  When a set of distances is the answer: every distance is the length of a path, the source has
  distance 0, and a step from a vertex that is not at the border is accounted for.
\<close>

definition settles :: "graph \<Rightarrow> u32 \<Rightarrow> int \<Rightarrow> distances \<Rightarrow> bool" where
  "settles g s k r \<longleftrightarrow>
     map_of r s = Some 0 \<and>
     (\<forall>v d. map_of r v = Some d \<longrightarrow> 0 \<le> d \<and> d \<le> k \<and> (s, v) \<in> edges g ^^ nat d) \<and>
     (\<forall>u d v. map_of r u = Some d \<longrightarrow> d < k \<longrightarrow> (u, v) \<in> edges g \<longrightarrow>
        (\<exists>e. map_of r v = Some e \<and> e \<le> d + 1))"

lemma settles_within:
  assumes "settles g s k r"
  shows "(s, v) \<in> edges g ^^ n \<Longrightarrow> int n \<le> k \<Longrightarrow> \<exists>d. map_of r v = Some d \<and> d \<le> int n"
proof (induction n arbitrary: v)
  case 0
  then show ?case using assms by (simp add: settles_def)
next
  case (Suc n)
  then obtain u where u: "(s, u) \<in> edges g ^^ n" "(u, v) \<in> edges g" by auto
  with Suc obtain d where d: "map_of r u = Some d" "d \<le> int n" by fastforce
  with Suc.prems(2) have "d < k" by simp
  with assms d u(2) obtain e where "map_of r v = Some e" "e \<le> d + 1"
    unfolding settles_def by blast
  with d show ?case by auto
qed

lemma settles_hops:
  assumes "settles g s k r"
  shows "map_of r v = Some d \<longleftrightarrow> hops g s v d \<and> d \<le> k"
proof
  assume d: "map_of r v = Some d"
  then have p: "0 \<le> d" "d \<le> k" "(s, v) \<in> edges g ^^ nat d"
    using assms by (auto simp: settles_def)
  have "(s, v) \<notin> edges g ^^ m" if "m < nat d" for m
    using settles_within [OF assms, of v m] that p d by force
  with p show "hops g s v d \<and> d \<le> k" by (simp add: hops_def)
next
  assume h: "hops g s v d \<and> d \<le> k"
  then obtain e where e: "map_of r v = Some e" "e \<le> d"
    using settles_within [OF assms, of v "nat d"] by (auto simp: hops_def)
  then have "0 \<le> e" "(s, v) \<in> edges g ^^ nat e"
    using assms by (auto simp: settles_def)
  with h have "nat d \<le> nat e" by (metis hops_def not_le_imp_less)
  with e \<open>0 \<le> e\<close> show "map_of r v = Some d" by simp
qed

section \<open>Breadth-first search is correct\<close>

lemma map_of_append_new:
  "map_of (r @ map (\<lambda>v. (v, c)) ns) x =
     (case map_of r x of Some d \<Rightarrow> Some d | None \<Rightarrow> if x \<in> set ns then Some c else None)"
proof -
  have "map_of (map (\<lambda>v. (v, c)) ns) x = (if x \<in> set ns then Some c else None)"
    by (induction ns) auto
  then show ?thesis by (simp add: map_add_def split: option.split)
qed

lemma bfs_visit_spec:
  "\<exists>ns. bfs_visit d vs r q = (r @ map (\<lambda>v. (v, d + 1)) ns, q @ ns) \<and>
     distinct ns \<and> set ns = set vs - dom (map_of r)"
proof (induction d vs r q rule: bfs_visit.induct)
  case (2 d v vs r q)
  show ?case
  proof (cases "map_of r v = None")
    case True
    from 2(1) [OF True] obtain ns where
      ns: "bfs_visit d vs (r @ [(v, d + 1)]) (q @ [v]) =
         (r @ [(v, d + 1)] @ map (\<lambda>v. (v, d + 1)) ns, q @ [v] @ ns)" "distinct ns"
        "set ns = set vs - dom (map_of (r @ [(v, d + 1)]))" by auto
    have "dom (map_of (r @ [(v, d + 1)])) = insert v (dom (map_of r))"
      by (auto simp: map_add_def split: option.splits)
    with True ns show ?thesis by (intro exI [of _ "v # ns"]) auto
  qed (use 2(2) in \<open>auto split: if_splits\<close>)
qed simp

definition dist_of :: "distances \<Rightarrow> u32 \<Rightarrow> int" where
  "dist_of r v = the (map_of r v)"

text \<open>What the result knows, and what the queue still owes.\<close>

definition bfs_sound :: "graph \<Rightarrow> u32 \<Rightarrow> int \<Rightarrow> distances \<Rightarrow> bool" where
  "bfs_sound g s k r \<longleftrightarrow>
     distinct (map fst r) \<and> map_of r s = Some 0 \<and>
     (\<forall>v d. map_of r v = Some d \<longrightarrow> 0 \<le> d \<and> d \<le> k \<and> (s, v) \<in> edges g ^^ nat d)"

definition bfs_queue :: "distances \<Rightarrow> u32 list \<Rightarrow> bool" where
  "bfs_queue r q \<longleftrightarrow>
     set q \<subseteq> dom (map_of r) \<and> sorted (map (dist_of r) q) \<and>
     (q \<noteq> [] \<longrightarrow> (\<forall>v d. map_of r v = Some d \<longrightarrow> d \<le> dist_of r (hd q) + 1))"

definition bfs_done :: "graph \<Rightarrow> int \<Rightarrow> distances \<Rightarrow> u32 list \<Rightarrow> bool" where
  "bfs_done g k r q \<longleftrightarrow>
     (\<forall>u d v. map_of r u = Some d \<longrightarrow> d < k \<longrightarrow> u \<notin> set q \<longrightarrow> (u, v) \<in> edges g \<longrightarrow>
        (\<exists>e. map_of r v = Some e \<and> e \<le> d + 1))"

definition bfs_inv :: "graph \<Rightarrow> u32 \<Rightarrow> int \<Rightarrow> distances \<Rightarrow> u32 list \<Rightarrow> bool" where
  "bfs_inv g s k r q \<longleftrightarrow> bfs_sound g s k r \<and> bfs_queue r q \<and> bfs_done g k r q"

lemma bfs_inv_start: "0 \<le> k \<Longrightarrow> bfs_inv g s k [(s, 0)] [s]"
  by (auto simp: bfs_inv_def bfs_sound_def bfs_queue_def bfs_done_def dist_of_def split: if_splits)

lemma bfs_queue_head:
  assumes "bfs_queue r (u # q)"
  obtains d where "map_of r u = Some d" "dist_at r u = (r, d)" "dist_of r u = d"
proof -
  from assms obtain d where "map_of r u = Some d" by (auto simp: bfs_queue_def)
  with that [of d] show thesis by (simp add: dist_at_def dist_of_def)
qed

lemma bfs_queue_tail: "bfs_queue r (u # q) \<Longrightarrow> bfs_queue r q"
  by (cases q) (fastforce simp: bfs_queue_def)+

lemma bfs_done_skip:
  assumes "bfs_done g k r (u # q)" and "map_of r u = Some d" and "k \<le> d"
  shows "bfs_done g k r q"
  unfolding bfs_done_def
proof (intro allI impI)
  fix w e v
  assume w: "map_of r w = Some e" "e < k" "w \<notin> set q" "(w, v) \<in> edges g"
  with assms(2,3) have "w \<noteq> u" by auto
  with w assms(1) show "\<exists>e'. map_of r v = Some e' \<and> e' \<le> e + 1"
    by (simp add: bfs_done_def)
qed

text \<open>Expanding \<open>u\<close> at distance \<open>d\<close> adds its new neighbours \<open>ns\<close> at distance \<open>d + 1\<close>.\<close>

lemma bfs_expand:
  assumes inv: "bfs_inv g s k r (u # q)" and d: "map_of r u = Some d" "d < k"
    and ns: "distinct ns" "set ns = set (neighbors g u) - dom (map_of r)"
  shows "bfs_inv g s k (r @ map (\<lambda>v. (v, d + 1)) ns) (q @ ns)"
proof -
  let ?r = "r @ map (\<lambda>v. (v, d + 1)) ns"
  note m = map_of_append_new [of r "d + 1" ns]
  have du: "0 \<le> d" "(s, u) \<in> edges g ^^ nat d"
    using inv d(1) by (auto simp: bfs_inv_def bfs_sound_def)
  have bound: "e \<le> d + 1" if "map_of r v = Some e" for v e
    using inv that d(1) by (auto simp: bfs_inv_def bfs_queue_def dist_of_def)
  have path: "(s, v) \<in> edges g ^^ nat (d + 1)" if "v \<in> set ns" for v
  proof -
    have "(u, v) \<in> edges g" using that ns(2) by (simp add: edges_iff)
    with du show ?thesis by (auto simp: nat_add_distrib)
  qed
  have "fst ` set r = dom (map_of r)" by (simp add: dom_map_of_conv_image_fst)
  then have "distinct (map fst ?r)"
    using inv ns by (auto simp: bfs_inv_def bfs_sound_def comp_def)
  with inv d du(1) path have "bfs_sound g s k ?r"
    by (auto simp: bfs_inv_def bfs_sound_def m simp del: map_of_append split: option.splits if_splits)
  moreover have "bfs_queue ?r (q @ ns)"
  proof -
    have old: "dist_of ?r v = dist_of r v" if "v \<in> dom (map_of r)" for v
      using that unfolding dist_of_def m by auto
    have new: "dist_of ?r v = d + 1" if "v \<in> set ns" for v
      using that ns(2) unfolding dist_of_def m by (auto split: option.split)
    have q: "set q \<subseteq> dom (map_of r)" "sorted (map (dist_of r) q)" "\<forall>v \<in> set q. d \<le> dist_of r v"
      using inv d(1) by (auto simp: bfs_inv_def bfs_queue_def dist_of_def)
    have mq: "map (dist_of ?r) q = map (dist_of r) q" using q(1) old by (intro map_cong) auto
    have mn: "map (dist_of ?r) ns = replicate (length ns) (d + 1)"
      using new by (simp flip: map_replicate_const)
    have "\<forall>v \<in> set q. dist_of r v \<le> d + 1"
      using q(1) bound by (fastforce simp: dist_of_def)
    then have "sorted (map (dist_of r) q @ replicate (length ns) (d + 1))"
      using q(2) by (auto simp: sorted_append)
    then have "sorted (map (dist_of ?r) (q @ ns))" unfolding map_append mq mn .
    moreover have "d \<le> dist_of ?r (hd (q @ ns))" if "q @ ns \<noteq> []"
    proof (cases q)
      case Nil
      with that new [of "hd ns"] show ?thesis by simp
    next
      case (Cons v vs)
      with q old [of v] show ?thesis by simp
    qed
    moreover have "e \<le> d + 1" if "map_of ?r v = Some e" for v e
      using that bound by (auto simp: m simp del: map_of_append split: option.splits if_splits)
    moreover have "set (q @ ns) \<subseteq> dom (map_of ?r)"
      using q(1) ns(2) by (auto simp: m simp del: map_of_append split: option.splits)
    ultimately show ?thesis unfolding bfs_queue_def by (smt (verit))
  qed
  moreover have "bfs_done g k ?r (q @ ns)"
    unfolding bfs_done_def
  proof (intro allI impI)
    fix w e v
    assume w: "map_of ?r w = Some e" "e < k" "w \<notin> set (q @ ns)" "(w, v) \<in> edges g"
    then have we: "map_of r w = Some e" by (auto simp: m simp del: map_of_append split: option.splits if_splits)
    show "\<exists>e'. map_of ?r v = Some e' \<and> e' \<le> e + 1"
    proof (cases "w = u")
      case True
      with we d(1) have e: "e = d" by simp
      from True w(4) ns(2) have "v \<in> set ns \<or> (\<exists>e'. map_of r v = Some e')"
        by (auto simp: edges_iff)
      with bound show ?thesis unfolding e m by (auto split: option.split)
    next
      case False
      with inv w we have "\<exists>e'. map_of r v = Some e' \<and> e' \<le> e + 1"
        by (auto simp: bfs_inv_def bfs_done_def)
      then show ?thesis by (auto simp: m simp del: map_of_append)
    qed
  qed
  ultimately show ?thesis by (simp add: bfs_inv_def)
qed

lemma bfs_loop_settles:
  "bfs_inv g s k r q \<Longrightarrow> settles g s k (bfs_loop g k r q) \<and> distinct (map fst (bfs_loop g k r q))"
proof (induction g k r q rule: bfs_loop.induct)
  case (1 g k r)
  then show ?case
    by (auto simp: bfs_inv_def bfs_sound_def bfs_done_def settles_def)
next
  case (2 g k r u q)
  have que: "bfs_queue r (u # q)" using "2.prems" by (simp add: bfs_inv_def)
  from bfs_queue_head [OF que] obtain d where
    d: "map_of r u = Some d" "dist_at r u = (r, d)" "dist_of r u = d" .
  show ?case
  proof (cases "k \<le> d")
    case True
    have "bfs_inv g s k r q"
      using "2.prems" bfs_queue_tail [OF que] bfs_done_skip [OF _ d(1) True]
      by (simp add: bfs_inv_def)
    with 2(1) [OF d(2) [symmetric] refl True] True d(2) show ?thesis by simp
  next
    case False
    obtain ns where ns: "bfs_visit d (neighbors g u) r q = (r @ map (\<lambda>v. (v, d + 1)) ns, q @ ns)"
      "distinct ns" "set ns = set (neighbors g u) - dom (map_of r)"
      using bfs_visit_spec by blast
    have "bfs_inv g s k (r @ map (\<lambda>v. (v, d + 1)) ns) (q @ ns)"
      using bfs_expand [OF "2.prems" d(1) _ ns(2,3)] False by simp
    with 2(2) [OF d(2) [symmetric] refl False ns(1) [symmetric] refl] False d(2) ns(1)
    show ?thesis by simp
  qed
qed

section \<open>Dijkstra is correct\<close>

lemma set_push_neighbors:
  "set (push_neighbors r k d vs pq) =
     set pq \<union> {(d + 1, v) | v. v \<in> set vs \<and> map_of r v = None \<and> d + 1 \<le> k}"
  by (induction r k d vs pq rule: push_neighbors.induct) (auto simp: set_insort_key)

lemma sorted_push_neighbors: "sorted pq \<Longrightarrow> sorted (push_neighbors r k d vs pq)"
  by (induction r k d vs pq rule: push_neighbors.induct) (simp_all add: sorted_insort)

definition heap_ok :: "graph \<Rightarrow> u32 \<Rightarrow> int \<Rightarrow> heap \<Rightarrow> bool" where
  "heap_ok g s k pq \<longleftrightarrow>
     sorted pq \<and> (\<forall>(d, v) \<in> set pq. 0 \<le> d \<and> d \<le> k \<and> (s, v) \<in> edges g ^^ nat d)"

definition settled_ok :: "graph \<Rightarrow> u32 \<Rightarrow> int \<Rightarrow> distances \<Rightarrow> heap \<Rightarrow> bool" where
  "settled_ok g s k r pq \<longleftrightarrow>
     distinct (map fst r) \<and>
     (\<forall>v d. map_of r v = Some d \<longrightarrow>
        0 \<le> d \<and> d \<le> k \<and> (s, v) \<in> edges g ^^ nat d \<and> (\<forall>(e, w) \<in> set pq. d \<le> e))"

text \<open>\<open>v\<close> is settled within distance \<open>d\<close>, or the heap still promises it.\<close>

definition promised :: "distances \<Rightarrow> heap \<Rightarrow> int \<Rightarrow> u32 \<Rightarrow> bool" where
  "promised r pq d v \<longleftrightarrow>
     (\<exists>e. map_of r v = Some e \<and> e \<le> d) \<or> (map_of r v = None \<and> (\<exists>e \<le> d. (e, v) \<in> set pq))"

definition dijkstra_inv :: "graph \<Rightarrow> u32 \<Rightarrow> int \<Rightarrow> distances \<Rightarrow> heap \<Rightarrow> bool" where
  "dijkstra_inv g s k r pq \<longleftrightarrow>
     heap_ok g s k pq \<and> settled_ok g s k r pq \<and> promised r pq 0 s \<and>
     (\<forall>u d v. map_of r u = Some d \<longrightarrow> d < k \<longrightarrow> (u, v) \<in> edges g \<longrightarrow> promised r pq (d + 1) v)"

lemma dijkstra_inv_start: "0 \<le> k \<Longrightarrow> dijkstra_inv g s k [] [(0, s)]"
  by (simp add: dijkstra_inv_def heap_ok_def settled_ok_def promised_def)

lemma dijkstra_inv_end: "dijkstra_inv g s k r [] \<Longrightarrow> settles g s k r \<and> distinct (map fst r)"
  by (force simp: dijkstra_inv_def heap_ok_def settled_ok_def promised_def settles_def)

lemma heap_head:
  "heap_ok g s k ((d, u) # pq) \<Longrightarrow> heap_ok g s k pq \<and> 0 \<le> d \<and> d \<le> k \<and>
     (s, u) \<in> edges g ^^ nat d \<and> (\<forall>(e, v) \<in> set pq. d \<le> e)"
  by (force simp: heap_ok_def less_eq_prod_def)

lemma promised_skip:
  assumes "promised r ((d, u) # pq) n v" and "map_of r u = Some e"
  shows "promised r pq n v"
  using assms by (auto simp: promised_def)

lemma dijkstra_skip:
  assumes "dijkstra_inv g s k r ((d, u) # pq)" and "map_of r u = Some e"
  shows "dijkstra_inv g s k r pq"
proof -
  have "promised r pq n v" if "promised r ((d, u) # pq) n v" for n v
    by (rule promised_skip [OF that assms(2)])
  with assms(1) heap_head [of g s k d u pq] show ?thesis
    unfolding dijkstra_inv_def settled_ok_def by auto
qed

lemma promised_settle:
  assumes "promised r ((d, u) # pq) n v" and "map_of r u = None"
    and "heap_ok g s k ((d, u) # pq)"
  shows "promised (r @ [(u, d)]) (push_neighbors r' k d ns pq) n v"
proof (cases "v = u")
  case True
  with assms obtain e where "e \<le> n" "(e, u) \<in> set ((d, u) # pq)" by (auto simp: promised_def)
  with heap_head [OF assms(3)] have "d \<le> n" by auto
  with True assms(2) show ?thesis by (simp add: promised_def map_add_def)
next
  case False
  with assms(1) show ?thesis
    by (auto simp: promised_def map_add_def set_push_neighbors split: option.splits)
qed

lemma dijkstra_settle:
  assumes inv: "dijkstra_inv g s k r ((d, u) # pq)" and u: "map_of r u = None"
  shows "dijkstra_inv g s k (r @ [(u, d)]) (push_neighbors (r @ [(u, d)]) k d (neighbors g u) pq)"
proof -
  let ?r = "r @ [(u, d)]"
  let ?pq = "push_neighbors ?r k d (neighbors g u) pq"
  have h: "heap_ok g s k ((d, u) # pq)" using inv by (simp add: dijkstra_inv_def)
  note head = heap_head [OF h]
  have r: "map_of ?r v = (if v = u then Some d else map_of r v)" for v
    using u by (auto simp: map_add_def split: option.split)
  have step: "(s, v) \<in> edges g ^^ nat (d + 1)" if "v \<in> set (neighbors g u)" for v
  proof -
    have "(u, v) \<in> edges g" using that by (simp add: edges_iff)
    with head show ?thesis by (auto simp: nat_add_distrib)
  qed
  have "heap_ok g s k ?pq"
    using head step sorted_push_neighbors [of pq ?r k d "neighbors g u"]
    by (auto simp: heap_ok_def set_push_neighbors)
  moreover have "settled_ok g s k ?r ?pq"
    unfolding settled_ok_def
  proof (intro conjI allI impI)
    have "u \<notin> fst ` set r" using u by (simp add: map_of_eq_None_iff)
    then show "distinct (map fst ?r)"
      using inv by (auto simp: dijkstra_inv_def settled_ok_def)
  next
    fix v e
    assume v: "map_of ?r v = Some e"
    have *: "0 \<le> e \<and> e \<le> k \<and> (s, v) \<in> edges g ^^ nat e \<and> e \<le> d"
    proof (cases "v = u")
      case True
      with v head show ?thesis by (simp add: r del: map_of_append)
    next
      case False
      with v have "map_of r v = Some e" by (simp add: r del: map_of_append)
      with inv show ?thesis by (auto simp: dijkstra_inv_def settled_ok_def)
    qed
    then show "0 \<le> e" "e \<le> k" "(s, v) \<in> edges g ^^ nat e" by simp_all
    from * head show "\<forall>(e', w) \<in> set ?pq. e \<le> e'" by (auto simp: set_push_neighbors)
  qed
  moreover have "promised ?r ?pq 0 s"
    using inv promised_settle [OF _ u h] by (simp add: dijkstra_inv_def)
  moreover have "promised ?r ?pq (e + 1) v"
    if w: "map_of ?r w = Some e" "e < k" "(w, v) \<in> edges g" for w e v
  proof (cases "w = u")
    case True
    with w have e: "e = d" "v \<in> set (neighbors g u)" by (simp_all add: r edges_iff del: map_of_append)
    show ?thesis
    proof (cases "map_of ?r v")
      case None
      with e w(2) show ?thesis by (auto simp: promised_def set_push_neighbors)
    next
      case (Some e')
      moreover have "e' \<le> d"
        using Some inv by (cases "v = u") (auto simp: r dijkstra_inv_def settled_ok_def simp del: map_of_append)
      ultimately show ?thesis using e(1) by (simp add: promised_def)
    qed
  next
    case False
    with w inv show ?thesis
      by (intro promised_settle [OF _ u h]) (simp add: r dijkstra_inv_def del: map_of_append)
  qed
  ultimately show ?thesis by (simp add: dijkstra_inv_def)
qed

lemma dijkstra_loop_settles:
  "dijkstra_inv g s k r pq \<Longrightarrow>
     settles g s k (dijkstra_loop g k r pq) \<and> distinct (map fst (dijkstra_loop g k r pq))"
proof (induction g k r pq rule: dijkstra_loop.induct)
  case (1 g k r)
  then show ?case by (simp add: dijkstra_inv_end)
next
  case (2 g k r d u pq)
  have le: "\<not> k < d" using "2.prems" heap_head [of g s k d u pq] by (simp add: dijkstra_inv_def)
  show ?case
  proof (cases "map_of r u")
    case None
    with 2(2) [OF le _ refl dijkstra_settle [OF "2.prems" None]] le show ?thesis by (simp add: Let_def)
  next
    case (Some e)
    with 2(1) [OF le _ dijkstra_skip [OF "2.prems" Some]] le show ?thesis by simp
  qed
qed

lemma relpow_subset: "R \<subseteq> S \<Longrightarrow> R ^^ n \<subseteq> (S :: ('a \<times> 'a) set) ^^ n"
  by (induction n) auto

section \<open>The contract of a reachability analyser\<close>

locale reachability =
  fixes reach :: "graph \<Rightarrow> u32 \<Rightarrow> int \<Rightarrow> distances"
  assumes reach_settles: "0 \<le> k \<Longrightarrow> settles g s k (reach g s k)"
    and reach_distinct: "0 \<le> k \<Longrightarrow> distinct (map fst (reach g s k))"
begin

lemma exact: "0 \<le> k \<Longrightarrow> map_of (reach g s k) v = Some d \<longleftrightarrow> hops g s v d \<and> d \<le> k"
  by (rule settles_hops [OF reach_settles])

lemma radius:
  assumes "0 \<le> k"
  shows "length (reach g s k) = card {v. \<exists>d \<le> k. hops g s v d}"
proof -
  have "set (map fst (reach g s k)) = {v. \<exists>d \<le> k. hops g s v d}"
    using exact [OF assms] by (auto simp flip: dom_map_of_conv_image_fst)
  with distinct_card [OF reach_distinct [OF assms, of g s]] show ?thesis by simp
qed

lemma source_first: "0 \<le> k \<Longrightarrow> map_of (reach g s k) s = Some 0"
  using reach_settles [of k g s] by (simp add: settles_def)

lemma covers_walks: "(s, v) \<in> edges g ^^ n \<Longrightarrow> int n \<le> k \<Longrightarrow> v \<in> dom (map_of (reach g s k))"
  using settles_within [of g s k "reach g s k" v n] reach_settles [of k g s] by force

lemma reach_mono:
  assumes "0 \<le> k" "k \<le> k'" "edges g \<subseteq> edges g'"
  shows "dom (map_of (reach g s k)) \<subseteq> dom (map_of (reach g' s k'))"
proof
  fix v assume "v \<in> dom (map_of (reach g s k))"
  with exact [OF assms(1)] obtain d where d: "0 \<le> d" "d \<le> k" "(s, v) \<in> edges g ^^ nat d"
    by (auto simp: hops_def)
  then have "(s, v) \<in> edges g' ^^ nat d" using relpow_subset [OF assms(3)] by blast
  with d assms show "v \<in> dom (map_of (reach g' s k'))" by (intro covers_walks) auto
qed

end

text \<open>Two analysers under the contract are interchangeable.\<close>

locale two_analysers = one: reachability reach1 + two: reachability reach2
  for reach1 :: "graph \<Rightarrow> u32 \<Rightarrow> int \<Rightarrow> distances" and reach2 :: "graph \<Rightarrow> u32 \<Rightarrow> int \<Rightarrow> distances"
begin

lemma agree:
  assumes "0 \<le> k" and "edges g = edges g'"
  shows "map_of (reach1 g s k) = map_of (reach2 g' s k)"
proof
  fix v
  have "map_of (reach1 g s k) v = Some d \<longleftrightarrow> map_of (reach2 g' s k) v = Some d" for d
    using assms by (simp add: one.exact two.exact hops_def)
  then show "map_of (reach1 g s k) v = map_of (reach2 g' s k) v"
    by (metis option.exhaust)
qed

end

interpretation bfs: reachability bfs_reachable_within
  unfolding bfs_reachable_within_def
  by unfold_locales (use bfs_loop_settles [OF bfs_inv_start] in blast)+

interpretation dij: reachability dijkstra_reachable_within
  unfolding dijkstra_reachable_within_def
  by unfold_locales (use dijkstra_loop_settles [OF dijkstra_inv_start] in blast)+

interpretation both: two_analysers bfs_reachable_within dijkstra_reachable_within
  by unfold_locales

section \<open>Properties\<close>

text \<open>C13: BFS returns exactly the vertices within \<open>max_hops\<close> of the source, each with the length of
  a shortest path to it, and each once: the reported blast radius is the number of those vertices.\<close>

theorem bfs_blast_radius:
  assumes "0 \<le> max_hops"
  shows "(\<forall>v d. map_of (bfs_reachable_within g source max_hops) v = Some d \<longleftrightarrow>
            hops g source v d \<and> d \<le> max_hops) \<and>
    length (bfs_reachable_within g source max_hops) =
      card {v. \<exists>d \<le> max_hops. hops g source v d}"
  using assms by (simp add: bfs.exact bfs.radius)

theorem bfs_blast_radius_witness:
  "hops (graph_run [AddEdge 1 2, AddEdge 2 3, AddEdge 1 3, AddEdge 3 4]) 1 3 1 \<and>
   \<not> hops (graph_run [AddEdge 1 2, AddEdge 2 3, AddEdge 1 3, AddEdge 3 4]) 1 4 1"
proof -
  let ?g = "graph_run [AddEdge 1 2, AddEdge 2 3, AddEdge 1 3, AddEdge 3 4]"
  have "bfs_reachable_within ?g 1 1 = [(1, 0), (2, 1), (3, 1)]"
    by code_simp
  with bfs_blast_radius [of 1 ?g 1] show ?thesis by force
qed

text \<open>C23: Dijkstra's heap search computes the same distances for every iteration order of the
  adjacency sets, without the queue's order: exactly the vertices within \<open>max_hops\<close>, each at its
  shortest distance.\<close>

theorem dijkstra_blast_radius:
  assumes "0 \<le> max_hops"
  shows "(\<forall>v d. map_of (dijkstra_reachable_within g source max_hops) v = Some d \<longleftrightarrow>
            hops g source v d \<and> d \<le> max_hops) \<and>
    length (dijkstra_reachable_within g source max_hops) =
      card {v. \<exists>d \<le> max_hops. hops g source v d}"
  using assms by (simp add: dij.exact dij.radius)

theorem dijkstra_blast_radius_witness:
  "hops (graph_run [AddEdge 5 6, AddEdge 6 7, AddEdge 7 5]) 5 7 2"
proof -
  let ?g = "graph_run [AddEdge 5 6, AddEdge 6 7, AddEdge 7 5]"
  have "map_of (dijkstra_reachable_within ?g 5 2) 7 = Some 2"
    by code_simp
  with dijkstra_blast_radius [of 2 ?g 5] show ?thesis by force
qed

text \<open>The two analysers the configuration chooses between are equivalent: on graphs with the same
  edges, whatever order the hash containers iterate in, they return the same map of distances.\<close>

theorem bfs_equals_dijkstra:
  assumes "0 \<le> max_hops" and "edges g = edges g'"
  shows "map_of (bfs_reachable_within g source max_hops) =
    map_of (dijkstra_reachable_within g' source max_hops)"
  using assms by (rule both.agree)

theorem bfs_equals_dijkstra_witness:
  "map_of (bfs_reachable_within (graph_run [AddEdge 1 2, AddEdge 1 3]) 1 4) =
   map_of (dijkstra_reachable_within (graph_run [AddEdge 1 3, AddEdge 1 2]) 1 4)"
proof (rule bfs_equals_dijkstra)
  show "edges (graph_run [AddEdge 1 2, AddEdge 1 3]) = edges (graph_run [AddEdge 1 3, AddEdge 1 2])"
    by (auto simp: graph_run_def graph_simps)
qed simp

text \<open>They part on a negative \<open>max_hops\<close>: BFS still reports the source, Dijkstra reports nothing.\<close>

theorem negative_max_hops:
  assumes "max_hops < 0"
  shows "bfs_reachable_within g source max_hops = [(source, 0)] \<and>
    dijkstra_reachable_within g source max_hops = []"
  using assms by (simp add: bfs_reachable_within_def dijkstra_reachable_within_def dist_at_def)

theorem negative_max_hops_witness:
  "dijkstra_reachable_within (add_vertex graph_empty 7) 7 (-1) = []"
  using negative_max_hops [of "-1" "add_vertex graph_empty 7" 7] by simp

text \<open>A larger graph or a larger radius never loses a vertex: new traffic and a wider search can
  only grow the blast radius.\<close>

theorem blast_radius_grows:
  assumes "0 \<le> k" and "k \<le> k'"
  shows "length (bfs_reachable_within g s k) \<le> length (bfs_reachable_within (add_edge g u v) s k')"
proof -
  have d: "length (bfs_reachable_within h s j) = card (dom (map_of (bfs_reachable_within h s j)))"
    if "0 \<le> j" for h j
    using distinct_card [OF bfs.reach_distinct [OF that]] by (simp add: dom_map_of_conv_image_fst)
  have "dom (map_of (bfs_reachable_within g s k)) \<subseteq> dom (map_of (bfs_reachable_within (add_edge g u v) s k'))"
    using assms by (intro bfs.reach_mono) (auto simp: graph_simps)
  then show ?thesis
    using assms d [of k g] d [of k' "add_edge g u v"] by (simp add: card_mono finite_dom_map_of)
qed

theorem blast_radius_grows_witness:
  "1 \<le> length (bfs_reachable_within (add_edge graph_empty 1 2) 1 3)"
proof -
  have "length (bfs_reachable_within graph_empty 1 2) = 1" by code_simp
  with blast_radius_grows [of 2 3 graph_empty 1 1 2] show ?thesis by simp
qed

end
