(* ===== verification/SCC.thy ===== *)
theory SCC
  imports DirectedGraph
begin

text \<open>
  What a detector of strongly connected components promises (\<open>libdsa/include/dsa/graph/scc_detector.h\<close>):
  \<open>find_sccs\<close> lists the classes of mutual reachability, each vertex of the graph in one of them.
  The locale \<open>scc_detector\<close> is that contract; what a client learns from it is proved in it
  once, for Tarjan's and for Kosaraju's algorithm.
\<close>

definition mutual :: "graph \<Rightarrow> (u32 \<times> u32) set" where
  "mutual g = {(u, v). (u, v) \<in> (edges g)\<^sup>* \<and> (v, u) \<in> (edges g)\<^sup>*}"

definition sccs_of :: "graph \<Rightarrow> u32 list list \<Rightarrow> bool" where
  "sccs_of g cs \<longleftrightarrow>
     distinct (concat cs) \<and> set (concat cs) = verts g \<and> [] \<notin> set cs \<and>
     (\<forall>c \<in> set cs. \<forall>u \<in> set c. set c = mutual g `` {u})"

lemma mutual_refl [simp]: "(v, v) \<in> mutual g"
  by (simp add: mutual_def)

lemma mutual_sym: "(u, v) \<in> mutual g \<Longrightarrow> (v, u) \<in> mutual g"
  by (simp add: mutual_def)

lemma mutual_trans: "(u, v) \<in> mutual g \<Longrightarrow> (v, w) \<in> mutual g \<Longrightarrow> (u, w) \<in> mutual g"
  by (auto simp: mutual_def)

lemma reach_verts:
  "(u, v) \<in> (edges g)\<^sup>* \<Longrightarrow> graph_ok g \<Longrightarrow> u \<in> verts g \<Longrightarrow> v \<in> verts g"
  by (induction rule: rtrancl_induct) (auto dest: edges_verts)

lemma mutual_verts: "(u, v) \<in> mutual g \<Longrightarrow> graph_ok g \<Longrightarrow> u \<in> verts g \<Longrightarrow> v \<in> verts g"
  by (auto simp: mutual_def dest: reach_verts)

text \<open>Growing a list of components by one, for the algorithms' loops.\<close>

definition sccs_so_far :: "graph \<Rightarrow> u32 set \<Rightarrow> u32 list list \<Rightarrow> bool" where
  "sccs_so_far g V cs \<longleftrightarrow>
     distinct (concat cs) \<and> set (concat cs) = V \<and> [] \<notin> set cs \<and>
     (\<forall>c \<in> set cs. \<forall>u \<in> set c. set c = mutual g `` {u})"

lemma sccs_so_far_Nil: "sccs_so_far g {} []"
  by (simp add: sccs_so_far_def)

lemma sccs_so_far_all: "sccs_so_far g (verts g) cs \<Longrightarrow> sccs_of g cs"
  by (simp add: sccs_so_far_def sccs_of_def)

lemma sccs_so_far_snoc:
  assumes "sccs_so_far g V cs" and "set c = mutual g `` {r}" and "distinct c" and "set c \<inter> V = {}"
  shows "sccs_so_far g (V \<union> set c) (cs @ [c])"
proof -
  have "r \<in> set c" using assms(2) by simp
  then have "c \<noteq> []" by auto
  moreover have "set c = mutual g `` {u}" if "u \<in> set c" for u
    using that assms(2) by (auto intro: mutual_trans mutual_sym)
  ultimately show ?thesis using assms by (auto simp: sccs_so_far_def)
qed

lemma card_classes:
  "distinct (concat cs) \<Longrightarrow> [] \<notin> set cs \<Longrightarrow> length cs = card (set ` set cs)"
proof -
  assume d: "distinct (concat cs)" and n: "[] \<notin> set cs"
  have "distinct cs \<and> inj_on set (set cs)"
    using d n
  proof (induction cs)
    case (Cons c cs)
    then have "set c \<inter> set c' = {}" "c \<noteq> []" if "c' \<in> set cs" for c'
      using that by auto
    then have "set c \<notin> set ` set cs" by auto (metis disjoint_iff list.set_sel(1))
    with Cons show ?case by auto
  qed simp
  then show ?thesis by (simp add: card_image distinct_card)
qed

locale scc_detector =
  fixes find_sccs :: "graph \<Rightarrow> u32 list list"
  assumes find_ok: "graph_ok g \<Longrightarrow> sccs_of g (find_sccs g)"
begin

lemma classes: "graph_ok g \<Longrightarrow> set ` set (find_sccs g) = verts g // mutual g"
proof (intro set_eqI iffI)
  fix C
  assume ok: "graph_ok g"
  note f = find_ok [OF ok, unfolded sccs_of_def]
  { assume "C \<in> set ` set (find_sccs g)"
    then obtain c where c: "c \<in> set (find_sccs g)" "C = set c" by auto
    with f obtain u where u: "u \<in> set c" by (cases c) auto
    with c f have "u \<in> verts g" "C = mutual g `` {u}" by auto
    then show "C \<in> verts g // mutual g" by (auto simp: quotient_def) }
  { assume "C \<in> verts g // mutual g"
    then obtain u where u: "u \<in> verts g" "C = mutual g `` {u}" by (auto simp: quotient_def)
    with f have "u \<in> set (concat (find_sccs g))" by simp
    then obtain c where "c \<in> set (find_sccs g)" "u \<in> set c" by auto
    with f u show "C \<in> set ` set (find_sccs g)" by blast }
qed

lemma number: "graph_ok g \<Longrightarrow> length (find_sccs g) = card (verts g // mutual g)"
  using card_classes [of "find_sccs g"] find_ok [of g] classes [of g] by (simp add: sccs_of_def)

lemma same_component:
  assumes "graph_ok g" and "u \<in> verts g"
  shows "(\<exists>c \<in> set (find_sccs g). u \<in> set c \<and> v \<in> set c) \<longleftrightarrow> (u, v) \<in> mutual g"
proof -
  note f = find_ok [OF assms(1), unfolded sccs_of_def]
  have "u \<in> set (concat (find_sccs g))" using f assms(2) by simp
  then obtain c where c: "c \<in> set (find_sccs g)" "u \<in> set c" by auto
  have "v \<in> set c' \<longleftrightarrow> (u, v) \<in> mutual g" if "c' \<in> set (find_sccs g)" "u \<in> set c'" for c'
  proof -
    from that f have "set c' = mutual g `` {u}" by blast
    then show ?thesis by simp
  qed
  with c show ?thesis by blast
qed

text \<open>A component of more than one vertex is a cycle through different vertices.\<close>

lemma large_component:
  assumes "graph_ok g"
  shows "(\<exists>c \<in> set (find_sccs g). 1 < length c) \<longleftrightarrow> (\<exists>u v. u \<noteq> v \<and> (u, v) \<in> mutual g)"
proof
  note f = find_ok [OF assms, unfolded sccs_of_def]
  assume "\<exists>c \<in> set (find_sccs g). 1 < length c"
  then obtain c u v cs where c: "c \<in> set (find_sccs g)" "c = u # v # cs"
    by (metis One_nat_def Suc_less_eq length_Cons list.exhaust list.size(3) not_less_zero)
  with f have "u \<noteq> v" using distinct_concat_iff [of "find_sccs g"] by (metis distinct_length_2_or_more)
  moreover from c f have "v \<in> mutual g `` {u}" by (metis list.set_intros)
  ultimately show "\<exists>u v. u \<noteq> v \<and> (u, v) \<in> mutual g" by blast
next
  assume "\<exists>u v. u \<noteq> v \<and> (u, v) \<in> mutual g"
  then obtain u v where uv: "u \<noteq> v" "(u, v) \<in> mutual g" by blast
  then have "u \<in> verts g"
    using assms by (auto simp: mutual_def elim: converse_rtranclE dest: edges_verts)
  with uv same_component [OF assms] obtain c where
    "c \<in> set (find_sccs g)" "u \<in> set c" "v \<in> set c" by blast
  moreover from this uv(1) have "card {u, v} \<le> card (set c)" by (intro card_mono) auto
  with uv(1) have "1 < length c" using card_length [of c] by simp
  ultimately show "\<exists>c \<in> set (find_sccs g). 1 < length c" by blast
qed

end

locale two_detectors = one: scc_detector find1 + two: scc_detector find2
  for find1 :: "graph \<Rightarrow> u32 list list" and find2 :: "graph \<Rightarrow> u32 list list"
begin

lemma agree:
  assumes "graph_ok g" and "graph_ok g'" and "verts g = verts g'" and "edges g = edges g'"
  shows "set ` set (find1 g) = set ` set (find2 g')" and "length (find1 g) = length (find2 g')"
  using assms one.classes [of g] two.classes [of g'] one.number [of g] two.number [of g']
  by (simp_all add: mutual_def)

end

end
