(* ===== verification/Kosaraju.thy ===== *)
theory Kosaraju
  imports SCC
begin

text \<open>
  Kosaraju's algorithm as written in \<open>libdsa/src/graph/kosaraju.cpp\<close>: an iterative depth-first
  search with post-visit markers records the finish order, a second one on the transpose graph
  collects the components in reverse finish order. A \<open>std::stack\<close> is a list whose head is its
  top; the visited set, only asked for membership, is a set.
\<close>

section \<open>The algorithm\<close>

lemma card_unvisited: "u \<notin> (A :: u32 set) \<Longrightarrow> card (- insert u A) < card (- A)"
  by (rule psubset_card_mono) (auto intro: finite_subset [of _ UNIV])

text \<open>Pass 1: \<open>dfs\<close> holds (vertex, is_postvisit).\<close>

function finish_loop ::
  "graph \<Rightarrow> (u32 \<times> bool) list \<Rightarrow> u32 set \<Rightarrow> u32 list \<Rightarrow> u32 set \<times> u32 list" where
  "finish_loop g [] visited finish_order = (visited, finish_order)"
| "finish_loop g ((u, post) # dfs) visited finish_order =
     (if post then finish_loop g dfs visited (u # finish_order)
      else if u \<in> visited then finish_loop g dfs visited finish_order
      else let visited' = insert u visited
           in finish_loop g
                (fold (\<lambda>v dfs. if v \<notin> visited' then (v, False) # dfs else dfs)
                  (neighbors g u) ((u, True) # dfs))
                visited' finish_order)"
  by pat_completeness auto

termination
proof (relation "measures [\<lambda>(g, dfs, vis, f). card (- vis), \<lambda>(g, dfs, vis, f). length dfs]", goal_cases)
  case (4 g u post dfs vis f)
  then show ?case using card_unvisited [of u vis] by simp
qed simp_all

definition finish_from :: "graph \<Rightarrow> u32 \<Rightarrow> u32 set \<times> u32 list \<Rightarrow> u32 set \<times> u32 list" where
  "finish_from g start = (\<lambda>(visited, finish_order).
     if start \<in> visited then (visited, finish_order)
     else finish_loop g [(start, False)] visited finish_order)"

text \<open>Pass 2, on the transpose graph: one component, then all of them.\<close>

function comp_loop ::
  "graph \<Rightarrow> u32 list \<Rightarrow> u32 set \<Rightarrow> u32 list \<Rightarrow> u32 set \<times> u32 list" where
  "comp_loop gt [] visited component = (visited, component)"
| "comp_loop gt (u # dfs) visited component =
     (if u \<in> visited then comp_loop gt dfs visited component
      else let visited' = insert u visited
           in comp_loop gt
                (fold (\<lambda>v dfs. if v \<notin> visited' then v # dfs else dfs) (neighbors gt u) dfs)
                visited' (component @ [u]))"
  by pat_completeness auto
termination
proof (relation "measures [\<lambda>(g, dfs, vis, f). card (- vis), \<lambda>(g, dfs, vis, f). length dfs]", goal_cases)
  case (3 gt u dfs vis component)
  then show ?case using card_unvisited [of u vis] by simp
qed simp_all

definition comp_from ::
  "graph \<Rightarrow> u32 \<Rightarrow> u32 set \<times> u32 list list \<Rightarrow> u32 set \<times> u32 list list" where
  "comp_from gt start = (\<lambda>(visited, sccs).
     if start \<in> visited then (visited, sccs)
     else let (visited', component) = comp_loop gt [start] visited []
          in (visited', sccs @ [component]))"

definition kosaraju :: "graph \<Rightarrow> u32 list list" where
  "kosaraju g =
     (let (visited, finish_order) = fold (finish_from g) (vertices g) ({}, []);
          gt = transpose_graph g;
          (visited', sccs) = fold (comp_from gt) finish_order ({}, [])
      in sccs)"

section \<open>The finish order\<close>

text \<open>
  The list \<open>F\<close> has the last finished vertex at its head. \<open>owns E b F\<close>: an unfinished vertex \<open>b\<close>
  reaches everything that finished since the first finished vertex with an edge to it.
  \<open>order_ok E F\<close>: that was so for every vertex of \<open>F\<close> when it finished.
\<close>

definition owns :: "(u32 \<times> u32) set \<Rightarrow> u32 \<Rightarrow> u32 list \<Rightarrow> bool" where
  "owns E b F \<longleftrightarrow> (\<forall>j < length F. (F ! j, b) \<in> E \<longrightarrow> (\<forall>k \<le> j. (b, F ! k) \<in> E\<^sup>*))"

primrec order_ok :: "(u32 \<times> u32) set \<Rightarrow> u32 list \<Rightarrow> bool" where
  "order_ok E [] = True"
| "order_ok E (u # F) = (owns E u F \<and> order_ok E F)"

lemma owns_Nil [simp]: "owns E b []"
  by (simp add: owns_def)

lemma owns_Cons: "owns E b F \<Longrightarrow> (b, u) \<in> E\<^sup>* \<Longrightarrow> owns E b (u # F)"
  by (auto simp: owns_def nth_Cons split: nat.split)

lemma owns_new: "\<forall>a \<in> set F. (a, b) \<notin> E \<Longrightarrow> owns E b F"
  by (auto simp: owns_def)

lemma order_ok_between:
  "order_ok E F \<Longrightarrow> i < k \<Longrightarrow> k \<le> j \<Longrightarrow> j < length F \<Longrightarrow> (F ! j, F ! i) \<in> E \<Longrightarrow>
     (F ! i, F ! k) \<in> E\<^sup>*"
proof (induction F arbitrary: i j k)
  case (Cons u F)
  obtain j' k' where jk: "j = Suc j'" "k = Suc k'"
    using Cons.prems by (metis less_nat_zero_code not_less_zero not0_implies_Suc gr0_implies_Suc less_le_trans)
  show ?case
  proof (cases i)
    case 0
    with Cons.prems jk show ?thesis by (auto simp: owns_def)
  next
    case (Suc i')
    with Cons.prems jk Cons.IH [of i' k' j'] show ?thesis by simp
  qed
qed simp

text \<open>
  The last vertex to finish reaches every vertex that reaches it and finished before it, and
  more: all that finished since the latter did.
\<close>

lemma order_ok_head:
  assumes "order_ok E (v # F)" and "distinct (v # F)"
    and "(y, v) \<in> (E \<inter> set (v # F) \<times> set (v # F))\<^sup>*"
  shows "j < length (v # F) \<Longrightarrow> (v # F) ! j = y \<Longrightarrow> k \<le> j \<Longrightarrow> (v, (v # F) ! k) \<in> E\<^sup>*"
  using assms(3)
proof (induction arbitrary: j k rule: converse_rtrancl_induct)
  case base
  then have "j = 0" using assms(2) nth_eq_iff_index_eq [of "v # F" j 0] by simp
  with base show ?case by simp
next
  case (step y z)
  then obtain i where i: "i < length (v # F)" "(v # F) ! i = z"
    by (metis IntD2 in_set_conv_nth mem_Sigma_iff)
  show ?case
  proof (cases "k \<le> i")
    case True
    with step.IH [OF i] show ?thesis .
  next
    case False
    then have "(z, (v # F) ! k) \<in> E\<^sup>*"
      using order_ok_between [OF assms(1), of i k j] i step by auto
    with step.IH [OF i, of i] i(2) show ?thesis by (metis le_refl rtrancl_trans)
  qed
qed

section \<open>Pass 1 computes a finish order\<close>

text \<open>The unfinished (grey) vertices, the innermost first.\<close>

definition grey :: "(u32 \<times> bool) list \<Rightarrow> u32 list" where
  "grey S = map fst (filter snd S)"

lemma grey_simps [simp]:
  "grey [] = []" "grey ((u, True) # S) = u # grey S" "grey ((u, False) # S) = grey S"
  by (simp_all add: grey_def)

text \<open>Every entry is reachable from the grey vertices below it.\<close>

primrec nested :: "(u32 \<times> u32) set \<Rightarrow> (u32 \<times> bool) list \<Rightarrow> bool" where
  "nested E [] = True"
| "nested E (p # S) = ((\<forall>b \<in> set (grey S). (b, fst p) \<in> E\<^sup>*) \<and> nested E S)"

text \<open>The successors of a grey vertex are visited or pending above it.\<close>

primrec pending :: "(u32 \<times> u32) set \<Rightarrow> u32 set \<Rightarrow> u32 set \<Rightarrow> (u32 \<times> bool) list \<Rightarrow> bool" where
  "pending E V A [] = True"
| "pending E V A (p # S) =
     ((snd p \<longrightarrow> E `` {fst p} \<subseteq> V \<union> A) \<and> pending E V (if snd p then A else insert (fst p) A) S)"

definition finish_inv ::
  "(u32 \<times> u32) set \<Rightarrow> (u32 \<times> bool) list \<Rightarrow> u32 set \<Rightarrow> u32 list \<Rightarrow> bool" where
  "finish_inv E S V F \<longleftrightarrow>
     set F \<union> set (grey S) = V \<and> distinct (F @ grey S) \<and>
     nested E S \<and> pending E V {} S \<and> E `` set F \<subseteq> V \<and>
     order_ok E F \<and> (\<forall>b \<in> set (grey S). owns E b F)"

lemma finish_invI:
  "set F \<union> set (grey S) = V \<Longrightarrow> distinct (F @ grey S) \<Longrightarrow> nested E S \<Longrightarrow> pending E V {} S \<Longrightarrow>
   E `` set F \<subseteq> V \<Longrightarrow> order_ok E F \<Longrightarrow> (\<And>b. b \<in> set (grey S) \<Longrightarrow> owns E b F) \<Longrightarrow>
   finish_inv E S V F"
  unfolding finish_inv_def by (intro conjI ballI)

lemma pending_mono:
  "pending E V A S \<Longrightarrow> V \<union> A \<subseteq> W \<union> B \<Longrightarrow> V \<subseteq> W \<Longrightarrow> pending E W B S"
proof (induction S arbitrary: A B)
  case (Cons p S)
  show ?case
  proof (cases "snd p")
    case True
    with Cons.prems Cons.IH [of A B] show ?thesis by auto
  next
    case False
    have "V \<union> insert (fst p) A \<subseteq> W \<union> insert (fst p) B" using Cons.prems(2) by auto
    with Cons.prems Cons.IH [of "insert (fst p) A" "insert (fst p) B"] False show ?thesis by simp
  qed
qed simp

lemma finish_inv_post:
  assumes "finish_inv E ((u, True) # S) V F"
  shows "finish_inv E S V (u # F)"
  using assms owns_Cons by (auto simp: finish_inv_def)

lemma finish_inv_skip:
  assumes "finish_inv E ((u, False) # S) V F" and "u \<in> V"
  shows "finish_inv E S V F"
  using assms pending_mono [of E V "{u}" S V "{}"] by (simp add: finish_inv_def)

lemma pushed_shape:
  "\<exists>P. fold (\<lambda>v S. if v \<notin> V then (v, False) # S else S) ns S = P @ S \<and>
     (\<forall>p \<in> set P. \<not> snd p) \<and> fst ` set P = set ns - V"
proof (induction ns arbitrary: S)
  case (Cons n ns)
  obtain P where P: "fold (\<lambda>v S. if v \<notin> V then (v, False) # S else S) ns
      (if n \<notin> V then (n, False) # S else S) = P @ (if n \<notin> V then (n, False) # S else S)"
    "\<forall>p \<in> set P. \<not> snd p" "fst ` set P = set ns - V"
    using Cons.IH by blast
  then show ?case
    by (intro exI [of _ "P @ (if n \<notin> V then [(n, False)] else [])"]) auto
qed simp

lemma white_prefix:
  assumes "\<forall>p \<in> set P. \<not> snd p"
  shows "grey (P @ S) = grey S"
    and "nested E (P @ S) \<longleftrightarrow> (\<forall>p \<in> set P. \<forall>b \<in> set (grey S). (b, fst p) \<in> E\<^sup>*) \<and> nested E S"
    and "pending E V A (P @ S) \<longleftrightarrow> pending E V (A \<union> fst ` set P) S"
proof -
  show g: "grey (P @ S) = grey S" for S
    using assms by (simp add: grey_def)
  show "nested E (P @ S) \<longleftrightarrow> (\<forall>p \<in> set P. \<forall>b \<in> set (grey S). (b, fst p) \<in> E\<^sup>*) \<and> nested E S"
    using assms by (induction P) (auto simp: grey_def)
  show "pending E V A (P @ S) \<longleftrightarrow> pending E V (A \<union> fst ` set P) S"
    using assms by (induction P arbitrary: A) (auto simp: insert_commute)
qed

lemma finish_inv_visit:
  assumes inv: "finish_inv E ((u, False) # S) V F" and u: "u \<notin> V"
    and P: "\<forall>p \<in> set P. \<not> snd p" "fst ` set P = E `` {u} - insert u V"
  shows "finish_inv E (P @ (u, True) # S) (insert u V) F"
proof -
  have g: "grey (P @ (u, True) # S) = u # grey S"
    using white_prefix(1) [OF P(1)] by simp
  have closed: "E `` set F \<subseteq> V" using inv by (simp add: finish_inv_def)
  have n: "nested E (P @ (u, True) # S)"
  proof -
    have "(b, fst p) \<in> E\<^sup>*" if "p \<in> set P" "b \<in> insert u (set (grey S))" for p b
    proof -
      have "(u, fst p) \<in> E" using that(1) P(2) by blast
      moreover have "(b, u) \<in> E\<^sup>*" using that(2) inv by (auto simp: finish_inv_def)
      ultimately show ?thesis by simp
    qed
    then show ?thesis
      using inv by (simp add: white_prefix(2) [OF P(1)] finish_inv_def)
  qed
  have p: "pending E (insert u V) {} (P @ (u, True) # S)"
  proof -
    have "pending E V {u} S" using inv by (simp add: finish_inv_def)
    then have "pending E (insert u V) (fst ` set P) S" by (rule pending_mono) blast+
    with P(2) show ?thesis by (auto simp: white_prefix(3) [OF P(1)])
  qed
  have o: "owns E b F" if "b \<in> set (u # grey S)" for b
  proof (cases "b = u")
    case True
    with u closed show ?thesis by (intro owns_new) auto
  next
    case False
    with that inv show ?thesis by (simp add: finish_inv_def)
  qed
  have v: "set F \<union> set (u # grey S) = insert u V" "distinct (F @ u # grey S)"
    using inv u by (auto simp: finish_inv_def)
  from closed have c: "E `` set F \<subseteq> insert u V" by blast
  have "order_ok E F" using inv by (simp add: finish_inv_def)
  with v n p c o show ?thesis by (intro finish_invI) (simp_all only: g)
qed

text \<open>What a run of the loop ends with: everything pending is visited, only vertices are added.\<close>

definition finished :: "graph \<Rightarrow> (u32 \<times> bool) list \<Rightarrow> u32 set \<Rightarrow> u32 set \<times> u32 list \<Rightarrow> bool" where
  "finished g S V r \<longleftrightarrow>
     finish_inv (edges g) [] (fst r) (snd r) \<and> V \<union> fst ` set S \<subseteq> fst r \<and>
     (V \<union> fst ` set S \<subseteq> verts g \<longrightarrow> fst r \<subseteq> verts g)"

lemma finished_weaken:
  "finished g T W r \<Longrightarrow> V \<union> fst ` set S \<subseteq> W \<union> fst ` set T \<Longrightarrow>
   (V \<union> fst ` set S \<subseteq> verts g \<Longrightarrow> W \<union> fst ` set T \<subseteq> verts g) \<Longrightarrow> finished g S V r"
  unfolding finished_def by (meson subset_trans)

lemma finish_loop_inv:
  assumes "graph_ok g"
  shows "finish_inv (edges g) S V F \<Longrightarrow> finished g S V (finish_loop g S V F)"
  using assms
proof (induction g S V F rule: finish_loop.induct)
  case (1 g V F)
  then show ?case by (simp add: finished_def)
next
  case (2 g u post S V F)
  consider (post) post | (skip) "\<not> post" "u \<in> V" | (visit) "\<not> post" "u \<notin> V" by blast
  then show ?case
  proof cases
    case post
    with 2(4) have u: "u \<in> V" by (auto simp: finish_inv_def)
    have "finished g S V (finish_loop g S V (u # F))"
      using post 2(1,4,5) finish_inv_post by simp
    from finished_weaken [OF this, of V "(u, post) # S"] u post show ?thesis by auto
  next
    case skip
    have "finished g S V (finish_loop g S V F)"
      using skip 2(2,4,5) finish_inv_skip by simp
    from finished_weaken [OF this, of V "(u, post) # S"] skip show ?thesis by auto
  next
    case visit
    from pushed_shape [of "insert u V" "neighbors g u" "(u, True) # S"]
    obtain P where P: "fold (\<lambda>v S. if v \<notin> insert u V then (v, False) # S else S) (neighbors g u) ((u, True) # S)
        = P @ (u, True) # S" "\<forall>p \<in> set P. \<not> snd p" "fst ` set P = set (neighbors g u) - insert u V"
      by (elim exE conjE)
    have E: "edges g `` {u} = set (neighbors g u)" by (auto simp: edges_iff)
    have inv: "finish_inv (edges g) (P @ (u, True) # S) (insert u V) F"
      using finish_inv_visit [OF _ visit(2) P(2)] 2(4) visit(1) P(3) E by simp
    have f: "finished g (P @ (u, True) # S) (insert u V) (finish_loop g (P @ (u, True) # S) (insert u V) F)"
      using 2(3) [OF visit refl] inv 2(5) unfolding P(1) by blast
    have n: "u \<in> verts g \<Longrightarrow> fst ` set P \<subseteq> verts g"
      using P(3) edges_verts [OF 2(5)] by (auto simp: edges_iff)
    have "finished g ((u, post) # S) V (finish_loop g (P @ (u, True) # S) (insert u V) F)"
      by (rule finished_weaken [OF f]) (use n in auto)
    moreover have "finish_loop g ((u, post) # S) V F = finish_loop g (P @ (u, True) # S) (insert u V) F"
      using visit P(1) by (simp add: Let_def)
    ultimately show ?thesis by simp
  qed
qed

lemma finish_from_inv:
  assumes "graph_ok g" and "finish_inv (edges g) [] V F" and "V \<union> {v} \<subseteq> verts g"
  shows "case finish_from g v (V, F) of (V', F') \<Rightarrow>
    finish_inv (edges g) [] V' F' \<and> V \<union> {v} \<subseteq> V' \<and> V' \<subseteq> verts g"
proof (cases "v \<in> V")
  case True
  with assms show ?thesis by (auto simp: finish_from_def)
next
  case False
  have "finish_inv (edges g) [(v, False)] V F"
    by (rule finish_invI) (use assms(2) in \<open>auto simp: finish_inv_def\<close>)
  from finish_loop_inv [OF assms(1) this] assms(3) False show ?thesis
    by (auto simp: finish_from_def finished_def split: prod.splits)
qed

lemma fold_finish_from:
  assumes "graph_ok g"
  shows "finish_inv (edges g) [] V F \<Longrightarrow> V \<union> set vs \<subseteq> verts g \<Longrightarrow>
    (case fold (finish_from g) vs (V, F) of (V', F') \<Rightarrow>
       finish_inv (edges g) [] V' F' \<and> V \<union> set vs \<subseteq> V' \<and> V' \<subseteq> verts g)"
proof (induction vs arbitrary: V F)
  case (Cons v vs)
  obtain V' F' where r: "finish_from g v (V, F) = (V', F')" by (cases "finish_from g v (V, F)")
  with finish_from_inv [OF assms Cons.prems(1), of v] Cons.prems(2)
  have "finish_inv (edges g) [] V' F'" "V \<union> {v} \<subseteq> V'" "V' \<subseteq> verts g" by auto
  with Cons.IH [of V' F'] Cons.prems(2) r show ?case by (auto split: prod.splits)
qed simp

lemma finish_order_ok:
  assumes "graph_ok g" and "fold (finish_from g) (vertices g) ({}, []) = (V, F)"
  shows "set F = verts g" and "distinct F" and "order_ok (edges g) F"
proof -
  have "finish_inv (edges g) [] {} []" by (simp add: finish_inv_def)
  from fold_finish_from [OF assms(1) this, of "vertices g"] assms(2)
  have "finish_inv (edges g) [] V F" "verts g \<subseteq> V" "V \<subseteq> verts g"
    by (auto simp: set_vertices)
  then show "set F = verts g" and "distinct F" and "order_ok (edges g) F"
    by (auto simp: finish_inv_def)
qed

section \<open>Pass 2 collects the components\<close>

definition comp_inv ::
  "(u32 \<times> u32) set \<Rightarrow> u32 \<Rightarrow> u32 set \<Rightarrow> u32 list \<Rightarrow> u32 set \<Rightarrow> u32 list \<Rightarrow> bool" where
  "comp_inv R r V0 S V c \<longleftrightarrow>
     V0 \<union> set c = V \<and> set c \<inter> V0 = {} \<and> distinct c \<and>
     set c \<union> set S \<subseteq> R\<^sup>* `` {r} \<and> R `` V \<subseteq> V \<union> set S \<and> r \<in> V \<union> set S"

lemma comp_pushed:
  "set (fold (\<lambda>v S. if v \<notin> V then v # S else S) ns S) = set S \<union> (set ns - V)"
  by (induction ns arbitrary: S) auto

lemma comp_inv_visit:
  assumes "comp_inv R r V0 (u # S) V c" and "u \<notin> V" and "set S' = set S \<union> (R `` {u} - insert u V)"
  shows "comp_inv R r V0 S' (insert u V) (c @ [u])"
  using assms unfolding comp_inv_def
  by (intro conjI) (auto intro: rtrancl_into_rtrancl)

lemma comp_loop_inv:
  "comp_inv (edges gt) r V0 S V c \<Longrightarrow>
     (case comp_loop gt S V c of (V', c') \<Rightarrow> comp_inv (edges gt) r V0 [] V' c')"
proof (induction gt S V c rule: comp_loop.induct)
  case (1 gt V c)
  then show ?case by simp
next
  case (2 gt u S V c)
  show ?case
  proof (cases "u \<in> V")
    case True
    then have "comp_inv (edges gt) r V0 S V c"
      using 2(3) unfolding comp_inv_def by auto
    with True 2(1) show ?thesis by simp
  next
    case False
    let ?S = "fold (\<lambda>v S. if v \<notin> insert u V then v # S else S) (neighbors gt u) S"
    have "edges gt `` {u} = set (neighbors gt u)" by (auto simp: edges_iff)
    then have "comp_inv (edges gt) r V0 ?S (insert u V) (c @ [u])"
      by (intro comp_inv_visit [OF 2(3) False]) (simp only: comp_pushed)
    from 2(2) [OF False refl this] False show ?thesis by (simp add: Let_def)
  qed
qed

lemma comp_loop_result:
  assumes "edges gt `` V \<subseteq> V" and "r \<notin> V" and "comp_loop gt [r] V [] = (V', c)"
  shows "V' = V \<union> set c" "edges gt `` V' \<subseteq> V'" "distinct c" "set c \<inter> V = {}"
    "set c = (edges gt)\<^sup>* `` {r} - V"
proof -
  have "comp_inv (edges gt) r V [r] V []"
    using assms(1) by (auto simp: comp_inv_def)
  from comp_loop_inv [OF this] assms(3) have i: "comp_inv (edges gt) r V [] V' c" by simp
  then show v: "V' = V \<union> set c" and cl: "edges gt `` V' \<subseteq> V'" and "distinct c" "set c \<inter> V = {}"
    by (auto simp: comp_inv_def)
  have "r \<in> V'" using i by (simp add: comp_inv_def)
  then have "(edges gt)\<^sup>* `` {r} \<subseteq> V'"
    using Image_closed_trancl [OF cl] by (metis Image_mono empty_subsetI insert_subset order_refl)
  with v i show "set c = (edges gt)\<^sup>* `` {r} - V"
    unfolding comp_inv_def by auto
qed

lemma rtrancl_outside:
  assumes "(x, s) \<in> E\<^sup>*" and "\<And>y. (x, y) \<in> E\<^sup>* \<Longrightarrow> (y, s) \<in> E\<^sup>* \<Longrightarrow> y \<in> A"
  shows "(x, s) \<in> (E \<inter> A \<times> A)\<^sup>*"
  using assms
proof (induction rule: converse_rtrancl_induct)
  case (step x y)
  have "(x, y) \<in> E \<inter> A \<times> A"
    using step by (auto intro: converse_rtrancl_into_rtrancl)
  moreover have "(y, s) \<in> (E \<inter> A \<times> A)\<^sup>*"
    using step by (intro step.IH) (auto intro: converse_rtrancl_into_rtrancl)
  ultimately show ?case by (rule converse_rtrancl_into_rtrancl)
qed simp

text \<open>The component found from the last finished vertex outside \<open>V\<close> is its class.\<close>

lemma comp_is_class:
  assumes ok: "graph_ok g" and order: "order_ok (edges g) (s # F)" "distinct (s # F)"
    and cover: "V \<union> set (s # F) = verts g" and closed: "(edges g)\<inverse> `` V \<subseteq> V" and s: "s \<notin> V"
  shows "((edges g)\<inverse>)\<^sup>* `` {s} - V = mutual g `` {s}"
proof (intro set_eqI iffI)
  let ?E = "edges g"
  have predV: "y \<in> V" if "(y, z) \<in> ?E\<^sup>*" "z \<in> V" for y z
    using that by (induction rule: converse_rtrancl_induct) (use closed in auto)
  have sv: "s \<in> verts g" using cover by auto
  { fix x
    assume "x \<in> (?E\<inverse>)\<^sup>* `` {s} - V"
    then have x: "(x, s) \<in> ?E\<^sup>*" "x \<notin> V" by (simp_all add: rtrancl_converse)
    have xv: "x \<in> verts g"
      using x(1) sv by (cases rule: converse_rtranclE) (auto dest: edges_verts [OF ok])
    have "(x, s) \<in> (?E \<inter> set (s # F) \<times> set (s # F))\<^sup>*"
    proof (rule rtrancl_outside [OF x(1)])
      fix y assume y: "(x, y) \<in> ?E\<^sup>*" "(y, s) \<in> ?E\<^sup>*"
      with predV x(2) have "y \<notin> V" by blast
      moreover have "y \<in> verts g" using reach_verts [OF y(1) ok xv] .
      ultimately show "y \<in> set (s # F)" using cover by blast
    qed
    moreover from xv x(2) cover obtain j where "j < length (s # F)" "(s # F) ! j = x"
      by (metis UnE in_set_conv_nth)
    ultimately have "(s, x) \<in> ?E\<^sup>*" using order_ok_head [OF order] by blast
    with x show "x \<in> mutual g `` {s}" by (simp add: mutual_def) }
  { fix x
    assume "x \<in> mutual g `` {s}"
    then have x: "(x, s) \<in> ?E\<^sup>*" "(s, x) \<in> ?E\<^sup>*" by (simp_all add: mutual_def)
    with predV s have "x \<notin> V" by blast
    with x show "x \<in> (?E\<inverse>)\<^sup>* `` {s} - V" by (simp add: rtrancl_converse) }
qed

lemma fold_comp_from:
  assumes ok: "graph_ok g"
  shows "order_ok (edges g) F \<Longrightarrow> distinct F \<Longrightarrow> V \<union> set F = verts g \<Longrightarrow> (edges g)\<inverse> `` V \<subseteq> V \<Longrightarrow>
    sccs_so_far g V cs \<Longrightarrow> sccs_of g (snd (fold (comp_from (transpose_graph g)) F (V, cs)))"
proof (induction F arbitrary: V cs)
  case Nil
  then show ?case using sccs_so_far_all by auto
next
  case (Cons s F)
  show ?case
  proof (cases "s \<in> V")
    case True
    with Cons show ?thesis by (simp add: comp_from_def insert_absorb)
  next
    case False
    obtain V' c where r: "comp_loop (transpose_graph g) [s] V [] = (V', c)"
      by (cases "comp_loop (transpose_graph g) [s] V []")
    have te: "edges (transpose_graph g) = (edges g)\<inverse>" by (rule transpose_graph_ok [OF ok])
    note c = comp_loop_result [OF _ False r, unfolded te, OF Cons.prems(4)]
    have cls: "set c = mutual g `` {s}"
      using comp_is_class [OF ok Cons.prems(1-4) False] c(5) by simp
    have "set c \<subseteq> verts g"
      unfolding cls using mutual_verts [OF _ ok] Cons.prems(3) by auto
    moreover have "s \<in> set c" using cls by simp
    ultimately have "V' \<union> set F = verts g" using c(1) Cons.prems(3) by auto
    moreover have "sccs_so_far g V' (cs @ [c])"
      using sccs_so_far_snoc [OF Cons.prems(5) cls c(3,4)] c(1) by simp
    ultimately have "sccs_of g (snd (fold (comp_from (transpose_graph g)) F (V', cs @ [c])))"
      using Cons.IH [of V'] Cons.prems(1,2) c(2) by simp
    moreover have "comp_from (transpose_graph g) s (V, cs) = (V', cs @ [c])"
      using False r by (simp add: comp_from_def del: comp_loop.simps)
    ultimately show ?thesis by simp
  qed
qed

lemma kosaraju_ok:
  assumes "graph_ok g"
  shows "sccs_of g (kosaraju g)"
proof -
  obtain V F where f: "fold (finish_from g) (vertices g) ({}, []) = (V, F)"
    by (cases "fold (finish_from g) (vertices g) ({}, [])")
  have "sccs_of g (snd (fold (comp_from (transpose_graph g)) F ({}, [])))"
    using finish_order_ok [OF assms f] by (intro fold_comp_from [OF assms]) (simp_all add: sccs_so_far_Nil)
  with f show ?thesis by (simp add: kosaraju_def Let_def case_prod_beta')
qed

interpretation kosaraju: scc_detector kosaraju
  by unfold_locales (rule kosaraju_ok)

text \<open>C22: Kosaraju's detector returns the strongly connected components: every vertex is in
  exactly one of them, no component is empty, and two vertices share one exactly when each
  reaches the other.\<close>

theorem kosaraju_components:
  assumes "graph_ok g"
  shows "distinct (concat (kosaraju g)) \<and> set (concat (kosaraju g)) = verts g \<and>
    [] \<notin> set (kosaraju g) \<and>
    (\<forall>u \<in> verts g. \<forall>v. (\<exists>c \<in> set (kosaraju g). u \<in> set c \<and> v \<in> set c) \<longleftrightarrow>
       (u, v) \<in> (edges g)\<^sup>* \<and> (v, u) \<in> (edges g)\<^sup>*)"
proof -
  have "\<forall>u \<in> verts g. \<forall>v. (\<exists>c \<in> set (kosaraju g). u \<in> set c \<and> v \<in> set c) \<longleftrightarrow>
       (u, v) \<in> (edges g)\<^sup>* \<and> (v, u) \<in> (edges g)\<^sup>*"
    using kosaraju.same_component [OF assms] by (simp add: mutual_def)
  with kosaraju_ok [OF assms] show ?thesis unfolding sccs_of_def by blast
qed

theorem kosaraju_components_witness:
  "(1, 3) \<in> (edges (graph_run [AddEdge 1 2, AddEdge 2 3, AddEdge 3 1, AddEdge 3 4]))\<^sup>*"
proof -
  let ?g = "graph_run [AddEdge 1 2, AddEdge 2 3, AddEdge 3 1, AddEdge 3 4]"
  have k: "\<exists>c \<in> set (kosaraju ?g). 1 \<in> set c \<and> 3 \<in> set c" by code_simp
  have "1 \<in> verts ?g" by (simp add: graph_run_def graph_simps)
  with k kosaraju_components [OF graph_run_ok, of "[AddEdge 1 2, AddEdge 2 3, AddEdge 3 1, AddEdge 3 4]"]
  show ?thesis by blast
qed

end
