(* ===== verification/Tarjan.thy ===== *)
theory Tarjan
  imports SCC
begin

text \<open>
  Tarjan's algorithm as written in \<open>libdsa/src/graph/tarjan.cpp\<close>: an iterative depth-first search
  with an explicit call stack of frames, the maps \<open>disc\<close> and \<open>low\<close>, and the stack \<open>stk\<close> from which
  finished components are popped. Both stacks are lists whose head is the top. \<open>top()\<close> of an
  empty stack is undefined behaviour, so the search is a computation that may fail.
\<close>

section \<open>The algorithm\<close>

record tarjan =
  disc :: "u32 \<rightharpoonup> int"
  low :: "u32 \<rightharpoonup> int"
  on_stack :: "u32 \<rightharpoonup> bool"
  stk :: "u32 list"
  sccs :: "u32 list list"
  timer :: int

type_synonym frame = "u32 \<times> u32 list \<times> nat"   \<comment> \<open>\<open>u\<close>, \<open>neighbors\<close>, \<open>idx\<close>\<close>

definition tarjan_new :: tarjan where
  "tarjan_new = \<lparr>disc = Map.empty, low = Map.empty, on_stack = Map.empty, stk = [], sccs = [], timer = 0\<rparr>"

text \<open>\<open>m[k]\<close> of an \<open>unordered_map\<close> to integers or truth values.\<close>

definition int_at :: "(u32 \<rightharpoonup> int) \<Rightarrow> u32 \<Rightarrow> int" where
  "int_at m k = (case m k of None \<Rightarrow> 0 | Some x \<Rightarrow> x)"

definition bool_at :: "(u32 \<rightharpoonup> bool) \<Rightarrow> u32 \<Rightarrow> bool" where
  "bool_at m k = (case m k of None \<Rightarrow> False | Some x \<Rightarrow> x)"

definition discover :: "u32 \<Rightarrow> tarjan \<Rightarrow> tarjan" where
  "discover v t = t\<lparr>disc := (disc t)(v \<mapsto> timer t), low := (low t)(v \<mapsto> timer t),
     on_stack := (on_stack t)(v \<mapsto> True), stk := v # stk t, timer := timer t + 1\<rparr>"

definition lower :: "u32 \<Rightarrow> int \<Rightarrow> tarjan \<Rightarrow> tarjan" where
  "lower u n t = t\<lparr>low := (low t)(u \<mapsto> min (int_at (low t) u) n)\<rparr>"

fun pop_component :: "u32 \<Rightarrow> u32 list \<Rightarrow> (u32 \<rightharpoonup> bool) \<Rightarrow> u32 list \<Rightarrow>
    (u32 list \<times> (u32 \<rightharpoonup> bool) \<times> u32 list) res" where
  "pop_component u [] os component = Inl Undefined"
| "pop_component u (w # ws) os component =
     (if w = u then Inr (ws, os(w \<mapsto> False), component @ [w])
      else pop_component u ws (os(w \<mapsto> False)) (component @ [w]))"

definition close_component :: "u32 \<Rightarrow> tarjan \<Rightarrow> tarjan res" where
  "close_component u t =
     bind_res (pop_component u (stk t) (on_stack t) []) (\<lambda>(ws, os, component).
       Inr (t\<lparr>stk := ws, on_stack := os, sccs := sccs t @ [component]\<rparr>))"

text \<open>One iteration of \<open>while (!call_stack.empty())\<close>, on a non-empty call stack.\<close>

definition return_to :: "frame list \<Rightarrow> int \<Rightarrow> tarjan \<Rightarrow> tarjan" where
  "return_to call_stack u_low t =
     (case call_stack of [] \<Rightarrow> t | (p, _) # _ \<Rightarrow> lower p u_low t)"

definition tarjan_step :: "graph \<Rightarrow> frame \<Rightarrow> frame list \<Rightarrow> tarjan \<Rightarrow> (frame list \<times> tarjan) res" where
  "tarjan_step g cur call_stack t =
     (case cur of (u, ns, idx) \<Rightarrow>
        if idx < length ns then
          let v = ns ! idx; frames = (u, ns, idx + 1) # call_stack in
          if disc t v = None then Inr ((v, neighbors g v, 0) # frames, discover v t)
          else if bool_at (on_stack t) v then Inr (frames, lower u (int_at (disc t) v) t)
          else Inr (frames, t)
        else
          bind_res (if int_at (low t) u = int_at (disc t) u then close_component u t else Inr t)
            (\<lambda>t. Inr (call_stack, return_to call_stack (int_at (low t) u) t)))"

definition work_left :: "frame list \<Rightarrow> nat" where
  "work_left fs = sum_list (map (\<lambda>(u, ns, idx). Suc (length ns - idx)) fs)"

lemma card_less_dom: "m v = None \<Longrightarrow> card (- dom (m(v \<mapsto> x))) < card (- dom m)" for m :: "u32 \<rightharpoonup> 'a"
  by (rule psubset_card_mono) (auto intro: finite_subset [of _ UNIV])

lemma close_component_disc: "close_component u t = Inr t' \<Longrightarrow> disc t' = disc t"
  by (auto simp: close_component_def bind_res_eq_Inr)

lemma return_to_disc: "disc (return_to fs n t) = disc t"
  by (simp add: return_to_def lower_def split: list.split prod.split)

lemma tarjan_step_progress:
  assumes "tarjan_step g f fs t = Inr (fs', t')"
  shows "card (- dom (disc t')) < card (- dom (disc t)) \<or>
    (disc t' = disc t \<and> work_left fs' < work_left (f # fs))"
proof -
  obtain u ns idx where f: "f = (u, ns, idx)" by (cases f)
  show ?thesis
  proof (cases "idx < length ns")
    case True
    with assms f card_less_dom [of "disc t" "ns ! idx" "timer t"] show ?thesis
      by (auto simp: tarjan_step_def Let_def discover_def lower_def work_left_def split: if_splits)
  next
    case False
    with assms f show ?thesis
      by (auto simp: tarjan_step_def bind_res_eq_Inr work_left_def return_to_disc
          dest: close_component_disc split: if_splits)
  qed
qed

function tarjan_loop :: "graph \<Rightarrow> frame list \<Rightarrow> tarjan \<Rightarrow> tarjan res" where
  "tarjan_loop g [] t = Inr t"
| "tarjan_loop g (f # fs) t =
     bind_res (tarjan_step g f fs t) (\<lambda>(fs', t'). tarjan_loop g fs' t')"
  by pat_completeness auto
termination
proof (relation "measures [\<lambda>(g, fs, t). card (- dom (disc t)), \<lambda>(g, fs, t). work_left fs]", goal_cases)
  case (2 g f fs t x fs' t')
  then show ?case using tarjan_step_progress [of g f fs t fs' t'] by auto
qed simp

definition tarjan_from :: "graph \<Rightarrow> u32 \<Rightarrow> tarjan \<Rightarrow> tarjan res" where
  "tarjan_from g start t =
     (if disc t start \<noteq> None then Inr t
      else tarjan_loop g [(start, neighbors g start, 0)] (discover start t))"

definition tarjan_sccs :: "graph \<Rightarrow> u32 list list res" where
  "tarjan_sccs g = bind_res (fold_res (tarjan_from g) (vertices g) tarjan_new) (\<lambda>t. Inr (sccs t))"

section \<open>The invariant of the search\<close>

text \<open>
  \<open>E\<close>: the edges; \<open>D\<close>: the discovered vertices, \<open>d\<close> and \<open>l\<close> their numbers and low-links;
  \<open>us\<close>: the grey vertices (those of the call stack), innermost first; \<open>X u\<close>: the successors of
  a grey \<open>u\<close> explored so far; \<open>dn\<close>: the vertices in finished components.
\<close>

definition numbered :: "u32 set \<Rightarrow> (u32 \<Rightarrow> int) \<Rightarrow> u32 list \<Rightarrow> u32 set \<Rightarrow> int \<Rightarrow> bool" where
  "numbered D d ws dn t \<longleftrightarrow>
     set ws \<union> dn = D \<and> set ws \<inter> dn = {} \<and> sorted_wrt (\<lambda>x y. d y < d x) ws \<and> (\<forall>x \<in> D. d x < t)"

definition greys :: "(u32 \<times> u32) set \<Rightarrow> (u32 \<Rightarrow> int) \<Rightarrow> u32 list \<Rightarrow> u32 list \<Rightarrow> bool" where
  "greys E d ws us \<longleftrightarrow>
     sorted_wrt (\<lambda>x y. d y < d x) us \<and> set us \<subseteq> set ws \<and>
     (\<forall>a \<in> set us. \<forall>x \<in> set ws. d a \<le> d x \<longrightarrow> (a, x) \<in> E\<^sup>*) \<and>
     (\<forall>x \<in> set ws. \<exists>a \<in> set us. d a \<le> d x \<and> (x, a) \<in> E\<^sup>*)"

definition explored ::
  "(u32 \<times> u32) set \<Rightarrow> u32 set \<Rightarrow> u32 list \<Rightarrow> u32 list \<Rightarrow> (u32 \<Rightarrow> u32 set) \<Rightarrow> bool" where
  "explored E D ws us X \<longleftrightarrow>
     (\<forall>x \<in> set ws - set us. E `` {x} \<subseteq> D) \<and> (\<forall>u \<in> set us. X u \<subseteq> D)"

text \<open>\<open>u\<close> is the grey vertex in whose subtree the finished vertex \<open>x\<close> lies.\<close>

definition innermost :: "(u32 \<Rightarrow> int) \<Rightarrow> u32 list \<Rightarrow> u32 \<Rightarrow> u32 \<Rightarrow> bool" where
  "innermost d us x u \<longleftrightarrow> u \<in> set us \<and> d u < d x \<and> (\<forall>b \<in> set us. d b < d x \<longrightarrow> d b \<le> d u)"

definition low_of ::
  "(u32 \<times> u32) set \<Rightarrow> (u32 \<Rightarrow> int) \<Rightarrow> u32 list \<Rightarrow> u32 list \<Rightarrow> (u32 \<Rightarrow> u32 set) \<Rightarrow> u32 \<Rightarrow> int \<Rightarrow> bool" where
  "low_of E d ws us X u m \<longleftrightarrow>
     m \<le> d u \<and> (\<exists>w \<in> set ws. d w = m \<and> (u, w) \<in> E\<^sup>*) \<and>
     (\<forall>w \<in> X u \<inter> set ws. m \<le> d w) \<and>
     (\<forall>x \<in> set ws - set us. innermost d us x u \<longrightarrow> (\<forall>w \<in> set ws. (x, w) \<in> E \<longrightarrow> m \<le> d w))"

definition search_inv ::
  "(u32 \<times> u32) set \<Rightarrow> u32 set \<Rightarrow> (u32 \<Rightarrow> int) \<Rightarrow> (u32 \<Rightarrow> int) \<Rightarrow> u32 list \<Rightarrow> u32 list \<Rightarrow>
     (u32 \<Rightarrow> u32 set) \<Rightarrow> u32 set \<Rightarrow> int \<Rightarrow> bool" where
  "search_inv E D d l ws us X dn t \<longleftrightarrow>
     numbered D d ws dn t \<and> greys E d ws us \<and> explored E D ws us X \<and>
     (\<forall>u \<in> set us. low_of E d ws us X u (l u)) \<and> E `` dn \<subseteq> dn"

lemma numbered_inj: "numbered D d ws dn t \<Longrightarrow> x \<in> set ws \<Longrightarrow> y \<in> set ws \<Longrightarrow> d x = d y \<Longrightarrow> x = y"
proof -
  have "sorted_wrt (\<lambda>x y. d y < d x) ws \<Longrightarrow> x \<in> set ws \<Longrightarrow> y \<in> set ws \<Longrightarrow> d x = d y \<Longrightarrow> x = y"
    by (induction ws) auto
  then show "numbered D d ws dn t \<Longrightarrow> x \<in> set ws \<Longrightarrow> y \<in> set ws \<Longrightarrow> d x = d y \<Longrightarrow> x = y"
    by (simp add: numbered_def)
qed

subsection \<open>Discovering a vertex\<close>

lemma visit_numbered:
  assumes "numbered D d ws dn t" and "v \<notin> D"
  shows "numbered (insert v D) (d(v := t)) (v # ws) dn (t + 1)"
proof -
  have "sorted_wrt (\<lambda>x y. (d(v := t)) y < (d(v := t)) x) ws"
    by (rule sorted_wrt_mono_rel [of _ "\<lambda>x y. d y < d x"]) (use assms in \<open>auto simp: numbered_def\<close>)
  then have "sorted_wrt (\<lambda>x y. (d(v := t)) y < (d(v := t)) x) (v # ws)"
    using assms by (auto simp: numbered_def)
  moreover have "set (v # ws) \<union> dn = insert v D" "set (v # ws) \<inter> dn = {}"
    using assms by (auto simp: numbered_def)
  moreover have "\<forall>x \<in> insert v D. (d(v := t)) x < t + 1"
    using assms by (auto simp: numbered_def intro: less_imp_le)
  ultimately show ?thesis by (simp add: numbered_def)
qed

lemma visit_greys:
  assumes n: "numbered D d ws dn t" and g: "greys E d ws us" and v: "v \<notin> D"
    and from_grey: "\<forall>a \<in> set us. (a, v) \<in> E\<^sup>*"
  shows "greys E (d(v := t)) (v # ws) (v # us)"
proof -
  have ws: "x \<noteq> v" "d x < t" if "x \<in> set ws" for x using n v that by (auto simp: numbered_def)
  have us: "set us \<subseteq> set ws" using g by (simp add: greys_def)
  have "sorted_wrt (\<lambda>x y. (d(v := t)) y < (d(v := t)) x) us"
    by (rule sorted_wrt_mono_rel [of _ "\<lambda>x y. d y < d x"]) (use g us ws in \<open>auto simp: greys_def\<close>)
  moreover have "(a, x) \<in> E\<^sup>*"
    if "a \<in> set (v # us)" "x \<in> set (v # ws)" "(d(v := t)) a \<le> (d(v := t)) x" for a x
  proof (cases "a = v \<or> x = v")
    case True
    with that from_grey ws [of x] show ?thesis by (auto split: if_splits)
  next
    case False
    with that g show ?thesis by (auto simp: greys_def)
  qed
  moreover have "\<exists>a \<in> set (v # us). (d(v := t)) a \<le> (d(v := t)) x \<and> (x, a) \<in> E\<^sup>*"
    if "x \<in> set (v # ws)" for x
  proof (cases "x = v")
    case False
    with that g obtain a where a: "a \<in> set us" "d a \<le> d x" "(x, a) \<in> E\<^sup>*" by (auto simp: greys_def)
    with us ws have "a \<noteq> v" by blast
    with a False show ?thesis by (intro bexI [of _ a]) auto
  qed auto
  moreover have "sorted_wrt (\<lambda>x y. (d(v := t)) y < (d(v := t)) x) (v # us)"
    using calculation(1) us ws by auto
  moreover have "set (v # us) \<subseteq> set (v # ws)" using us by auto
  ultimately show ?thesis unfolding greys_def by blast
qed

lemma visit_explored:
  assumes "numbered D d ws dn t" "explored E D ws us X" "set us \<subseteq> set ws" "v \<notin> D"
  shows "explored E (insert v D) (v # ws) (v # us) (X(v := {}))"
  using assms by (auto simp: explored_def numbered_def)

lemma visit_low_new: "low_of E (d(v := t)) (v # ws) (v # us) (X(v := {})) v t"
  if "\<forall>x \<in> set ws. d x < t"
  using that by (fastforce simp: low_of_def innermost_def)

lemma visit_low_old:
  assumes n: "numbered D d ws dn t" and x: "explored E D ws us X" and v: "v \<notin> D"
    and u: "u \<in> set us" "set us \<subseteq> set ws" and l: "low_of E d ws us X u m"
  shows "low_of E (d(v := t)) (v # ws) (v # us) (X(v := {})) u m"
proof -
  have ws: "y \<noteq> v" "d y < t" if "y \<in> set ws" for y using n v that by (auto simp: numbered_def)
  have uv: "u \<noteq> v" using u ws by blast
  have im: "innermost d us y u" if "innermost (d(v := t)) (v # us) y u" "y \<in> set ws" for y
    using that ws u uv by (auto simp: innermost_def split: if_splits)
  have X: "w \<noteq> v" if "w \<in> X u" for w using x u(1) v that by (auto simp: explored_def)
  have Y: "(y, v) \<notin> E" if "y \<in> set ws - set us" for y using x v that by (auto simp: explored_def)
  from l obtain w where w: "w \<in> set ws" "d w = m" "(u, w) \<in> E\<^sup>*" by (auto simp: low_of_def)
  show ?thesis
    unfolding low_of_def
  proof (intro conjI ballI impI)
    show "m \<le> (d(v := t)) u" using l uv by (simp add: low_of_def)
    show "\<exists>w \<in> set (v # ws). (d(v := t)) w = m \<and> (u, w) \<in> E\<^sup>*"
      using w ws by (intro bexI [of _ w]) auto
  next
    fix w' assume "w' \<in> (X(v := {})) u \<inter> set (v # ws)"
    with X uv l show "m \<le> (d(v := t)) w'" by (auto simp: low_of_def)
  next
    fix y w'
    assume y: "y \<in> set (v # ws) - set (v # us)" "innermost (d(v := t)) (v # us) y u"
      "w' \<in> set (v # ws)" "(y, w') \<in> E"
    with Y have "w' \<noteq> v" "y \<in> set ws - set us" by auto
    with y im l show "m \<le> (d(v := t)) w'" by (auto simp: low_of_def)
  qed
qed

lemma visit_inv:
  assumes i: "search_inv E D d l ws us X dn t" and v: "v \<notin> D"
    and from_grey: "\<forall>a \<in> set us. (a, v) \<in> E\<^sup>*"
  shows "search_inv E (insert v D) (d(v := t)) (l(v := t)) (v # ws) (v # us) (X(v := {})) dn (t + 1)"
proof -
  have n: "numbered D d ws dn t" and g: "greys E d ws us" and x: "explored E D ws us X"
    using i by (simp_all add: search_inv_def)
  have us: "set us \<subseteq> set ws" using g by (simp add: greys_def)
  have "low_of E (d(v := t)) (v # ws) (v # us) (X(v := {})) u ((l(v := t)) u)" if "u \<in> set (v # us)" for u
  proof (cases "u = v")
    case True
    with n show ?thesis by (auto simp: numbered_def intro: visit_low_new)
  next
    case False
    with that i show ?thesis
      using visit_low_old [OF n x v _ us, of u "l u"] by (simp add: search_inv_def)
  qed
  then show ?thesis
    unfolding search_inv_def
    using visit_numbered [OF n v] visit_greys [OF n g v from_grey] visit_explored [OF n x us v] i
    by (simp add: search_inv_def)
qed

subsection \<open>Exploring an edge\<close>

lemma explore_inv:
  assumes i: "search_inv E D d l ws us X dn t" and "u \<in> set us" "w \<in> D"
    and "w \<in> set ws \<Longrightarrow> l u \<le> d w"
  shows "search_inv E D d l ws us (X(u := insert w (X u))) dn t"
proof -
  have "low_of E d ws us (X(u := insert w (X u))) v (l v)" if "v \<in> set us" for v
    using that i assms(4) unfolding search_inv_def low_of_def by auto
  moreover have "explored E D ws us (X(u := insert w (X u)))"
    using i assms(2,3) by (simp add: search_inv_def explored_def)
  ultimately show ?thesis using i by (simp add: search_inv_def)
qed

lemma low_of_less:
  "low_of E d ws us X u m \<Longrightarrow> w \<in> set ws \<Longrightarrow> (u, w) \<in> E\<^sup>* \<Longrightarrow> d w \<le> m \<Longrightarrow> low_of E d ws us X u (d w)"
  unfolding low_of_def by (intro conjI) (blast intro: order_trans)+

lemma low_of_smaller:
  "low_of E d ws us X u m \<Longrightarrow> w \<in> set ws \<Longrightarrow> (u, w) \<in> E\<^sup>* \<Longrightarrow> low_of E d ws us X u (min m (d w))"
  using low_of_less [of E d ws us X u m w] by (cases "d w \<le> m") (simp_all add: min_def)

lemma lower_inv:
  assumes i: "search_inv E D d l ws us X dn t" and w: "w \<in> set ws" "(u, w) \<in> E\<^sup>*"
  shows "search_inv E D d (l(u := min (l u) (d w))) ws us X dn t"
  using assms low_of_smaller [OF _ w] unfolding search_inv_def by simp

subsection \<open>Leaving a vertex\<close>

lemma innermost_head:
  assumes "greys E d ws (u # us)" and "x \<in> set ws" and "d u < d x"
  shows "innermost d (u # us) x u"
  using assms by (auto simp: innermost_def greys_def)

lemma grey_below: "greys E d ws us \<Longrightarrow> x \<in> set ws \<Longrightarrow> \<exists>a \<in> set us. d a \<le> d x \<and> (x, a) \<in> E\<^sup>*"
  by (simp add: greys_def)

text \<open>A vertex whose low-link is smaller stays on the stack and hands its debts to its parent.\<close>

lemma retire_greys:
  assumes g: "greys E d ws (u # p # us)" and w: "w \<in> set ws" "d w < d u" "(u, w) \<in> E\<^sup>*"
  shows "greys E d ws (p # us)"
proof -
  have "\<exists>a \<in> set (p # us). d a \<le> d x \<and> (x, a) \<in> E\<^sup>*" if "x \<in> set ws" for x
  proof -
    have reach: "\<exists>a \<in> set (u # p # us). d a \<le> d y \<and> (y, a) \<in> E\<^sup>*" if "y \<in> set ws" for y
      using g that by (simp add: greys_def)
    from reach [OF that] obtain a where a: "a \<in> set (u # p # us)" "d a \<le> d x" "(x, a) \<in> E\<^sup>*" by blast
    from reach [OF w(1)] obtain b where b: "b \<in> set (u # p # us)" "d b \<le> d w" "(w, b) \<in> E\<^sup>*" by blast
    with w(2) have b': "b \<in> set (p # us)" by auto
    show ?thesis
    proof (cases "a = u")
      case True
      with a b w have "d b \<le> d x" "(x, b) \<in> E\<^sup>*" by (auto intro: rtrancl_trans)
      with b' show ?thesis by blast
    next
      case False
      with a show ?thesis by auto
    qed
  qed
  with g show ?thesis unfolding greys_def by simp
qed

lemma retire_low:
  assumes n: "numbered D d ws dn t" and g: "greys E d ws (u # p # us)"
    and lu: "low_of E d ws (u # p # us) X u (l u)" and lb: "low_of E d ws (u # p # us) X b (l b)"
    and X: "X u = E `` {u}" and lp: "l p \<le> l u" and b: "b \<in> set (p # us)"
  shows "low_of E d ws (p # us) X b (l b)"
proof -
  have us: "set (u # p # us) \<subseteq> set ws" "d p < d u" "\<forall>a \<in> set us. d a < d p"
    using g by (auto simp: greys_def)
  have is_p: "b = p" if "innermost d (p # us) x b" "d u \<le> d x" for x
  proof -
    have "d p \<le> d b" using that us(2) by (auto simp: innermost_def)
    with b us(3) show ?thesis by auto
  qed
  have "l b \<le> d w"
    if x: "x \<in> set ws - set (p # us)" "innermost d (p # us) x b" "w \<in> set ws" "(x, w) \<in> E" for x w
  proof -
    consider "x = u" | "x \<noteq> u" "d u < d x" | "x \<noteq> u" "d x < d u"
      using numbered_inj [OF n, of x u] x(1) us(1) by fastforce
    then show ?thesis
    proof cases
      case 1
      then have "l u \<le> d w" using lu X x(3,4) by (auto simp: low_of_def)
      with 1 is_p [OF x(2)] lp show ?thesis by auto
    next
      case 2
      with x(1) have "innermost d (u # p # us) x u" using innermost_head [OF g] by simp
      with 2(1) lu x have "l u \<le> d w" by (auto simp: low_of_def)
      with 2(2) is_p [OF x(2)] lp show ?thesis by auto
    next
      case 3
      with x(2) have "innermost d (u # p # us) x b" by (auto simp: innermost_def)
      with lb x 3 show ?thesis by (auto simp: low_of_def)
    qed
  qed
  with lb show ?thesis by (simp add: low_of_def)
qed

lemma retire_inv:
  assumes i: "search_inv E D d l ws (u # p # us) X dn t"
    and X: "X u = E `` {u}" and lu: "l u < d u" and lp: "l p \<le> l u"
  shows "search_inv E D d l ws (p # us) X dn t"
proof -
  have n: "numbered D d ws dn t" and g: "greys E d ws (u # p # us)"
    and low: "\<forall>b \<in> set (u # p # us). low_of E d ws (u # p # us) X b (l b)"
    and x: "explored E D ws (u # p # us) X"
    using i by (simp_all add: search_inv_def)
  from low obtain w where "w \<in> set ws" "d w = l u" "(u, w) \<in> E\<^sup>*" by (auto simp: low_of_def)
  with lu have "greys E d ws (p # us)" using retire_greys [OF g] by simp
  moreover have "explored E D ws (p # us) X"
    using x X by (auto simp: explored_def)
  moreover have "low_of E d ws (p # us) X b (l b)" if "b \<in> set (p # us)" for b
    by (rule retire_low [where u = u and l = l]) (use n g low X lp that in auto)
  ultimately show ?thesis using n i by (simp add: search_inv_def)
qed

text \<open>The outermost vertex always closes its component.\<close>

lemma last_grey_is_root:
  assumes "search_inv E D d l ws [u] X dn t"
  shows "l u = d u"
proof -
  from assms obtain w where w: "w \<in> set ws" "d w = l u" "l u \<le> d u"
    by (auto simp: search_inv_def low_of_def)
  with assms have "d u \<le> d w" by (auto simp: search_inv_def greys_def)
  with w show ?thesis by simp
qed

text \<open>A root closes the component on top of the stack.\<close>

lemma root_segment:
  assumes n: "numbered D d (tp @ u # rest) dn t" and g: "greys E d (tp @ u # rest) (u # us)"
  shows "x \<in> set tp \<Longrightarrow> d u < d x" "x \<in> set rest \<Longrightarrow> d x < d u" "set us \<subseteq> set rest"
proof -
  show top: "d u < d x" if "x \<in> set tp" for x
    using n that by (auto simp: numbered_def sorted_wrt_append)
  show "d x < d u" if "x \<in> set rest" for x
    using n that by (auto simp: numbered_def sorted_wrt_append)
  show "set us \<subseteq> set rest"
  proof
    fix b assume "b \<in> set us"
    then have "d b < d u" "b \<in> set (tp @ u # rest)" using g by (auto simp: greys_def)
    with top [of b] show "b \<in> set rest" by auto
  qed
qed

lemma root_closed:
  assumes i: "search_inv E D d l (tp @ u # rest) (u # us) X dn t"
    and X: "X u = E `` {u}" and lu: "l u = d u"
  shows "E `` set (tp @ [u]) \<subseteq> set (tp @ [u]) \<union> dn"
proof -
  have n: "numbered D d (tp @ u # rest) dn t" and g: "greys E d (tp @ u # rest) (u # us)"
    and x: "explored E D (tp @ u # rest) (u # us) X"
    and low: "low_of E d (tp @ u # rest) (u # us) X u (l u)"
    using i by (simp_all add: search_inv_def)
  note seg = root_segment [OF n g]
  have "w \<in> set (tp @ [u]) \<union> dn" if y: "y \<in> set (tp @ [u])" "(y, w) \<in> E" for y w
  proof -
    have "w \<in> D \<and> (w \<in> set (tp @ u # rest) \<longrightarrow> d u \<le> d w)"
    proof (cases "y = u")
      case True
      with y(2) X x low lu show ?thesis by (auto simp: explored_def low_of_def)
    next
      case False
      with y have yt: "y \<in> set tp" by simp
      with seg(1) have "innermost d (u # us) y u" by (intro innermost_head [OF g]) auto
      moreover have "y \<notin> set (u # us)" using yt False seg(1,2,3) by (auto dest: less_asym)
      ultimately show ?thesis using yt y(2) x low lu by (auto simp: explored_def low_of_def)
    qed
    with seg(2) n show ?thesis by (force simp: numbered_def)
  qed
  then show ?thesis by blast
qed

lemma root_component:
  assumes i: "search_inv E D d l (tp @ u # rest) (u # us) X dn t"
    and X: "X u = E `` {u}" and lu: "l u = d u"
  shows "set (tp @ [u]) = {v. (u, v) \<in> E\<^sup>* \<and> (v, u) \<in> E\<^sup>*}"
proof (intro set_eqI iffI)
  let ?S = "set (tp @ [u])"
  have n: "numbered D d (tp @ u # rest) dn t" and g: "greys E d (tp @ u # rest) (u # us)"
    and dn: "E `` dn \<subseteq> dn"
    using i by (simp_all add: search_inv_def)
  note seg = root_segment [OF n g]
  { fix v assume v: "v \<in> ?S"
    then have "d u \<le> d v" using seg(1) by (auto intro: less_imp_le)
    with v g have "(u, v) \<in> E\<^sup>*" by (auto simp: greys_def)
    moreover have "v \<in> set (tp @ u # rest)" using v by auto
    with grey_below [OF g] obtain a where a: "a \<in> set (u # us)" "(v, a) \<in> E\<^sup>*" by blast
    have "(a, u) \<in> E\<^sup>*" using a(1) g by (auto simp: greys_def)
    with a(2) have "(v, u) \<in> E\<^sup>*" by (rule rtrancl_trans)
    ultimately show "v \<in> {v. (u, v) \<in> E\<^sup>* \<and> (v, u) \<in> E\<^sup>*}" by simp }
  { fix v assume "v \<in> {v. (u, v) \<in> E\<^sup>* \<and> (v, u) \<in> E\<^sup>*}"
    then have v: "(u, v) \<in> E\<^sup>*" "(v, u) \<in> E\<^sup>*" by simp_all
    have "E `` (?S \<union> dn) \<subseteq> ?S \<union> dn" using root_closed [OF i X lu] dn by blast
    then have "E\<^sup>* `` (?S \<union> dn) = ?S \<union> dn" by (rule Image_closed_trancl)
    with v(1) have "v \<in> ?S \<union> dn" by auto
    moreover have "v \<notin> dn"
    proof
      assume "v \<in> dn"
      with v(2) Image_closed_trancl [OF dn] have "u \<in> dn" by blast
      with n show False by (auto simp: numbered_def)
    qed
    ultimately show "v \<in> ?S" by simp }
qed

lemma root_greys:
  assumes n: "numbered D d (tp @ u # rest) dn t" and g: "greys E d (tp @ u # rest) (u # us)"
  shows "greys E d rest us"
proof -
  note seg = root_segment [OF n g]
  have "\<exists>a \<in> set us. d a \<le> d x \<and> (x, a) \<in> E\<^sup>*" if x: "x \<in> set rest" for x
  proof -
    have "x \<in> set (tp @ u # rest)" using x by simp
    with grey_below [OF g] obtain a where "a \<in> set (u # us)" "d a \<le> d x" "(x, a) \<in> E\<^sup>*" by blast
    with seg(2) [OF x] show ?thesis by auto
  qed
  with g seg(3) show ?thesis by (simp add: greys_def)
qed

lemma root_low:
  assumes n: "numbered D d (tp @ u # rest) dn t" and g: "greys E d (tp @ u # rest) (u # us)"
    and b: "b \<in> set us" and low: "low_of E d (tp @ u # rest) (u # us) X b m"
  shows "low_of E d rest us X b m"
proof -
  note seg = root_segment [OF n g]
  from low obtain w where w: "w \<in> set (tp @ u # rest)" "d w = m" "(b, w) \<in> E\<^sup>*" "m \<le> d b"
    by (auto simp: low_of_def)
  moreover have "d b < d u" using b seg(2,3) by blast
  ultimately have wr: "w \<in> set rest" using seg(1) [of w] by auto
  have im: "innermost d (u # us) x b" if "innermost d us x b" "x \<in> set rest" for x
    using that seg(2) [of x] by (auto simp: innermost_def)
  have blk: "x \<in> set (tp @ u # rest) - set (u # us)" if "x \<in> set rest - set us" for x
    using that seg(2) [of x] by auto
  show ?thesis
    unfolding low_of_def
  proof (intro conjI ballI impI)
    show "m \<le> d b" by fact
    show "\<exists>w \<in> set rest. d w = m \<and> (b, w) \<in> E\<^sup>*" using wr w by blast
    show "m \<le> d y" if "y \<in> X b \<inter> set rest" for y using that low by (simp add: low_of_def)
    show "m \<le> d y"
      if "x \<in> set rest - set us" "innermost d us x b" "y \<in> set rest" "(x, y) \<in> E" for x y
    proof -
      have "x \<in> set rest" "y \<in> set (tp @ u # rest)" using that by auto
      with that blk [of x] im [of x] low show ?thesis unfolding low_of_def by blast
    qed
  qed
qed

lemma root_inv:
  assumes i: "search_inv E D d l (tp @ u # rest) (u # us) X dn t"
    and X: "X u = E `` {u}" and lu: "l u = d u"
  shows "search_inv E D d l rest us X (dn \<union> set (tp @ [u])) t"
proof -
  have n: "numbered D d (tp @ u # rest) dn t" and g: "greys E d (tp @ u # rest) (u # us)"
    and x: "explored E D (tp @ u # rest) (u # us) X" and dn: "E `` dn \<subseteq> dn"
    and low: "\<forall>b \<in> set (u # us). low_of E d (tp @ u # rest) (u # us) X b (l b)"
    using i by (simp_all add: search_inv_def)
  note seg = root_segment [OF n g]
  have "numbered D d rest (dn \<union> set (tp @ [u])) t"
    using n seg(1,2) by (auto simp: numbered_def sorted_wrt_append dest: less_asym)
  moreover have "explored E D rest us X"
    using x seg(2) by (fastforce simp: explored_def)
  moreover have "E `` (dn \<union> set (tp @ [u])) \<subseteq> dn \<union> set (tp @ [u])"
    using root_closed [OF i X lu] dn by blast
  ultimately show ?thesis
    using root_greys [OF n g] root_low [OF n g] low by (simp add: search_inv_def)
qed

section \<open>Every step keeps the invariant\<close>

definition abs_inv :: "graph \<Rightarrow> frame list \<Rightarrow> tarjan \<Rightarrow> (u32 \<Rightarrow> u32 set) \<Rightarrow> bool" where
  "abs_inv g fs t X \<longleftrightarrow>
     search_inv (edges g) (dom (disc t)) (int_at (disc t)) (int_at (low t)) (stk t) (map fst fs) X
       (set (concat (sccs t))) (timer t)"

definition frames_ok :: "graph \<Rightarrow> frame list \<Rightarrow> (u32 \<Rightarrow> u32 set) \<Rightarrow> bool" where
  "frames_ok g fs X \<longleftrightarrow>
     (\<forall>(u, ns, idx) \<in> set fs. neighbors g u = ns \<and> idx \<le> length ns \<and> X u = set (take idx ns))"

definition tarjan_inv :: "graph \<Rightarrow> frame list \<Rightarrow> tarjan \<Rightarrow> (u32 \<Rightarrow> u32 set) \<Rightarrow> bool" where
  "tarjan_inv g fs t X \<longleftrightarrow>
     abs_inv g fs t X \<and> frames_ok g fs X \<and>
     (\<forall>v. bool_at (on_stack t) v \<longleftrightarrow> v \<in> set (stk t)) \<and>
     sccs_so_far g (set (concat (sccs t))) (sccs t) \<and> dom (disc t) \<subseteq> verts g"

lemma int_at_upd: "int_at (m(v \<mapsto> x)) = (int_at m)(v := x)"
  by (auto simp: int_at_def)

lemma bool_at_upd: "bool_at (m(v \<mapsto> x)) = (bool_at m)(v := x)"
  by (rule ext) (simp add: bool_at_def)

lemma grey_facts:
  assumes "abs_inv g ((u, ns, idx) # fs) t X"
  shows "u \<in> set (stk t)" "u \<in> dom (disc t)" "u \<notin> fst ` set fs"
    "a = u \<or> a \<in> fst ` set fs \<Longrightarrow> (a, u) \<in> (edges g)\<^sup>*"
    "int_at (low t) u \<le> int_at (disc t) u" "int_at (disc t) u < timer t"
    "set (stk t) \<subseteq> dom (disc t)"
proof -
  have n: "numbered (dom (disc t)) (int_at (disc t)) (stk t) (set (concat (sccs t))) (timer t)"
    and g: "greys (edges g) (int_at (disc t)) (stk t) (u # map fst fs)"
    and l: "low_of (edges g) (int_at (disc t)) (stk t) (u # map fst fs) X u (int_at (low t) u)"
    using assms by (simp_all add: abs_inv_def search_inv_def)
  show u: "u \<in> set (stk t)" using g by (simp add: greys_def)
  show sub: "set (stk t) \<subseteq> dom (disc t)" using n by (auto simp: numbered_def)
  with u show ud: "u \<in> dom (disc t)" by blast
  show "u \<notin> fst ` set fs" using g by (auto simp: greys_def)
  show "int_at (disc t) u < timer t" using n ud by (auto simp: numbered_def)
  show "int_at (low t) u \<le> int_at (disc t) u" using l by (simp add: low_of_def)
  show "(a, u) \<in> (edges g)\<^sup>*" if "a = u \<or> a \<in> fst ` set fs"
    using that g u by (fastforce simp: greys_def)
qed

lemma frames_ok_Cons:
  "frames_ok g ((u, ns, idx) # fs) X \<longleftrightarrow>
     neighbors g u = ns \<and> idx \<le> length ns \<and> X u = set (take idx ns) \<and> frames_ok g fs X"
  by (auto simp: frames_ok_def)

lemma frames_done: "frames_ok g ((u, ns, length ns) # fs) X \<Longrightarrow> X u = edges g `` {u}"
  unfolding frames_ok_Cons by (simp add: set_eq_iff edges_iff)

lemma frames_ok_upd: "frames_ok g fs X \<Longrightarrow> v \<notin> fst ` set fs \<Longrightarrow> frames_ok g fs (X(v := A))"
proof (induction fs)
  case (Cons f fs)
  then show ?case by (cases f) (auto simp: frames_ok_Cons)
qed (simp add: frames_ok_def)

lemma frames_advance:
  assumes "frames_ok g ((u, ns, idx) # fs) X" and "u \<notin> fst ` set fs" and "idx < length ns"
  shows "frames_ok g ((u, ns, idx + 1) # fs) (X(u := insert (ns ! idx) (X u)))"
  using assms by (auto simp: frames_ok_Cons frames_ok_upd take_Suc_conv_app_nth)

lemma step_discover:
  assumes i: "tarjan_inv g ((u, ns, idx) # fs) t X" and ok: "graph_ok g"
    and idx: "idx < length ns" and v: "disc t (ns ! idx) = None"
  shows "\<exists>Y. tarjan_inv g ((ns ! idx, neighbors g (ns ! idx), 0) # (u, ns, idx + 1) # fs)
    (discover (ns ! idx) t) Y"
proof -
  let ?v = "ns ! idx" let ?Z = "X(?v := {})"
  let ?Y = "?Z(u := insert ?v (?Z u))"
  have a: "abs_inv g ((u, ns, idx) # fs) t X" and f: "frames_ok g ((u, ns, idx) # fs) X"
    using i by (simp_all add: tarjan_inv_def)
  note u = grey_facts [OF a]
  have vD: "?v \<notin> dom (disc t)" using v by auto
  have uv: "u \<noteq> ?v" using u(2) vD by blast
  have e: "(u, ?v) \<in> edges g" using f idx by (auto simp: frames_ok_def edges_iff)
  have "\<forall>b \<in> set (u # map fst fs). (b, ?v) \<in> (edges g)\<^sup>*"
    using u(4) e by (auto intro: rtrancl_into_rtrancl)
  then have s: "search_inv (edges g) (insert ?v (dom (disc t))) ((int_at (disc t))(?v := timer t))
      ((int_at (low t))(?v := timer t)) (?v # stk t) (?v # u # map fst fs) ?Z
      (set (concat (sccs t))) (timer t + 1)"
    using visit_inv [OF _ vD, of "edges g" "int_at (disc t)" "int_at (low t)" "stk t" "u # map fst fs" X] a
    by (simp add: abs_inv_def)
  have "search_inv (edges g) (insert ?v (dom (disc t))) ((int_at (disc t))(?v := timer t))
      ((int_at (low t))(?v := timer t)) (?v # stk t) (?v # u # map fst fs) ?Y
      (set (concat (sccs t))) (timer t + 1)"
    by (rule explore_inv [OF s]) (use u(5,6) uv in auto)
  then have "abs_inv g ((?v, neighbors g ?v, 0) # (u, ns, idx + 1) # fs) (discover ?v t) ?Y"
    by (simp add: abs_inv_def discover_def int_at_upd)
  moreover have "fst ` set fs \<subseteq> dom (disc t)"
    using a u(7) by (auto simp: abs_inv_def search_inv_def greys_def)
  with vD have vf: "?v \<notin> fst ` set fs" by blast
  have "frames_ok g ((u, ns, idx) # fs) ?Z"
    using f uv vf by (auto simp: frames_ok_Cons frames_ok_upd)
  from frames_advance [OF this u(3) idx] uv
  have "frames_ok g ((?v, neighbors g ?v, 0) # (u, ns, idx + 1) # fs) ?Y"
    by (auto simp: frames_ok_Cons)
  moreover have "?v \<in> verts g" using edges_verts [OF ok e] by simp
  ultimately have "tarjan_inv g ((?v, neighbors g ?v, 0) # (u, ns, idx + 1) # fs) (discover ?v t) ?Y"
    using i by (auto simp: tarjan_inv_def discover_def bool_at_upd)
  then show ?thesis by blast
qed

lemma abs_advance:
  assumes "abs_inv g ((u, ns, idx) # fs) t X" and "v \<in> dom (disc t)"
    and "v \<in> set (stk t) \<Longrightarrow> int_at (low t) u \<le> int_at (disc t) v"
  shows "abs_inv g ((u, ns, idx') # fs) t (X(u := insert v (X u)))"
  using assms unfolding abs_inv_def by (auto intro: explore_inv)

lemma step_seen:
  assumes i: "tarjan_inv g ((u, ns, idx) # fs) t X"
    and idx: "idx < length ns" and v: "disc t (ns ! idx) \<noteq> None"
  shows "\<exists>Y. tarjan_inv g ((u, ns, idx + 1) # fs)
    (if bool_at (on_stack t) (ns ! idx) then lower u (int_at (disc t) (ns ! idx)) t else t) Y"
proof -
  let ?v = "ns ! idx" let ?Y = "X(u := insert ?v (X u))"
  let ?t = "if bool_at (on_stack t) ?v then lower u (int_at (disc t) ?v) t else t"
  have a: "abs_inv g ((u, ns, idx) # fs) t X" and f: "frames_ok g ((u, ns, idx) # fs) X"
    and on: "bool_at (on_stack t) ?v \<longleftrightarrow> ?v \<in> set (stk t)"
    using i by (simp_all add: tarjan_inv_def)
  note u = grey_facts [OF a]
  have e: "(u, ?v) \<in> edges g" using f idx by (auto simp: frames_ok_def edges_iff)
  have "abs_inv g ((u, ns, idx) # fs) ?t X"
  proof (cases "?v \<in> set (stk t)")
    case True
    with lower_inv [of "edges g" _ _ "int_at (low t)" "stk t" _ X _ _ ?v u] a on r_into_rtrancl [OF e]
    show ?thesis by (auto simp: abs_inv_def lower_def int_at_upd)
  qed (use a on in simp)
  moreover have "?v \<in> dom (disc ?t)" using v by (auto simp: lower_def)
  moreover have "?v \<in> set (stk ?t) \<Longrightarrow> int_at (low ?t) u \<le> int_at (disc ?t) ?v"
    using on by (auto simp: lower_def int_at_upd)
  ultimately have "abs_inv g ((u, ns, idx + 1) # fs) ?t ?Y" by (rule abs_advance)
  with frames_advance [OF f u(3) idx] i have "tarjan_inv g ((u, ns, idx + 1) # fs) ?t ?Y"
    by (simp add: tarjan_inv_def lower_def)
  then show ?thesis by blast
qed

lemma pop_component_split:
  assumes "u \<notin> set tp"
  shows "\<exists>os'. pop_component u (tp @ u # rest) os c = Inr (rest, os', c @ tp @ [u]) \<and>
    (\<forall>v. bool_at os' v \<longleftrightarrow> v \<notin> set (tp @ [u]) \<and> bool_at os v)"
  using assms
proof (induction tp arbitrary: os c)
  case Nil
  show ?case by (auto simp: bool_at_upd)
next
  case (Cons w tp)
  then obtain os' where
    "pop_component u (tp @ u # rest) (os(w \<mapsto> False)) (c @ [w]) = Inr (rest, os', (c @ [w]) @ tp @ [u])"
    "\<forall>v. bool_at os' v \<longleftrightarrow> v \<notin> set (tp @ [u]) \<and> bool_at (os(w \<mapsto> False)) v"
    by fastforce
  with Cons.prems show ?case by (auto simp: bool_at_upd)
qed

text \<open>Closing the component of a root.\<close>

lemma close_root:
  assumes i: "tarjan_inv g ((u, ns, length ns) # fs) t X" and lu: "int_at (low t) u = int_at (disc t) u"
  shows "\<exists>t'. close_component u t = Inr t' \<and> tarjan_inv g fs t' X \<and> low t' = low t \<and> disc t' = disc t"
proof -
  have a: "abs_inv g ((u, ns, length ns) # fs) t X" and f: "frames_ok g ((u, ns, length ns) # fs) X"
    using i by (simp_all add: tarjan_inv_def)
  obtain tp rest where split: "stk t = tp @ u # rest" "u \<notin> set tp"
    using split_list_first [OF grey_facts(1) [OF a]] by blast
  obtain os where pop: "pop_component u (stk t) (on_stack t) [] = Inr (rest, os, tp @ [u])"
    and os: "\<forall>v. bool_at os v \<longleftrightarrow> v \<notin> set (tp @ [u]) \<and> bool_at (on_stack t) v"
    using pop_component_split [OF split(2), of rest "on_stack t" "[]"] split(1) by auto
  let ?t = "t\<lparr>stk := rest, on_stack := os, sccs := sccs t @ [tp @ [u]]\<rparr>"
  have close: "close_component u t = Inr ?t" using pop by (simp add: close_component_def)
  have s: "search_inv (edges g) (dom (disc t)) (int_at (disc t)) (int_at (low t)) (tp @ u # rest)
      (u # map fst fs) X (set (concat (sccs t))) (timer t)"
    using a split(1) by (simp add: abs_inv_def)
  note X = frames_done [OF f]
  have comp: "set (tp @ [u]) = mutual g `` {u}"
    using root_component [OF s X lu] by (auto simp: mutual_def)
  have n: "numbered (dom (disc t)) (int_at (disc t)) (tp @ u # rest) (set (concat (sccs t))) (timer t)"
    using s by (simp add: search_inv_def)
  have "x \<notin> set tp" if "x \<in> set (u # rest)" for x
    using that n by (auto simp: numbered_def sorted_wrt_append)
  moreover have "distinct (tp @ u # rest)"
  proof -
    have d: "sorted_wrt (\<lambda>x y. int_at (disc t) y < int_at (disc t) x) ws \<Longrightarrow> distinct ws" for ws
      by (induction ws) auto
    show ?thesis using n unfolding numbered_def by (intro d) simp
  qed
  ultimately have "distinct (tp @ [u])" "\<forall>v. v \<in> set rest \<longleftrightarrow> v \<notin> set (tp @ [u]) \<and> v \<in> set (stk t)"
    using split(1) by auto
  moreover from this have "sccs_so_far g (set (concat (sccs t)) \<union> set (tp @ [u])) (sccs t @ [tp @ [u]])"
    using i n by (intro sccs_so_far_snoc [OF _ comp]) (auto simp: tarjan_inv_def numbered_def)
  moreover have "abs_inv g fs ?t X"
    using root_inv [OF s X lu] by (simp add: abs_inv_def)
  ultimately have "tarjan_inv g fs ?t X"
    using i os by (simp add: tarjan_inv_def frames_ok_Cons)
  with close show ?thesis by simp
qed

lemma lower_same: "int_at (low t) p \<le> n \<Longrightarrow> int_at (low (lower p n t)) = int_at (low t)"
  by (simp add: lower_def int_at_upd min_def)

lemma tarjan_inv_lower_same:
  "int_at (low t) p \<le> n \<Longrightarrow> tarjan_inv g fs (lower p n t) X \<longleftrightarrow> tarjan_inv g fs t X"
  using lower_same [of t p n] by (simp add: tarjan_inv_def abs_inv_def) (simp add: lower_def)

lemma step_root:
  assumes i: "tarjan_inv g ((u, ns, length ns) # fs) t X" and lu: "int_at (low t) u = int_at (disc t) u"
  shows "\<exists>t'. close_component u t = Inr t' \<and> tarjan_inv g fs (return_to fs (int_at (low t') u) t') X"
proof -
  obtain t' where t': "close_component u t = Inr t'" "tarjan_inv g fs t' X" "low t' = low t" "disc t' = disc t"
    using close_root [OF i lu] by blast
  have "tarjan_inv g fs (return_to fs (int_at (low t') u) t') X"
  proof (cases fs)
    case Nil
    with t' show ?thesis by (simp add: return_to_def)
  next
    case (Cons f fs')
    obtain p ms j where f: "f = (p, ms, j)" by (cases f)
    have "int_at (low t') p \<le> int_at (disc t') p"
      using t'(2) Cons f grey_facts(5) by (fastforce simp: tarjan_inv_def)
    moreover have "int_at (disc t) p < int_at (disc t) u"
      using i Cons f by (auto simp: tarjan_inv_def abs_inv_def search_inv_def greys_def)
    ultimately have "int_at (low t') p \<le> int_at (low t') u" using t'(3,4) lu by simp
    with t'(2) Cons f tarjan_inv_lower_same show ?thesis by (simp add: return_to_def)
  qed
  with t'(1) show ?thesis by blast
qed

lemma step_retire:
  assumes i: "tarjan_inv g ((u, ns, length ns) # fs) t X" and lu: "int_at (low t) u \<noteq> int_at (disc t) u"
  shows "tarjan_inv g fs (return_to fs (int_at (low t) u) t) X"
proof -
  have a: "abs_inv g ((u, ns, length ns) # fs) t X" and f: "frames_ok g ((u, ns, length ns) # fs) X"
    using i by (simp_all add: tarjan_inv_def)
  note u = grey_facts [OF a]
  note X = frames_done [OF f]
  let ?d = "int_at (disc t)" let ?l = "int_at (low t)"
  have "fs \<noteq> []"
    using a lu last_grey_is_root [of "edges g" "dom (disc t)" ?d ?l "stk t" u X] by (auto simp: abs_inv_def)
  then obtain p ms j fs' where fs: "fs = (p, ms, j) # fs'" by (metis list.exhaust surj_pair)
  have s: "search_inv (edges g) (dom (disc t)) ?d ?l (stk t) (u # p # map fst fs') X
      (set (concat (sccs t))) (timer t)"
    using a fs by (simp add: abs_inv_def)
  then obtain w where w: "w \<in> set (stk t)" "?d w = ?l u" "(u, w) \<in> (edges g)\<^sup>*"
    by (auto simp: search_inv_def low_of_def)
  have "(p, w) \<in> (edges g)\<^sup>*" using u(4) [of p] w(3) fs by (auto intro: rtrancl_trans)
  from lower_inv [OF s w(1) this] w(2)
  have s': "search_inv (edges g) (dom (disc t)) ?d (?l(p := min (?l p) (?l u))) (stk t)
      (u # p # map fst fs') X (set (concat (sccs t))) (timer t)" by simp
  have "p \<noteq> u" using u(3) fs by auto
  then have "search_inv (edges g) (dom (disc t)) ?d (?l(p := min (?l p) (?l u))) (stk t)
      (p # map fst fs') X (set (concat (sccs t))) (timer t)"
    using retire_inv [OF s' X] u(5) lu by simp
  then have "abs_inv g fs (lower p (?l u) t) X"
    using fs by (simp add: abs_inv_def lower_def int_at_upd)
  with i fs show ?thesis
    by (simp add: tarjan_inv_def return_to_def frames_ok_Cons) (simp add: lower_def)
qed

lemma tarjan_step_inv:
  assumes i: "tarjan_inv g (f # fs) t X" and ok: "graph_ok g"
  shows "\<exists>fs' t' Y. tarjan_step g f fs t = Inr (fs', t') \<and> tarjan_inv g fs' t' Y"
proof -
  obtain u ns idx where f: "f = (u, ns, idx)" by (cases f)
  have le: "idx \<le> length ns" using i f by (simp add: tarjan_inv_def frames_ok_Cons)
  consider (new) "idx < length ns" "disc t (ns ! idx) = None"
    | (seen) "idx < length ns" "disc t (ns ! idx) \<noteq> None"
    | (root) "idx = length ns" "int_at (low t) u = int_at (disc t) u"
    | (retire) "idx = length ns" "int_at (low t) u \<noteq> int_at (disc t) u"
    using le by linarith
  then show ?thesis
  proof cases
    case new
    with step_discover [OF i [unfolded f] ok new] f show ?thesis by (simp add: tarjan_step_def Let_def)
  next
    case seen
    with step_seen [OF i [unfolded f] seen] f show ?thesis
      by (cases "bool_at (on_stack t) (ns ! idx)") (auto simp: tarjan_step_def Let_def)
  next
    case root
    with step_root [of g u ns fs t X] i f show ?thesis by (auto simp: tarjan_step_def)
  next
    case retire
    with step_retire [of g u ns fs t X] i f show ?thesis by (auto simp: tarjan_step_def)
  qed
qed

section \<open>Tarjan's algorithm is correct\<close>

lemma tarjan_step_dom:
  assumes "tarjan_step g f fs t = Inr (fs', t')"
  shows "dom (disc t) \<subseteq> dom (disc t')"
  using assms
  by (cases f) (auto simp: tarjan_step_def Let_def discover_def lower_def bind_res_eq_Inr return_to_disc
      dest: close_component_disc split: if_splits)

lemma tarjan_loop_inv:
  assumes "graph_ok g"
  shows "tarjan_inv g fs t X \<Longrightarrow>
    \<exists>t' Y. tarjan_loop g fs t = Inr t' \<and> tarjan_inv g [] t' Y \<and> dom (disc t) \<subseteq> dom (disc t')"
  using assms
proof (induction g fs t arbitrary: X rule: tarjan_loop.induct)
  case (1 g t)
  then show ?case by auto
next
  case (2 g f fs t)
  from tarjan_step_inv [OF 2(2,3)] obtain fs' t' Y where
    st: "tarjan_step g f fs t = Inr (fs', t')" "tarjan_inv g fs' t' Y" by blast
  from 2(1) [OF st(1) refl st(2) 2(3)] st(1) tarjan_step_dom [OF st(1)] show ?case by fastforce
qed

lemma tarjan_inv_idle:
  "tarjan_inv g [] t X \<Longrightarrow> stk t = [] \<and> sccs_so_far g (dom (disc t)) (sccs t)"
proof -
  assume i: "tarjan_inv g [] t X"
  then have "stk t = []"
    by (auto simp: tarjan_inv_def abs_inv_def search_inv_def greys_def)
  moreover from this i have "set (concat (sccs t)) = dom (disc t)"
    unfolding tarjan_inv_def abs_inv_def search_inv_def numbered_def by simp
  moreover have "sccs_so_far g (set (concat (sccs t))) (sccs t)" using i unfolding tarjan_inv_def by blast
  ultimately show ?thesis by simp
qed

lemma tarjan_from_inv:
  assumes "graph_ok g" and i: "tarjan_inv g [] t X" and v: "v \<in> verts g"
  shows "\<exists>t' Y. tarjan_from g v t = Inr t' \<and> tarjan_inv g [] t' Y \<and> insert v (dom (disc t)) \<subseteq> dom (disc t')"
proof (cases "disc t v")
  case None
  have idle: "stk t = []" using tarjan_inv_idle [OF i] by simp
  have vD: "v \<notin> dom (disc t)" using None by auto
  have "search_inv (edges g) (insert v (dom (disc t))) ((int_at (disc t))(v := timer t))
      ((int_at (low t))(v := timer t)) (v # stk t) [v] (X(v := {})) (set (concat (sccs t))) (timer t + 1)"
    using visit_inv [OF _ vD, of "edges g" "int_at (disc t)" "int_at (low t)" "stk t" "[]" X] i
    by (simp add: tarjan_inv_def abs_inv_def)
  then have "abs_inv g [(v, neighbors g v, 0)] (discover v t) (X(v := {}))"
    by (simp add: abs_inv_def discover_def int_at_upd)
  then have "tarjan_inv g [(v, neighbors g v, 0)] (discover v t) (X(v := {}))"
    using i v by (auto simp: tarjan_inv_def frames_ok_Cons discover_def bool_at_upd) (simp add: frames_ok_def)
  from tarjan_loop_inv [OF assms(1) this] None show ?thesis
    by (auto simp: tarjan_from_def discover_def)
next
  case (Some d)
  with i show ?thesis by (auto simp: tarjan_from_def)
qed

lemma tarjan_all:
  assumes "graph_ok g"
  shows "tarjan_inv g [] t X \<Longrightarrow> set vs \<subseteq> verts g \<Longrightarrow>
    \<exists>t' Y. fold_res (tarjan_from g) vs t = Inr t' \<and> tarjan_inv g [] t' Y \<and>
      dom (disc t) \<union> set vs \<subseteq> dom (disc t')"
proof (induction vs arbitrary: t X)
  case Nil
  then show ?case by auto
next
  case (Cons v vs)
  from tarjan_from_inv [OF assms Cons.prems(1), of v] Cons.prems(2) obtain t' Y where
    t': "tarjan_from g v t = Inr t'" "tarjan_inv g [] t' Y" "insert v (dom (disc t)) \<subseteq> dom (disc t')" by auto
  from Cons.IH [OF t'(2)] Cons.prems(2) obtain t'' Z where
    "fold_res (tarjan_from g) vs t' = Inr t''" "tarjan_inv g [] t'' Z"
    "dom (disc t') \<union> set vs \<subseteq> dom (disc t'')" by auto
  with t' show ?case by auto
qed

lemma tarjan_search:
  assumes "graph_ok g"
  obtains t Y where "fold_res (tarjan_from g) (vertices g) tarjan_new = Inr t" "dom (disc t) = verts g"
    "tarjan_inv g [] t Y"
proof -
  have "tarjan_inv g [] tarjan_new (\<lambda>_. {})"
    by (simp add: tarjan_inv_def abs_inv_def search_inv_def numbered_def greys_def explored_def
        frames_ok_def tarjan_new_def bool_at_def sccs_so_far_Nil)
  from tarjan_all [OF assms this, of "vertices g"] obtain t Y where
    t: "fold_res (tarjan_from g) (vertices g) tarjan_new = Inr t" "tarjan_inv g [] t Y"
      "verts g \<subseteq> dom (disc t)"
    by (auto simp: set_vertices)
  moreover have "dom (disc t) \<subseteq> verts g" using t(2) by (simp add: tarjan_inv_def)
  ultimately show thesis using that by blast
qed

lemma tarjan_ok:
  assumes "graph_ok g"
  shows "\<exists>cs. tarjan_sccs g = Inr cs \<and> sccs_of g cs"
proof -
  obtain t Y where t: "fold_res (tarjan_from g) (vertices g) tarjan_new = Inr t" "dom (disc t) = verts g"
    "tarjan_inv g [] t Y" by (rule tarjan_search [OF assms])
  with tarjan_inv_idle [OF t(3)] have "sccs_of g (sccs t)" by (simp add: sccs_so_far_all)
  with t(1) show ?thesis by (simp add: tarjan_sccs_def)
qed

text \<open>The value of the call, which \<open>tarjan_ok\<close> shows always to exist on a graph.\<close>

definition tarjan_find :: "graph \<Rightarrow> u32 list list" where
  "tarjan_find g = (case tarjan_sccs g of Inl _ \<Rightarrow> [] | Inr cs \<Rightarrow> cs)"

interpretation tarjan: scc_detector tarjan_find
  by unfold_locales (use tarjan_ok in \<open>fastforce simp: tarjan_find_def\<close>)

text \<open>C10: Tarjan's detector never pops an empty stack, and returns the strongly connected
  components: every vertex is in exactly one of them, none is empty, and two vertices share one
  exactly when each reaches the other.\<close>

theorem tarjan_components:
  assumes "graph_ok g"
  shows "\<exists>cs. tarjan_sccs g = Inr cs \<and> distinct (concat cs) \<and> set (concat cs) = verts g \<and>
    [] \<notin> set cs \<and>
    (\<forall>u \<in> verts g. \<forall>v. (\<exists>c \<in> set cs. u \<in> set c \<and> v \<in> set c) \<longleftrightarrow>
       (u, v) \<in> (edges g)\<^sup>* \<and> (v, u) \<in> (edges g)\<^sup>*)"
proof -
  obtain cs where cs: "tarjan_sccs g = Inr cs" "sccs_of g cs" using tarjan_ok [OF assms] by blast
  have "tarjan_find g = cs" using cs(1) by (simp add: tarjan_find_def)
  then have "\<forall>u \<in> verts g. \<forall>v. (\<exists>c \<in> set cs. u \<in> set c \<and> v \<in> set c) \<longleftrightarrow>
       (u, v) \<in> (edges g)\<^sup>* \<and> (v, u) \<in> (edges g)\<^sup>*"
    using tarjan.same_component [OF assms] by (simp add: mutual_def)
  with cs show ?thesis unfolding sccs_of_def by blast
qed

theorem tarjan_components_witness:
  "(1, 3) \<in> (edges (graph_run [AddEdge 1 2, AddEdge 2 3, AddEdge 3 1, AddEdge 3 4]))\<^sup>*"
proof -
  let ?g = "graph_run [AddEdge 1 2, AddEdge 2 3, AddEdge 3 1, AddEdge 3 4]"
  have k: "tarjan_sccs ?g = Inr [[4], [3, 2, 1]]" by code_simp
  obtain cs where cs: "tarjan_sccs ?g = Inr cs"
    "\<forall>u \<in> verts ?g. \<forall>v. (\<exists>c \<in> set cs. u \<in> set c \<and> v \<in> set c) \<longleftrightarrow>
       (u, v) \<in> (edges ?g)\<^sup>* \<and> (v, u) \<in> (edges ?g)\<^sup>*"
    using tarjan_components [OF graph_run_ok, of "[AddEdge 1 2, AddEdge 2 3, AddEdge 3 1, AddEdge 3 4]"]
    by blast
  have "cs = [[4], [3, 2, 1]]" using cs(1) k by simp
  then have "\<exists>c \<in> set cs. 1 \<in> set c \<and> 3 \<in> set c" by simp
  moreover have "1 \<in> verts ?g" by (simp add: graph_run_def graph_simps)
  ultimately show ?thesis using cs(2) by blast
qed

end
