(* ===== verification/Registry.thy ===== *)
theory Registry
  imports CountMinSketch HashMapExact HeavyHitters LPMTrie Reachability Kosaraju Tarjan
begin

text \<open>
  The factory registry (\<open>libdsa/include/dsa/registry.h\<close>, \<open>libdsa/src/registry.cpp\<close>) through which the
  pipeline picks its algorithms by name, and the objects it hands out: a pointer to the interface
  \<open>Estimator\<close> is one of the three classes, a virtual call the case distinction over them. The
  locales of the interfaces are interpreted here on those dispatching operations.
\<close>

section \<open>The registry\<close>

text \<open>A factory of an \<open>Interface\<close> makes an object or throws.\<close>

type_synonym 'a registry = "(string \<times> 'a res) list"

definition register_algorithm :: "'a registry \<Rightarrow> string \<Rightarrow> 'a res \<Rightarrow> 'a registry" where
  "register_algorithm reg name factory = AList.update name factory reg"

definition create :: "'a registry \<Rightarrow> string \<Rightarrow> 'a res" where
  "create reg name =
     (case map_of reg name of
        None \<Rightarrow> Inl (RuntimeError (''Unknown algorithm: '' @ name))
      | Some factory \<Rightarrow> factory)"

definition available :: "'a registry \<Rightarrow> string list" where
  "available reg = map fst reg"

definition has_algorithm :: "'a registry \<Rightarrow> string \<Rightarrow> bool" where
  "has_algorithm reg name \<longleftrightarrow> map_of reg name \<noteq> None"

lemma create_register:
  "create (register_algorithm reg name f) n = (if n = name then f else create reg n)"
  by (simp add: create_def register_algorithm_def AList.update_conv')

lemma create_Nil: "create [] n = Inl (RuntimeError (''Unknown algorithm: '' @ n))"
  by (simp add: create_def)

lemma has_iff_available: "has_algorithm reg n \<longleftrightarrow> n \<in> set (available reg)"
  by (simp add: has_algorithm_def available_def map_of_eq_None_iff)

section \<open>Objects behind the interfaces\<close>

datatype any_estimator = AnyCMS cms | AnyHashMap hm | AnyHeavy mg

text \<open>\<open>szh\<close>, \<open>szm\<close>: the sizes of the two objects; \<open>cap\<close>: the capacity of a stored key.\<close>

definition any_ops :: "u64 \<Rightarrow> u64 \<Rightarrow> (bytes \<Rightarrow> u64) \<Rightarrow> any_estimator estimator_ops" where
  "any_ops szh szm cap =
     \<lparr>op_record = (\<lambda>e k. case e of
         AnyCMS c \<Rightarrow> map_sum id AnyCMS (op_record cms_ops c k)
       | AnyHashMap h \<Rightarrow> map_sum id AnyHashMap (op_record (hm_ops szh cap) h k)
       | AnyHeavy m \<Rightarrow> map_sum id AnyHeavy (op_record (mg_ops szm cap) m k)),
      op_estimate = (\<lambda>e k. case e of
         AnyCMS c \<Rightarrow> op_estimate cms_ops c k
       | AnyHashMap h \<Rightarrow> op_estimate (hm_ops szh cap) h k
       | AnyHeavy m \<Rightarrow> op_estimate (mg_ops szm cap) m k),
      op_reset = (\<lambda>e. case e of
         AnyCMS c \<Rightarrow> AnyCMS (op_reset cms_ops c)
       | AnyHashMap h \<Rightarrow> AnyHashMap (op_reset (hm_ops szh cap) h)
       | AnyHeavy m \<Rightarrow> AnyHeavy (op_reset (mg_ops szm cap) m)),
      op_memory_usage = (\<lambda>e. case e of
         AnyCMS c \<Rightarrow> op_memory_usage cms_ops c
       | AnyHashMap h \<Rightarrow> op_memory_usage (hm_ops szh cap) h
       | AnyHeavy m \<Rightarrow> op_memory_usage (mg_ops szm cap) m),
      op_name = (\<lambda>e. case e of
         AnyCMS c \<Rightarrow> op_name cms_ops c
       | AnyHashMap h \<Rightarrow> op_name (hm_ops szh cap) h
       | AnyHeavy m \<Rightarrow> op_name (mg_ops szm cap) m)\<rparr>"

datatype scc_algorithm = UseTarjan | UseKosaraju

fun find_sccs :: "scc_algorithm \<Rightarrow> graph \<Rightarrow> u32 list list res" where
  "find_sccs UseTarjan g = tarjan_sccs g"
| "find_sccs UseKosaraju g = Inr (kosaraju g)"

fun scc_name :: "scc_algorithm \<Rightarrow> string" where
  "scc_name UseTarjan = ''tarjan''"
| "scc_name UseKosaraju = ''kosaraju''"

datatype reach_algorithm = UseBFS | UseDijkstra

fun reachable_within :: "reach_algorithm \<Rightarrow> graph \<Rightarrow> u32 \<Rightarrow> int \<Rightarrow> distances" where
  "reachable_within UseBFS g s k = bfs_reachable_within g s k"
| "reachable_within UseDijkstra g s k = dijkstra_reachable_within g s k"

fun reach_name :: "reach_algorithm \<Rightarrow> string" where
  "reach_name UseBFS = ''bfs''"
| "reach_name UseDijkstra = ''dijkstra''"

section \<open>\<open>register_all_algorithms\<close>\<close>

definition estimators :: "any_estimator registry" where
  "estimators =
     (let r = register_algorithm [] ''count_min_sketch'' (Inr (AnyCMS (cms_new 2048 5)));
          r = register_algorithm r ''hash_map_exact'' (Inr (AnyHashMap hm_new))
      in register_algorithm r ''heavy_hitters'' (map_sum id AnyHeavy (mg_new 64)))"

definition detectors :: "scc_algorithm registry" where
  "detectors =
     register_algorithm (register_algorithm [] ''tarjan'' (Inr UseTarjan)) ''kosaraju'' (Inr UseKosaraju)"

definition analysers :: "reach_algorithm registry" where
  "analysers =
     register_algorithm (register_algorithm [] ''bfs'' (Inr UseBFS)) ''dijkstra'' (Inr UseDijkstra)"

definition classifiers :: "lpm registry" where
  "classifiers = register_algorithm [] ''lpm_trie'' (Inr lpm_new)"

section \<open>The contracts on the dispatching operations\<close>

fun any_inv :: "any_estimator \<Rightarrow> bytes list \<Rightarrow> bool" where
  "any_inv (AnyCMS c) xs = cms_inv c xs"
| "any_inv (AnyHashMap h) xs = hm_inv h xs"
| "any_inv (AnyHeavy m) xs = mg_inv m xs"

fun any_over :: "any_estimator \<Rightarrow> bytes list \<Rightarrow> bool" where
  "any_over (AnyHeavy m) xs = False"
| "any_over e xs = any_inv e xs"

fun any_under :: "any_estimator \<Rightarrow> bytes list \<Rightarrow> bool" where
  "any_under (AnyCMS c) xs = False"
| "any_under e xs = any_inv e xs"

lemma any_record:
  "any_inv e xs \<Longrightarrow> \<exists>e'. op_record (any_ops szh szm cap) e k = Inr e' \<and> any_inv e' (xs @ [k]) \<and>
     (any_over e xs \<longrightarrow> any_over e' (xs @ [k])) \<and> (any_under e xs \<longrightarrow> any_under e' (xs @ [k]))"
proof (cases e)
  case (AnyCMS c)
  moreover assume "any_inv e xs"
  ultimately obtain c' where "op_record cms_ops c k = Inr c'" "cms_inv c' (xs @ [k])"
    using cms.record_ok [of c xs k] by auto
  with AnyCMS show ?thesis by (simp add: any_ops_def)
next
  case (AnyHashMap h)
  moreover assume "any_inv e xs"
  ultimately obtain h' where "op_record (hm_ops szh cap) h k = Inr h'" "hm_inv h' (xs @ [k])"
    using hm.record_ok [of h xs szh cap k] by auto
  with AnyHashMap show ?thesis by (simp add: any_ops_def)
next
  case (AnyHeavy m)
  moreover assume "any_inv e xs"
  ultimately obtain m' where "op_record (mg_ops szm cap) m k = Inr m'" "mg_inv m' (xs @ [k])"
    using mg.record_ok [of m xs szm cap k] by auto
  with AnyHeavy show ?thesis by (simp add: any_ops_def)
qed

interpretation any: estimator "any_ops szh szm cap" any_inv for szh szm cap
proof unfold_locales
  fix e xs k
  assume i: "any_inv e xs"
  show "\<exists>e'. op_record (any_ops szh szm cap) e k = Inr e' \<and> any_inv e' (xs @ [k])"
    using any_record [OF i] by blast
  show "\<exists>n. op_estimate (any_ops szh szm cap) e k = Inr n"
    using i cms.estimate_ok [of _ xs k] hm.estimate_ok [of _ xs _ cap k] mg.estimate_ok [of _ xs _ cap k]
    by (cases e) (auto simp: any_ops_def)
  show "any_inv (op_reset (any_ops szh szm cap) e) []"
    using i cms.reset_ok [of _ xs] hm.reset_ok [of _ xs] mg.reset_ok [of _ xs]
    by (cases e) (auto simp: any_ops_def)
qed

lemma any_over_inv: "any_over e xs \<Longrightarrow> any_inv e xs"
  by (cases e) auto

lemma any_under_inv: "any_under e xs \<Longrightarrow> any_inv e xs"
  by (cases e) auto

interpretation any_over: over_estimator "any_ops szh szm cap" any_over for szh szm cap
proof unfold_locales
  fix e xs k n
  assume o: "any_over e xs"
  show "\<exists>e'. op_record (any_ops szh szm cap) e k = Inr e' \<and> any_over e' (xs @ [k])"
    using any_record [OF any_over_inv [OF o]] o by blast
  show "\<exists>n. op_estimate (any_ops szh szm cap) e k = Inr n"
    by (rule any.estimate_ok [OF any_over_inv [OF o]])
  show "any_over (op_reset (any_ops szh szm cap) e) []"
    using any.reset_ok [OF any_over_inv [OF o], of szh szm cap] o by (cases e) (auto simp: any_ops_def)
  show "count_list xs k \<le> unat n"
    if "length xs < 2 ^ 64" "op_estimate (any_ops szh szm cap) e k = Inr n"
    using o that cms.over [of _ xs k n] hm.over [of _ xs szh cap k n]
    by (cases e) (auto simp: any_ops_def)
qed

interpretation any_under: under_estimator "any_ops szh szm cap" any_under for szh szm cap
proof unfold_locales
  fix e xs k n
  assume u: "any_under e xs"
  show "\<exists>e'. op_record (any_ops szh szm cap) e k = Inr e' \<and> any_under e' (xs @ [k])"
    using any_record [OF any_under_inv [OF u]] u by blast
  show "\<exists>n. op_estimate (any_ops szh szm cap) e k = Inr n"
    by (rule any.estimate_ok [OF any_under_inv [OF u]])
  show "any_under (op_reset (any_ops szh szm cap) e) []"
    using any.reset_ok [OF any_under_inv [OF u], of szh szm cap] u by (cases e) (auto simp: any_ops_def)
  show "unat n \<le> count_list xs k"
    if "length xs < 2 ^ 64" "op_estimate (any_ops szh szm cap) e k = Inr n"
    using u that hm.under [of _ xs szh cap k n] mg.under [of _ xs szm cap k n]
    by (cases e) (auto simp: any_ops_def)
qed

interpretation sketch_and_heavy: bracket cms_ops cms_inv "mg_ops sz cap" mg_inv for sz cap
  by unfold_locales

interpretation tarjan_kosaraju: two_detectors tarjan_find kosaraju
  by unfold_locales

text \<open>Whichever detector or analyser was picked.\<close>

definition found_sccs :: "scc_algorithm \<Rightarrow> graph \<Rightarrow> u32 list list" where
  "found_sccs a g = (case find_sccs a g of Inl _ \<Rightarrow> [] | Inr cs \<Rightarrow> cs)"

lemma find_sccs_ok:
  assumes "graph_ok g"
  shows "find_sccs a g = Inr (found_sccs a g)" and "sccs_of g (found_sccs a g)"
  using tarjan_ok [OF assms] kosaraju_ok [OF assms] by (cases a; auto simp: found_sccs_def)+

interpretation chosen: scc_detector "found_sccs a" for a
  by unfold_locales (rule find_sccs_ok)

interpretation chosen_reach: reachability "reachable_within a" for a
  by unfold_locales
    (cases a; simp add: bfs.reach_settles dij.reach_settles bfs.reach_distinct dij.reach_distinct)+

lemma estimators_inv:
  assumes "create estimators name = Inr e"
  shows "any_inv e []"
proof -
  obtain m where m: "mg_new 64 = Inr m" by (simp add: mg_new_def)
  consider "e = AnyCMS (cms_new 2048 5)" | "e = AnyHashMap hm_new" | "e = AnyHeavy m"
    using assms m by (auto simp: estimators_def create_register Let_def create_Nil split: if_splits)
  then show ?thesis using cms_new_inv [of 2048 5] hm_inv_new mg_new_inv [OF m] by cases simp_all
qed

section \<open>Properties\<close>

text \<open>The names a configuration may use are exactly the registered ones; any other name, of an
  estimator, a detector, an analyser or a classifier, raises \<open>Unknown algorithm\<close>.\<close>

theorem registry_accepts:
  "(\<exists>e. create estimators name = Inr e) = (name \<in> {''count_min_sketch'', ''hash_map_exact'', ''heavy_hitters''}) \<and>
   (\<exists>d. create detectors name = Inr d) = (name \<in> {''tarjan'', ''kosaraju''}) \<and>
   (\<exists>a. create analysers name = Inr a) = (name \<in> {''bfs'', ''dijkstra''}) \<and>
   (\<exists>c. create classifiers name = Inr c) = (name = ''lpm_trie'')"
proof -
  obtain m where m: "mg_new 64 = Inr m" by (simp add: mg_new_def)
  have "(\<exists>e. create estimators name = Inr e) =
      (name \<in> {''count_min_sketch'', ''hash_map_exact'', ''heavy_hitters''})"
    unfolding estimators_def Let_def create_register create_Nil m
    by (cases "name = ''heavy_hitters''"; cases "name = ''hash_map_exact''";
        cases "name = ''count_min_sketch''"; simp)
  moreover have "(\<exists>d. create detectors name = Inr d) = (name \<in> {''tarjan'', ''kosaraju''})"
    unfolding detectors_def create_register create_Nil
    by (cases "name = ''kosaraju''"; cases "name = ''tarjan''"; simp)
  moreover have "(\<exists>a. create analysers name = Inr a) = (name \<in> {''bfs'', ''dijkstra''})"
    unfolding analysers_def create_register create_Nil
    by (cases "name = ''dijkstra''"; cases "name = ''bfs''"; simp)
  moreover have "(\<exists>c. create classifiers name = Inr c) = (name = ''lpm_trie'')"
    unfolding classifiers_def create_register create_Nil by simp
  ultimately show ?thesis by blast
qed

text \<open>Whatever estimator the registry hands out, counting any stream of addresses never throws
  or traps, and every address can be estimated afterwards.\<close>

theorem registered_estimators_run:
  assumes "create estimators name = Inr e"
  shows "\<exists>e' n. fold_res (\<lambda>ip e. record_u32 (any_ops szh szm cap) e ip) ips e = Inr e' \<and>
    estimate_u32 (any_ops szh szm cap) e' ip = Inr n"
proof -
  have "any_inv e []" by (rule estimators_inv [OF assms])
  from any.record_u32_all [OF this, of szh szm cap ips]
  obtain e' where e': "fold_res (\<lambda>ip e. record_u32 (any_ops szh szm cap) e ip) ips e = Inr e'"
    "any_inv e' (map bytes_of_u32 ips)" by auto
  with any.estimate_ok [OF e'(2), of szh szm cap "bytes_of_u32 ip"] show ?thesis
    by (simp add: estimate_u32_def)
qed

theorem registered_estimators_run_witness:
  "\<exists>e' n. fold_res (\<lambda>ip e. record_u32 (any_ops 0 0 (\<lambda>_. 0)) e ip) [1, 2, 1] (AnyCMS (cms_new 2048 5)) = Inr e' \<and>
    estimate_u32 (any_ops 0 0 (\<lambda>_. 0)) e' 1 = Inr n"
  by (rule registered_estimators_run [of "''count_min_sketch''"])
    (simp add: estimators_def create_register Let_def)

text \<open>The two detectors are interchangeable: they return the same components, as sets of
  vertices, and equally many, on graphs that differ only in the order of their hash containers.\<close>

theorem detectors_agree:
  assumes "graph_ok g" and "graph_ok g'" and "verts g = verts g'" and "edges g = edges g'"
  shows "\<exists>cs. find_sccs UseTarjan g = Inr cs \<and> set ` set cs = set ` set (kosaraju g') \<and>
    length cs = length (kosaraju g')"
  using tarjan_ok [OF assms(1)] tarjan_kosaraju.agree [OF assms]
  by (auto simp: tarjan_find_def)

theorem detectors_agree_witness:
  "\<exists>cs. find_sccs UseTarjan (graph_run [AddEdge 1 2, AddEdge 2 1]) = Inr cs \<and>
    set ` set cs = set ` set (kosaraju (graph_run [AddEdge 2 1, AddEdge 1 2])) \<and>
    length cs = length (kosaraju (graph_run [AddEdge 2 1, AddEdge 1 2]))"
  by (rule detectors_agree [OF graph_run_ok graph_run_ok]) (auto simp: graph_run_def graph_simps)

end
