(* ===== verification/Detector.thy ===== *)
theory Detector
  imports Registry
begin

text \<open>
  \<open>PortScanDetector\<close> (\<open>tools/portscan-pipeline/detector.cpp\<close>): an estimator counts source addresses in
  tumbling windows, and the first event of a window whose estimate exceeds the threshold raises
  an alert for its source.

  The detector is a client of the interface \<open>Estimator\<close>: it is generic in the operations, its
  lemmas are proved in the contexts of the estimator contracts, and the properties are their
  instances at the three estimators a configuration can name.
\<close>

section \<open>State\<close>

record scan_event =
  se_src_ip :: u32
  se_dst_ip :: u32
  se_dst_port :: u16
  se_timestamp_ns :: u64

record scan_alert =
  sa_algo :: string
  sa_src_ip :: u32
  sa_freq :: u64
  sa_timestamp_ns :: u64
  sa_window_id :: u64
  sa_event_index :: u64

record detector_config =
  dc_algo :: string
  dc_cms_width :: u32
  dc_cms_depth :: u32
  dc_mg_k :: u32
  dc_threshold :: u64
  dc_window_ns :: u64

text \<open>What a snapshot prints: \<open>total_events\<close>, \<open>window_id\<close>, the time, \<open>name()\<close>, \<open>memory_usage()\<close>, the number of
  sources alerted in the window, and the estimator the writer is given.\<close>

type_synonym 'e snapshot = "u64 \<times> u64 \<times> u64 \<times> string \<times> u64 \<times> nat \<times> 'e"

record 'e detector =
  cfg :: detector_config
  estimator :: 'e
  alerted_in_window :: "u32 set"
  alerts :: "scan_alert list"
  total_events :: u64
  window_start_ns :: u64
  window_id :: u64
  peak_memory :: u64
  trace_at :: "u64 set"
  tracing :: bool   \<comment> \<open>both a writer and an output are set\<close>
  trace_out :: "'e snapshot list"

definition make_estimator :: "detector_config \<Rightarrow> any_estimator res" where
  "make_estimator c =
     (if dc_algo c = ''cms'' then Inr (AnyCMS (cms_new (dc_cms_width c) (dc_cms_depth c)))
      else if dc_algo c = ''mg'' then map_sum id AnyHeavy (mg_new (dc_mg_k c))
      else if dc_algo c = ''hashmap'' then Inr (AnyHashMap hm_new)
      else Inl (RuntimeError (''unknown algo: '' @ dc_algo c)))"

definition fresh_detector :: "'e estimator_ops \<Rightarrow> detector_config \<Rightarrow> 'e \<Rightarrow> 'e detector" where
  "fresh_detector ops c e =
     \<lparr>cfg = c, estimator = e, alerted_in_window = {}, alerts = [], total_events = 0,
      window_start_ns = 0, window_id = 0, peak_memory = op_memory_usage ops e,
      trace_at = {}, tracing = False, trace_out = []\<rparr>"

definition new_detector :: "any_estimator estimator_ops \<Rightarrow> detector_config \<Rightarrow> any_estimator detector res" where
  "new_detector ops c = bind_res (make_estimator c) (\<lambda>e. Inr (fresh_detector ops c e))"

section \<open>Operations\<close>

definition maybe_reset_window :: "'e estimator_ops \<Rightarrow> u64 \<Rightarrow> 'e detector \<Rightarrow> 'e detector" where
  "maybe_reset_window ops now_ns d =
     (if window_start_ns d = 0 then d\<lparr>window_start_ns := now_ns\<rparr>
      else if now_ns - window_start_ns d > dc_window_ns (cfg d)
        then d\<lparr>estimator := op_reset ops (estimator d), alerted_in_window := {},
               window_start_ns := now_ns, window_id := window_id d + 1\<rparr>
      else d)"

definition maybe_emit_trace :: "'e estimator_ops \<Rightarrow> scan_event \<Rightarrow> 'e detector \<Rightarrow> 'e detector" where
  "maybe_emit_trace ops evt d =
     (if \<not> tracing d then d
      else if total_events d \<notin> trace_at d then d
      else d\<lparr>trace_out := trace_out d @
        [(total_events d, window_id d, se_timestamp_ns evt, op_name ops (estimator d),
          op_memory_usage ops (estimator d), card (alerted_in_window d), estimator d)]\<rparr>)"

definition raise_alert :: "scan_event \<Rightarrow> u64 \<Rightarrow> 'e detector \<Rightarrow> 'e detector" where
  "raise_alert evt freq d =
     d\<lparr>alerted_in_window := insert (se_src_ip evt) (alerted_in_window d),
       alerts := alerts d @
         [\<lparr>sa_algo = dc_algo (cfg d), sa_src_ip = se_src_ip evt, sa_freq = freq,
           sa_timestamp_ns = se_timestamp_ns evt, sa_window_id = window_id d,
           sa_event_index = total_events d\<rparr>]\<rparr>"

definition process :: "'e estimator_ops \<Rightarrow> scan_event \<Rightarrow> 'e detector \<Rightarrow> ('e detector \<times> bool) res" where
  "process ops evt d0 =
     (let d = maybe_reset_window ops (se_timestamp_ns evt) d0 in
      bind_res (record_u32 ops (estimator d) (se_src_ip evt)) (\<lambda>e.
      bind_res (estimate_u32 ops e (se_src_ip evt)) (\<lambda>freq.
        let d = d\<lparr>estimator := e, total_events := total_events d + 1,
                 peak_memory := max (peak_memory d) (op_memory_usage ops e)\<rparr>;
            emitted = (freq > dc_threshold (cfg d) \<and> se_src_ip evt \<notin> alerted_in_window d);
            d = (if emitted then raise_alert evt freq d else d)
        in Inr (maybe_emit_trace ops evt d, emitted))))"

definition process_all :: "'e estimator_ops \<Rightarrow> scan_event list \<Rightarrow> 'e detector \<Rightarrow> 'e detector res" where
  "process_all ops = fold_res (\<lambda>evt d. bind_res (process ops evt d) (\<lambda>(d, emitted). Inr d))"

section \<open>The events of a window\<close>

text \<open>
  The specification numbers the windows without an estimator: each event is tagged with the number of its
  window, \<open>(start, id)\<close> being the start and the number of the current one.
\<close>

definition next_window :: "u64 \<Rightarrow> u64 \<times> nat \<Rightarrow> u64 \<Rightarrow> u64 \<times> nat" where
  "next_window w = (\<lambda>(start, i) now.
     if start = 0 then (now, i) else if now - start > w then (now, i + 1) else (start, i))"

definition windows_end :: "u64 \<Rightarrow> scan_event list \<Rightarrow> u64 \<times> nat" where
  "windows_end w es = fold (\<lambda>e s. next_window w s (se_timestamp_ns e)) es (0, 0)"

text \<open>The tag of the last event of a history, and the tags of all.\<close>

definition tags :: "u64 \<Rightarrow> scan_event list \<Rightarrow> (nat \<times> u32) list" where
  "tags w es = map (\<lambda>j. (snd (windows_end w (take (Suc j) es)), se_src_ip (es ! j))) [0..<length es]"

lemma windows_end_snoc:
  "windows_end w (es @ [e]) = next_window w (windows_end w es) (se_timestamp_ns e)"
  by (simp add: windows_end_def)

lemma tags_snoc:
  "tags w (es @ [e]) = tags w es @ [(snd (windows_end w (es @ [e])), se_src_ip e)]"
  by (simp add: tags_def nth_append)

lemma length_tags [simp]: "length (tags w es) = length es"
  by (simp add: tags_def)

lemma next_window_ge: "snd s \<le> snd (next_window w s now)" "snd (next_window w s now) \<le> Suc (snd s)"
  by (auto simp: next_window_def split: prod.splits)

lemma tags_le: "(i, s) \<in> set (tags w es) \<Longrightarrow> i \<le> snd (windows_end w es)"
proof (induction es rule: rev_induct)
  case (snoc e es)
  then show ?case
    using next_window_ge(1) [where s = "windows_end w es" and w = w and now = "se_timestamp_ns e"]
    by (auto simp: tags_snoc windows_end_snoc)
qed (simp add: tags_def)

lemma windows_end_le: "snd (windows_end w es) \<le> length es"
proof (induction es rule: rev_induct)
  case (snoc e es)
  then show ?case
    using next_window_ge(2) [where s = "windows_end w es" and w = w and now = "se_timestamp_ns e"] by (simp add: windows_end_snoc)
qed (simp add: windows_end_def)

text \<open>The sources seen in the current window, the last event included.\<close>

definition window_stream :: "u64 \<Rightarrow> scan_event list \<Rightarrow> u32 list" where
  "window_stream w es = map snd (filter (\<lambda>(i, s). i = snd (windows_end w es)) (tags w es))"

lemma window_stream_Nil [simp]: "window_stream w [] = []"
  by (simp add: window_stream_def tags_def)

lemma window_stream_snoc:
  "window_stream w (es @ [e]) =
     (if snd (windows_end w (es @ [e])) = snd (windows_end w es) then window_stream w es @ [se_src_ip e]
      else [se_src_ip e])"
proof -
  let ?i = "snd (windows_end w es)" let ?j = "snd (windows_end w (es @ [e]))"
  have "?j = ?i \<or> ?j = Suc ?i"
    using next_window_ge [where s = "windows_end w es" and w = w and now = "se_timestamp_ns e"]
    by (auto simp: windows_end_snoc)
  moreover have "filter (\<lambda>(i, s). i = Suc ?i) (tags w es) = []"
    using tags_le [of _ _ w es] by (fastforce simp: filter_empty_conv)
  ultimately show ?thesis by (auto simp: window_stream_def tags_snoc)
qed

lemma count_window_stream:
  "count_list (window_stream w es) s = count_list (tags w es) (snd (windows_end w es), s)"
proof -
  have "count_list (map snd (filter (\<lambda>(i, s). i = k) T)) s = count_list T (k, s)" for T k
    by (induction T) auto
  then show ?thesis by (simp add: window_stream_def)
qed

lemma length_window_stream: "length (window_stream w es) \<le> length es"
  using length_filter_le [of "\<lambda>(i, s). i = snd (windows_end w es)" "tags w es"]
  by (simp add: window_stream_def)

section \<open>What a run of the detector keeps\<close>

definition alert_tag :: "scan_alert \<Rightarrow> nat \<times> u32" where
  "alert_tag a = (unat (sa_window_id a), sa_src_ip a)"

abbreviation alert_tags :: "'e detector \<Rightarrow> (nat \<times> u32) list" where
  "alert_tags d \<equiv> map alert_tag (alerts d)"

definition det_inv ::
  "('e \<Rightarrow> bytes list \<Rightarrow> bool) \<Rightarrow> detector_config \<Rightarrow> scan_event list \<Rightarrow> 'e detector \<Rightarrow> bool" where
  "det_inv Inv c es d \<longleftrightarrow>
     cfg d = c \<and> Inv (estimator d) (map bytes_of_u32 (window_stream (dc_window_ns c) es)) \<and>
     total_events d = of_nat (length es) \<and>
     window_start_ns d = fst (windows_end (dc_window_ns c) es) \<and>
     window_id d = of_nat (snd (windows_end (dc_window_ns c) es)) \<and>
     alerted_in_window d = {s. (snd (windows_end (dc_window_ns c) es), s) \<in> set (alert_tags d)} \<and>
     distinct (alert_tags d) \<and> set (alert_tags d) \<subseteq> set (tags (dc_window_ns c) es)"

lemma det_inv_fresh: "Inv e [] \<Longrightarrow> det_inv Inv c [] (fresh_detector ops c e)"
  by (simp add: det_inv_def fresh_detector_def windows_end_def)

text \<open>The state when the event is recorded: its window is current.\<close>

definition window_entered ::
  "('e \<Rightarrow> bytes list \<Rightarrow> bool) \<Rightarrow> detector_config \<Rightarrow> scan_event list \<Rightarrow> scan_event \<Rightarrow> 'e detector \<Rightarrow>
     'e detector \<Rightarrow> bool" where
  "window_entered Inv c es e d0 d \<longleftrightarrow>
     (\<exists>xs. Inv (estimator d) (map bytes_of_u32 xs) \<and>
        window_stream (dc_window_ns c) (es @ [e]) = xs @ [se_src_ip e]) \<and>
     cfg d = c \<and> total_events d = total_events d0 \<and> alerts d = alerts d0 \<and>
     window_start_ns d = fst (windows_end (dc_window_ns c) (es @ [e])) \<and>
     window_id d = of_nat (snd (windows_end (dc_window_ns c) (es @ [e]))) \<and>
     alerted_in_window d = {s. (snd (windows_end (dc_window_ns c) (es @ [e])), s) \<in> set (alert_tags d)}"

context estimator
begin

lemma enter_window:
  assumes i: "det_inv Inv c es d"
  shows "window_entered Inv c es e d (maybe_reset_window ops (se_timestamp_ns e) d)"
proof -
  let ?w = "dc_window_ns c"
  obtain st n where we: "windows_end ?w es = (st, n)" by (cases "windows_end ?w es")
  have st: "window_start_ns d = st" using i we by (simp add: det_inv_def)
  show ?thesis
  proof (cases "st = 0 \<or> \<not> se_timestamp_ns e - st > ?w")
    case True
    then have "windows_end ?w (es @ [e]) = (if st = 0 then se_timestamp_ns e else st, n)"
      by (auto simp: windows_end_snoc we next_window_def)
    with True i we st show ?thesis
      by (auto simp: window_entered_def maybe_reset_window_def det_inv_def window_stream_snoc)
  next
    case False
    then have s: "windows_end ?w (es @ [e]) = (se_timestamp_ns e, Suc n)"
      by (simp add: windows_end_snoc we next_window_def)
    have "(Suc n, x) \<notin> set (alert_tags d)" for x
      using i tags_le [of "Suc n" x ?w es] we by (auto simp: det_inv_def)
    moreover have "Inv (op_reset ops (estimator d)) []"
      using i reset_ok by (auto simp: det_inv_def)
    ultimately show ?thesis
      using False i we st
      by (auto simp: window_entered_def maybe_reset_window_def det_inv_def s window_stream_snoc)
  qed
qed

text \<open>One event: it never fails, and raises an alert exactly when its estimate is above the
  threshold and its source has none in the window.\<close>

lemma process_step:
  assumes i: "det_inv Inv c es d" and len: "Suc (length es) < 2 ^ 64"
  obtains d' e' freq em where
    "em \<longleftrightarrow> freq > dc_threshold c \<and> last (tags (dc_window_ns c) (es @ [e])) \<notin> set (alert_tags d)"
    "process ops e d = Inr (d', em)" "det_inv Inv c (es @ [e]) d'"
    "Inv e' (map bytes_of_u32 (window_stream (dc_window_ns c) (es @ [e])))"
    "op_estimate ops e' (bytes_of_u32 (se_src_ip e)) = Inr freq"
    "alert_tags d' = alert_tags d @ (if em then [last (tags (dc_window_ns c) (es @ [e]))] else [])"
proof -
  let ?w = "dc_window_ns c" let ?d = "maybe_reset_window ops (se_timestamp_ns e) d"
  let ?n = "snd (windows_end ?w (es @ [e]))"
  have ent: "window_entered Inv c es e d ?d" by (rule enter_window [OF i])
  then obtain xs where xs: "Inv (estimator ?d) (map bytes_of_u32 xs)"
    "window_stream ?w (es @ [e]) = xs @ [se_src_ip e]" by (auto simp: window_entered_def)
  obtain e' where e': "record_u32 ops (estimator ?d) (se_src_ip e) = Inr e'"
    "Inv e' (map bytes_of_u32 (window_stream ?w (es @ [e])))"
    using record_u32_ok [OF xs(1), of "se_src_ip e"] xs(2) by auto
  obtain freq where freq: "op_estimate ops e' (bytes_of_u32 (se_src_ip e)) = Inr freq"
    using estimate_ok [OF e'(2)] by blast
  have n: "unat (of_nat ?n :: u64) = ?n"
    using windows_end_le [of ?w "es @ [e]"] len by (intro unat_of_nat_u64) simp
  have last: "last (tags ?w (es @ [e])) = (?n, se_src_ip e)" by (simp add: tags_snoc)
  define em where "em \<longleftrightarrow> freq > dc_threshold c \<and> (?n, se_src_ip e) \<notin> set (alert_tags d)"
  define d1 where "d1 = ?d\<lparr>estimator := e', total_events := total_events ?d + 1,
    peak_memory := max (peak_memory ?d) (op_memory_usage ops e')\<rparr>"
  define d2 where "d2 = (if em then raise_alert e freq d1 else d1)"
  have em: "em \<longleftrightarrow> freq > dc_threshold (cfg d1) \<and> se_src_ip e \<notin> alerted_in_window d1"
    using ent by (simp add: em_def d1_def window_entered_def)
  have p: "process ops e d = Inr (maybe_emit_trace ops e d2, em)"
    unfolding process_def Let_def e'(1) estimate_u32_def freq bind_res.simps
    unfolding d1_def [symmetric] em [symmetric] d2_def [symmetric] by simp
  have tr: "alerts (maybe_emit_trace ops e d2) = alerts d2"
    "\<And>es. det_inv Inv c es (maybe_emit_trace ops e d2) \<longleftrightarrow> det_inv Inv c es d2"
    by (simp_all add: maybe_emit_trace_def det_inv_def)
  have tags2: "alert_tags d2 = alert_tags d @ (if em then [(?n, se_src_ip e)] else [])"
    using ent n by (simp add: d2_def d1_def raise_alert_def alert_tag_def window_entered_def)
  have "total_events d2 = of_nat (length (es @ [e]))"
    using ent i by (simp add: d2_def d1_def raise_alert_def window_entered_def det_inv_def)
  moreover have "cfg d2 = c" "window_start_ns d2 = fst (windows_end ?w (es @ [e]))" "window_id d2 = of_nat ?n"
    "estimator d2 = e'"
    using ent by (simp_all add: d2_def d1_def raise_alert_def window_entered_def)
  moreover have "alerted_in_window d2 = {s. (?n, s) \<in> set (alert_tags d2)}"
    using ent unfolding tags2 by (auto simp: d2_def d1_def raise_alert_def window_entered_def)
  moreover have "distinct (alert_tags d2)" "set (alert_tags d2) \<subseteq> set (tags ?w (es @ [e]))"
    using i unfolding tags2 by (auto simp: em_def det_inv_def tags_snoc)
  ultimately have "det_inv Inv c (es @ [e]) d2"
    using e'(2) by (simp add: det_inv_def)
  then show thesis
    using that [of em freq "maybe_emit_trace ops e d2" e'] p e'(2) freq tags2 last tr by (simp add: em_def)
qed

end

section \<open>A run\<close>

text \<open>Every event above the threshold has its alert; every alert was above the threshold.\<close>

definition alerts_complete :: "detector_config \<Rightarrow> scan_event list \<Rightarrow> 'e detector \<Rightarrow> bool" where
  "alerts_complete c es d \<longleftrightarrow>
     (\<forall>j < length es.
        unat (dc_threshold c) < count_list (take (Suc j) (tags (dc_window_ns c) es)) (tags (dc_window_ns c) es ! j)
        \<longrightarrow> tags (dc_window_ns c) es ! j \<in> set (alert_tags d))"

definition alerts_sound :: "detector_config \<Rightarrow> scan_event list \<Rightarrow> 'e detector \<Rightarrow> bool" where
  "alerts_sound c es d \<longleftrightarrow>
     (\<forall>t \<in> set (alert_tags d). unat (dc_threshold c) < count_list (tags (dc_window_ns c) es) t)"

lemma count_last_tag:
  "count_list (window_stream w (es @ [e])) (se_src_ip e) =
     count_list (tags w (es @ [e])) (last (tags w (es @ [e])))"
  by (simp add: count_window_stream tags_snoc)

lemma process_all_snoc:
  "process_all ops (es @ [e]) d =
     bind_res (process_all ops es d) (\<lambda>d. bind_res (process ops e d) (\<lambda>(d, emitted). Inr d))"
  by (simp add: process_all_def fold_res_snoc)

context estimator
begin

lemma run_ok:
  assumes "Inv e0 []"
  shows "length es < 2 ^ 64 \<Longrightarrow>
    \<exists>d. process_all ops es (fresh_detector ops c e0) = Inr d \<and> det_inv Inv c es d"
proof (induction es rule: rev_induct)
  case Nil
  then show ?case using assms by (simp add: process_all_def det_inv_fresh)
next
  case (snoc e es)
  then obtain d where d: "process_all ops es (fresh_detector ops c e0) = Inr d" "det_inv Inv c es d" by auto
  have len: "Suc (length es) < 2 ^ 64" using snoc.prems by simp
  obtain d' em where "process ops e d = Inr (d', em)" "det_inv Inv c (es @ [e]) d'"
    by (rule process_step [OF d(2) len])
  with d(1) show ?case by (simp add: process_all_snoc)
qed

end

context over_estimator
begin

lemma run_complete:
  assumes "Inv e0 []"
  shows "length es < 2 ^ 64 \<Longrightarrow> process_all ops es (fresh_detector ops c e0) = Inr d \<Longrightarrow> alerts_complete c es d"
proof (induction es arbitrary: d rule: rev_induct)
  case Nil
  then show ?case by (simp add: alerts_complete_def)
next
  case (snoc e es)
  let ?w = "dc_window_ns c"
  from snoc.prems(1) have len: "Suc (length es) < 2 ^ 64" by simp
  with run_ok [OF assms, of es c] obtain d0 where
    d0: "process_all ops es (fresh_detector ops c e0) = Inr d0" "det_inv Inv c es d0" by auto
  obtain d' e' freq em where
    em: "em \<longleftrightarrow> freq > dc_threshold c \<and> last (tags ?w (es @ [e])) \<notin> set (alert_tags d0)"
    and st: "process ops e d0 = Inr (d', em)" "det_inv Inv c (es @ [e]) d'"
      "Inv e' (map bytes_of_u32 (window_stream ?w (es @ [e])))"
      "op_estimate ops e' (bytes_of_u32 (se_src_ip e)) = Inr freq"
      "alert_tags d' = alert_tags d0 @ (if em then [last (tags ?w (es @ [e]))] else [])"
    by (rule process_step [OF d0(2) len])
  have d: "d = d'" using snoc.prems(2) d0(1) st(1) by (simp add: process_all_snoc)
  have old: "alerts_complete c es d0" using snoc.IH d0(1) len by simp
  have "length (map bytes_of_u32 (window_stream ?w (es @ [e]))) < 2 ^ 64"
    using length_window_stream [of ?w "es @ [e]"] snoc.prems(1) by simp
  from over [OF st(3) this st(4)] have "count_list (tags ?w (es @ [e])) (last (tags ?w (es @ [e]))) \<le> unat freq"
    using count_list_map_inj [OF inj_bytes_of_u32] by (simp add: count_last_tag)
  then have "last (tags ?w (es @ [e])) \<in> set (alert_tags d')"
    if "unat (dc_threshold c) < count_list (tags ?w (es @ [e])) (last (tags ?w (es @ [e])))"
    using that em st(5) by (cases em) (auto simp: word_less_nat_alt)
  with old d st(5) show ?case
    unfolding alerts_complete_def by (auto simp: tags_snoc nth_append less_Suc_eq)
qed

end

context under_estimator
begin

lemma run_sound:
  assumes "Inv e0 []"
  shows "length es < 2 ^ 64 \<Longrightarrow> process_all ops es (fresh_detector ops c e0) = Inr d \<Longrightarrow> alerts_sound c es d"
proof (induction es arbitrary: d rule: rev_induct)
  case Nil
  then show ?case by (auto simp: alerts_sound_def process_all_def fresh_detector_def)
next
  case (snoc e es)
  let ?w = "dc_window_ns c"
  from snoc.prems(1) have len: "Suc (length es) < 2 ^ 64" by simp
  with run_ok [OF assms, of es c] obtain d0 where
    d0: "process_all ops es (fresh_detector ops c e0) = Inr d0" "det_inv Inv c es d0" by auto
  obtain d' e' freq em where
    em: "em \<longleftrightarrow> freq > dc_threshold c \<and> last (tags ?w (es @ [e])) \<notin> set (alert_tags d0)"
    and st: "process ops e d0 = Inr (d', em)" "det_inv Inv c (es @ [e]) d'"
      "Inv e' (map bytes_of_u32 (window_stream ?w (es @ [e])))"
      "op_estimate ops e' (bytes_of_u32 (se_src_ip e)) = Inr freq"
      "alert_tags d' = alert_tags d0 @ (if em then [last (tags ?w (es @ [e]))] else [])"
    by (rule process_step [OF d0(2) len])
  have d: "d = d'" using snoc.prems(2) d0(1) st(1) by (simp add: process_all_snoc)
  have old: "alerts_sound c es d0" using snoc.IH d0(1) len by simp
  have "length (map bytes_of_u32 (window_stream ?w (es @ [e]))) < 2 ^ 64"
    using length_window_stream [of ?w "es @ [e]"] snoc.prems(1) by simp
  from under [OF st(3) this st(4)] have "unat freq \<le> count_list (tags ?w (es @ [e])) (last (tags ?w (es @ [e])))"
    using count_list_map_inj [OF inj_bytes_of_u32] by (simp add: count_last_tag)
  then have above: "unat (dc_threshold c) < count_list (tags ?w (es @ [e])) (last (tags ?w (es @ [e])))"
    if "freq > dc_threshold c" using that by (simp add: word_less_nat_alt)
  have mono: "count_list (tags ?w es) t \<le> count_list (tags ?w (es @ [e])) t" for t
    by (simp add: tags_snoc)
  have "unat (dc_threshold c) < count_list (tags ?w (es @ [e])) t" if t: "t \<in> set (alert_tags d)" for t
  proof (cases "t \<in> set (alert_tags d0)")
    case True
    then have "unat (dc_threshold c) < count_list (tags ?w es) t"
      using old unfolding alerts_sound_def by blast
    with mono [of t] show ?thesis by linarith
  next
    case False
    then have "em" "t = last (tags ?w (es @ [e]))" using t d st(5) by (auto split: if_splits)
    with above em show ?thesis by simp
  qed
  then show ?case by (simp add: alerts_sound_def)
qed

end

section \<open>Properties\<close>

lemma make_estimator_inv:
  assumes "make_estimator c = Inr e" and "dc_algo c = ''cms'' \<Longrightarrow> dc_cms_width c \<noteq> 0"
  shows "any_inv e []" and "dc_algo c \<noteq> ''mg'' \<Longrightarrow> any_over e []" and "dc_algo c \<noteq> ''cms'' \<Longrightarrow> any_under e []"
proof -
  consider "dc_algo c = ''cms''" "e = AnyCMS (cms_new (dc_cms_width c) (dc_cms_depth c))"
    | m where "dc_algo c = ''mg''" "mg_new (dc_mg_k c) = Inr m" "e = AnyHeavy m"
    | "dc_algo c = ''hashmap''" "e = AnyHashMap hm_new"
    using assms(1) by (cases "mg_new (dc_mg_k c)") (auto simp: make_estimator_def split: if_splits)
  then have "any_inv e [] \<and> (dc_algo c \<noteq> ''mg'' \<longrightarrow> any_over e []) \<and> (dc_algo c \<noteq> ''cms'' \<longrightarrow> any_under e [])"
    using assms(2) cms_new_inv hm_inv_new mg_new_inv by cases simp_all
  then show "any_inv e []" and "dc_algo c \<noteq> ''mg'' \<Longrightarrow> any_over e []"
    and "dc_algo c \<noteq> ''cms'' \<Longrightarrow> any_under e []" by blast+
qed

lemma new_detector_fresh:
  "new_detector ops c = Inr d0 \<Longrightarrow> \<exists>e. make_estimator c = Inr e \<and> d0 = fresh_detector ops c e"
  by (auto simp: new_detector_def bind_res_eq_Inr)

lemma count_reached:
  "n < count_list T t \<Longrightarrow> \<exists>j < length T. T ! j = t \<and> n < count_list (take (Suc j) T) t"
proof (induction T rule: rev_induct)
  case (snoc x T)
  show ?case
  proof (cases "n < count_list T t")
    case True
    with snoc.IH obtain j where "j < length T" "T ! j = t" "n < count_list (take (Suc j) T) t" by blast
    then show ?thesis by (intro exI [of _ j]) (simp add: nth_append)
  next
    case False
    with snoc.prems have "x = t" by (auto split: if_splits)
    with snoc.prems show ?thesis by (intro exI [of _ "length T"]) simp
  qed
qed simp

lemma alerts_complete_all:
  "alerts_complete c es d \<Longrightarrow> unat (dc_threshold c) < count_list (tags (dc_window_ns c) es) t \<Longrightarrow>
     t \<in> set (alert_tags d)"
  using count_reached [of "unat (dc_threshold c)" "tags (dc_window_ns c) es" t]
  by (auto simp: alerts_complete_def)

text \<open>C20: Run on any stream of events (fewer than 2^64), a detector over the sketch or the exact counter never
  fails and misses no scan: for every source with more events in a window than the threshold there
  is an alert for that source in that window.\<close>

theorem detector_misses_no_scan:
  assumes "new_detector (any_ops szh szm cap) c = Inr d0" and "length es < 2 ^ 64"
    and "dc_algo c = ''cms'' \<and> dc_cms_width c \<noteq> 0 \<or> dc_algo c = ''hashmap''"
  shows "\<exists>d. process_all (any_ops szh szm cap) es d0 = Inr d \<and>
    (\<forall>i src. unat (dc_threshold c) < count_list (tags (dc_window_ns c) es) (i, src) \<longrightarrow>
       (\<exists>a \<in> set (alerts d). unat (sa_window_id a) = i \<and> sa_src_ip a = src))"
proof -
  from new_detector_fresh [OF assms(1)] obtain e where
    e: "make_estimator c = Inr e" "d0 = fresh_detector (any_ops szh szm cap) c e" by blast
  have o: "any_over e []" using make_estimator_inv(2) [OF e(1)] assms(3) by auto
  from any_over.run_ok [OF o assms(2), of szh szm cap c] obtain d where
    d: "process_all (any_ops szh szm cap) es d0 = Inr d" using e(2) by blast
  from any_over.run_complete [OF o assms(2), of szh szm cap c d] d e(2)
  have "(i, src) \<in> set (alert_tags d)"
    if "unat (dc_threshold c) < count_list (tags (dc_window_ns c) es) (i, src)" for i src
    using that alerts_complete_all by blast
  with d show ?thesis by (fastforce simp: alert_tag_def)
qed

definition demo_config :: "string \<Rightarrow> detector_config" where
  "demo_config algo = \<lparr>dc_algo = algo, dc_cms_width = 16, dc_cms_depth = 2, dc_mg_k = 4,
     dc_threshold = 1, dc_window_ns = 100\<rparr>"

definition demo_events :: "scan_event list" where
  "demo_events = map (\<lambda>(s, t). \<lparr>se_src_ip = s, se_dst_ip = 9, se_dst_port = 80, se_timestamp_ns = t\<rparr>)
     [(7, 1000), (8, 1010), (7, 1020), (7, 1200)]"

lemma demo_tags: "tags 100 demo_events = [(0, 7), (0, 8), (0, 7), (1, 7)]"
  by code_simp

theorem detector_misses_no_scan_witness:
  "\<exists>d. process_all (any_ops 0 0 (\<lambda>_. 0)) demo_events
      (fresh_detector (any_ops 0 0 (\<lambda>_. 0)) (demo_config ''cms'') (AnyCMS (cms_new 16 2))) = Inr d \<and>
    (\<exists>a \<in> set (alerts d). unat (sa_window_id a) = 0 \<and> sa_src_ip a = 7)"
proof -
  have n: "new_detector (any_ops 0 0 (\<lambda>_. 0)) (demo_config ''cms'') =
      Inr (fresh_detector (any_ops 0 0 (\<lambda>_. 0)) (demo_config ''cms'') (AnyCMS (cms_new 16 2)))"
    by (simp add: new_detector_def make_estimator_def demo_config_def)
  have l: "length demo_events < 2 ^ 64" by (simp add: demo_events_def)
  have a: "dc_algo (demo_config ''cms'') = ''cms'' \<and> dc_cms_width (demo_config ''cms'') \<noteq> 0 \<or>
      dc_algo (demo_config ''cms'') = ''hashmap''" by (simp add: demo_config_def)
  have t: "unat (dc_threshold (demo_config ''cms'')) <
      count_list (tags (dc_window_ns (demo_config ''cms'')) demo_events) (0, 7)"
    by (simp add: demo_config_def demo_tags)
  from detector_misses_no_scan [OF n l a] t show ?thesis by blast
qed

text \<open>A detector over Misra-Gries or the exact counter raises no false alarm: the source of every alert
  had more events in the alert's window than the threshold.\<close>

theorem detector_no_false_alarm:
  assumes "new_detector (any_ops szh szm cap) c = Inr d0" and "length es < 2 ^ 64"
    and "dc_algo c = ''mg'' \<or> dc_algo c = ''hashmap''"
  shows "\<exists>d. process_all (any_ops szh szm cap) es d0 = Inr d \<and>
    (\<forall>a \<in> set (alerts d).
       unat (dc_threshold c) < count_list (tags (dc_window_ns c) es) (unat (sa_window_id a), sa_src_ip a))"
proof -
  from new_detector_fresh [OF assms(1)] obtain e where
    e: "make_estimator c = Inr e" "d0 = fresh_detector (any_ops szh szm cap) c e" by blast
  have u: "any_under e []" using make_estimator_inv(3) [OF e(1)] assms(3) by auto
  from any_under.run_ok [OF u assms(2), of szh szm cap c] obtain d where
    d: "process_all (any_ops szh szm cap) es d0 = Inr d" using e(2) by blast
  from any_under.run_sound [OF u assms(2), of szh szm cap c d] d e(2) show ?thesis
    by (auto simp: alerts_sound_def alert_tag_def)
qed

theorem detector_no_false_alarm_witness:
  "\<exists>d. process_all (any_ops 0 0 (\<lambda>_. 0)) demo_events
      (fresh_detector (any_ops 0 0 (\<lambda>_. 0)) (demo_config ''hashmap'') (AnyHashMap hm_new)) = Inr d \<and>
    (\<forall>a \<in> set (alerts d). 1 < count_list (tags 100 demo_events) (unat (sa_window_id a), sa_src_ip a))"
proof -
  have n: "new_detector (any_ops 0 0 (\<lambda>_. 0)) (demo_config ''hashmap'') =
      Inr (fresh_detector (any_ops 0 0 (\<lambda>_. 0)) (demo_config ''hashmap'') (AnyHashMap hm_new))"
    by (simp add: new_detector_def make_estimator_def demo_config_def)
  have l: "length demo_events < 2 ^ 64" by (simp add: demo_events_def)
  have a: "dc_algo (demo_config ''hashmap'') = ''mg'' \<or> dc_algo (demo_config ''hashmap'') = ''hashmap''"
    by (simp add: demo_config_def)
  have c: "unat (dc_threshold (demo_config ''hashmap'')) = 1" "dc_window_ns (demo_config ''hashmap'') = 100"
    by (simp_all add: demo_config_def)
  from detector_no_false_alarm [OF n l a] show ?thesis by (simp only: c)
qed

text \<open>Whatever the estimator (a sketch of non-zero width), a source is alerted at most once per
  window, and only in a window in which it had an event.\<close>

theorem detector_alerts_once:
  assumes "new_detector (any_ops szh szm cap) c = Inr d0" and "length es < 2 ^ 64"
    and "dc_algo c = ''cms'' \<Longrightarrow> dc_cms_width c \<noteq> 0"
  shows "\<exists>d. process_all (any_ops szh szm cap) es d0 = Inr d \<and>
    distinct (map (\<lambda>a. (sa_window_id a, sa_src_ip a)) (alerts d)) \<and>
    (\<forall>a \<in> set (alerts d). (unat (sa_window_id a), sa_src_ip a) \<in> set (tags (dc_window_ns c) es))"
proof -
  from new_detector_fresh [OF assms(1)] obtain e where
    e: "make_estimator c = Inr e" "d0 = fresh_detector (any_ops szh szm cap) c e" by blast
  from any.run_ok [OF make_estimator_inv(1) [OF e(1) assms(3)] assms(2), of szh szm cap c] obtain d where
    d: "process_all (any_ops szh szm cap) es d0 = Inr d" "det_inv any_inv c es d" using e(2) by blast
  have at: "alert_tag = (\<lambda>a. (unat (sa_window_id a), sa_src_ip a))"
    by (rule ext) (simp add: alert_tag_def)
  have "distinct (map (map_prod unat id) (map (\<lambda>a. (sa_window_id a, sa_src_ip a)) (alerts d)))"
    using d(2) unfolding det_inv_def at by (simp add: comp_def)
  then have "distinct (map (\<lambda>a. (sa_window_id a, sa_src_ip a)) (alerts d))"
    unfolding distinct_map by blast
  with d show ?thesis by (auto simp: det_inv_def alert_tag_def)
qed

theorem detector_alerts_once_witness:
  "\<exists>d. process_all (any_ops 0 0 (\<lambda>_. 0)) demo_events
      (fresh_detector (any_ops 0 0 (\<lambda>_. 0)) (demo_config ''hashmap'') (AnyHashMap hm_new)) = Inr d \<and>
    distinct (map (\<lambda>a. (sa_window_id a, sa_src_ip a)) (alerts d))"
proof -
  have n: "new_detector (any_ops 0 0 (\<lambda>_. 0)) (demo_config ''hashmap'') =
      Inr (fresh_detector (any_ops 0 0 (\<lambda>_. 0)) (demo_config ''hashmap'') (AnyHashMap hm_new))"
    by (simp add: new_detector_def make_estimator_def demo_config_def)
  have l: "length demo_events < 2 ^ 64" by (simp add: demo_events_def)
  from detector_alerts_once [OF n l] show ?thesis by (fastforce simp: demo_config_def)
qed

text \<open>Time may not run backwards: an event stamped before the start of the current window makes the
  unsigned difference wrap, so it resets the estimator and the alerted sources and opens a new window,
  whatever the window's length up to 2^63 and however small the step back (up to 2^63).\<close>

theorem late_event_resets_window:
  assumes "se_timestamp_ns evt < window_start_ns d" and "dc_window_ns (cfg d) < 2 ^ 63"
    and "window_start_ns d - se_timestamp_ns evt \<le> 2 ^ 63"
  shows "maybe_reset_window ops (se_timestamp_ns evt) d =
    d\<lparr>estimator := op_reset ops (estimator d), alerted_in_window := {},
      window_start_ns := se_timestamp_ns evt, window_id := window_id d + 1\<rparr>"
proof -
  have "window_start_ns d \<noteq> 0" using assms(1) by auto
  moreover have "dc_window_ns (cfg d) < se_timestamp_ns evt - window_start_ns d"
  proof -
    have lt: "unat (se_timestamp_ns evt) < unat (window_start_ns d)"
      using assms(1) by (simp add: word_less_nat_alt)
    have "unat (window_start_ns d) - unat (se_timestamp_ns evt) \<le> 2 ^ 63"
      using assms(3) lt by (simp add: word_le_nat_alt unat_sub_if')
    moreover have "unat (dc_window_ns (cfg d)) < 2 ^ 63" using assms(2) by (simp add: word_less_nat_alt)
    ultimately have "unat (dc_window_ns (cfg d)) < unat (se_timestamp_ns evt - window_start_ns d)"
      using lt by (simp add: unat_sub_if')
    then show ?thesis by (simp add: word_less_nat_alt)
  qed
  ultimately show ?thesis by (simp add: maybe_reset_window_def)
qed

theorem late_event_resets_window_witness:
  "let d = fresh_detector cms_ops (demo_config ''cms'') (cms_new 16 2)\<lparr>window_start_ns := 1000, window_id := 4\<rparr>
   in window_id (maybe_reset_window cms_ops 999 d) = 5"
proof -
  let ?d = "fresh_detector cms_ops (demo_config ''cms'') (cms_new 16 2)\<lparr>window_start_ns := 1000, window_id := 4\<rparr>"
  let ?e = "\<lparr>se_src_ip = 7, se_dst_ip = 9, se_dst_port = 80, se_timestamp_ns = 999\<rparr>"
  have "maybe_reset_window cms_ops (se_timestamp_ns ?e) ?d =
    ?d\<lparr>estimator := op_reset cms_ops (estimator ?d), alerted_in_window := {},
      window_start_ns := se_timestamp_ns ?e, window_id := window_id ?d + 1\<rparr>"
    by (rule late_event_resets_window) (simp_all add: fresh_detector_def demo_config_def)
  then show ?thesis by simp
qed

end
