(* ===== verification/AlertText.thy ===== *)
theory AlertText
  imports Event Alert
begin

text \<open>
  JSON as the programs write it piece by piece: a member whose value is given as text, and the texts of
  addresses, numbers, arrays and objects.
\<close>

text \<open>\<open>std::setw\<close>, right- and left-aligned.\<close>

definition pad_left :: "nat \<Rightarrow> string \<Rightarrow> string" where
  "pad_left n s = replicate (n - length s) CHR '' '' @ s"

definition pad_right :: "nat \<Rightarrow> string \<Rightarrow> string" where
  "pad_right n s = s @ replicate (n - length s) CHR '' ''"

definition num :: "u64 \<Rightarrow> string" where
  "num n = to_string (unat n)"

definition num32 :: "u32 \<Rightarrow> string" where
  "num32 n = to_string (unat n)"

definition field :: "string \<Rightarrow> string \<Rightarrow> string" where
  "field key val = qu key @ '':'' @ val"

lemma json_int: "json_text (int_to_string n) (JNumber n)"
  by (rule text_number)

lemma escape_char_id: "(of_char c :: nat) \<notin> {0x22, 0x5C} \<Longrightarrow> 0x20 \<le> (of_char c :: nat) \<Longrightarrow> escape_char c = [c]"
  by (auto simp: escape_char_def)

lemma unescaped_ip: "unescaped (ip_to_string ip)"
proof -
  have "escape_char c = [c]" if "is_digit c" for c
  proof -
    have "48 \<le> (of_char c :: nat)" "(of_char c :: nat) \<le> 57" using that by (simp_all add: is_digit_def)
    then show ?thesis by (intro escape_char_id) simp_all
  qed
  moreover have "escape_char CHR ''.'' = CHR ''.'' # []" by (simp add: escape_char_def)
  ultimately show ?thesis using dotted_chars unfolding ip_to_string_def unescaped_def by blast
qed

lemma json_ip: "json_text (qu (ip_to_string ip)) (JString (ip_to_string ip))"
  by (rule text_string [OF string_text_plain [OF unescaped_ip]])

lemma json_plain: "unescaped s \<Longrightarrow> json_text (qu s) (JString s)"
  by (rule text_string [OF string_text_plain])

lemma field_text: "unescaped k \<Longrightarrow> json_text v j \<Longrightarrow> member_text (field k v) (k, j)"
  unfolding field_def by (rule member_text_value)

lemma json_object:
  "list_all2 member_text ms kvs \<Longrightarrow> json_text (''{'' @ commas ms @ ''}'') (JObject kvs)"
  by (rule text_object)

lemma json_array: "(\<And>x. x \<in> set xs \<Longrightarrow> json_text (f x) (g x)) \<Longrightarrow>
    json_text (''['' @ commas (map f xs) @ '']'') (JArray (map g xs))"
  by (rule text_array) (simp add: list_all2_conv_all_nth)

lemma printable_int [simp]: "printable (int_to_string n)"
  by (simp add: int_to_string_def)

lemma printable_ip [simp]: "printable (ip_to_string ip)"
  by (simp add: ip_to_string_def dotted_def)

lemma printable_field [simp]: "printable (field k v) \<longleftrightarrow> printable k \<and> printable v"
  by (auto simp: field_def)

end
