(* ===== verification/Engine.thy ===== *)
theory Engine
  imports Detector Config AlertText
begin

text \<open>
  The pipeline engine (\<open>pipeline/src/engine.cpp\<close>): the event loop, one definition per numbered step of
  its body, the final report, and \<open>main\<close>. The loop is generic in the estimator's operations; the other
  algorithms are the ones the registry hands out.

  A step may end the program with an exception or a trap after it has already sent alerts, so it returns the
  state together with the error. \<open>en_sent\<close> is the list of the calls \<open>chain.send(alert)\<close>, which never throws
  and answers nothing; \<open>main\<close> passes it to the chain. Log lines on standard error are in \<open>EngineLog\<close>.
\<close>

section \<open>State\<close>

record 'e engine_env =
  env_ops :: "'e estimator_ops"
  env_scc :: scc_algorithm
  env_reach :: reach_algorithm
  env_trie :: lpm
  env_cfg :: pipeline_config
  env_node :: string
  env_namespace :: string

record 'e engine =
  en_estimator :: 'e
  en_graph :: graph
  en_last_sccs :: "u32 list list"
  en_total_events :: u64
  en_alerts_count :: u64
  en_window_start_ns :: u64
  en_alerted_sources :: "u32 set"
  en_prev_nontrivial_sccs :: nat
  en_sent :: "alert list"

type_synonym 'e outcome = "'e engine \<times> error option"

definition engine_start :: "'e \<Rightarrow> 'e engine" where
  "engine_start e =
     \<lparr>en_estimator = e, en_graph = graph_empty, en_last_sccs = [], en_total_events = 0, en_alerts_count = 0,
      en_window_start_ns = 0, en_alerted_sources = {}, en_prev_nontrivial_sccs = 0, en_sent = []\<rparr>"

abbreviation env_threshold :: "'e engine_env \<Rightarrow> int" where
  "env_threshold env \<equiv> ac_threshold (pc_frequency (env_cfg env))"

abbreviation env_max_hops :: "'e engine_env \<Rightarrow> int" where
  "env_max_hops env \<equiv> ac_max_hops (pc_reachability (env_cfg env))"

section \<open>Alerts\<close>

definition port_scan_details :: "u64 \<Rightarrow> int \<Rightarrow> int \<Rightarrow> u32 \<Rightarrow> string" where
  "port_scan_details freq threshold src_label ip =
     ''{'' @ commas
       [field ''estimated_frequency'' (to_string (unat freq)),
        field ''threshold'' (int_to_string threshold),
        field ''src_label'' (int_to_string src_label),
        field ''src_ip'' (qu (ip_to_string ip)),
        field ''description''
          (qu (''Source IP exceeded connection frequency threshold '' @ dash @ '' possible port scan''))] @ ''}''"

definition blast_radius_details :: "u32 \<Rightarrow> int \<Rightarrow> distances \<Rightarrow> string" where
  "blast_radius_details ip max_hops blast =
     ''{'' @ commas
       [field ''source'' (qu (ip_to_string ip)),
        field ''max_hops'' (int_to_string max_hops),
        field ''reachable_count'' (to_string (length blast)),
        field ''reachable'' (''['' @ commas (map (\<lambda>(v, dist).
          ''{'' @ commas [field ''ip'' (qu (ip_to_string v)), field ''hops'' (int_to_string dist)] @ ''}'') blast) @
          '']'')] @ ''}''"

definition scc_details :: "u32 list \<Rightarrow> string" where
  "scc_details scc =
     ''{'' @ commas
       [field ''scc_size'' (to_string (length scc)),
        field ''members'' (''['' @ commas (map (\<lambda>v. qu (ip_to_string v)) scc) @ '']''),
        field ''description''
          (qu (''Strongly connected component detected '' @ dash @
               '' possible architecture violation or lateral movement''))] @ ''}''"

definition engine_alert :: "'e engine_env \<Rightarrow> string \<Rightarrow> u32 \<Rightarrow> string \<Rightarrow> u64 \<Rightarrow> string list \<Rightarrow> alert" where
  "engine_alert env ty source details ts tgs =
     \<lparr>al_type = ty, al_source = ip_to_string source, al_details = details, al_timestamp_ns = ts,
      al_incident_id = '''', al_severity = severity_for ty (pc_severity_rules (env_cfg env)), al_status = New,
      al_tags = tgs, al_node_name = env_node env, al_namespace = env_namespace env\<rparr>"

text \<open>\<open>chain.send(alert); alerts_count++\<close>\<close>

definition emit :: "alert \<Rightarrow> 'e engine \<Rightarrow> 'e engine" where
  "emit a s = s\<lparr>en_sent := en_sent s @ [a], en_alerts_count := en_alerts_count s + 1\<rparr>"

section \<open>The body of the event loop\<close>

definition window_ns :: "'e engine_env \<Rightarrow> u64" where
  "window_ns env = word_of_int (pc_window_seconds (env_cfg env)) * 1000000000"

definition open_window :: "'e engine_env \<Rightarrow> net_event \<Rightarrow> 'e engine \<Rightarrow> 'e engine" where
  "open_window env evt s0 =
     (let s = s0\<lparr>en_total_events := en_total_events s0 + 1\<rparr>;
          s = (if en_window_start_ns s = 0 then s\<lparr>en_window_start_ns := timestamp_ns evt\<rparr> else s)
      in if timestamp_ns evt - en_window_start_ns s > window_ns env
         then s\<lparr>en_estimator := op_reset (env_ops env) (en_estimator s), en_alerted_sources := {},
                en_window_start_ns := timestamp_ns evt\<rparr>
         else s)"

definition blast_radius :: "'e engine_env \<Rightarrow> net_event \<Rightarrow> 'e engine \<Rightarrow> 'e engine" where
  "blast_radius env evt s =
     (if has_vertex (en_graph s) (src_ip evt) then
        let blast = reachable_within (env_reach env) (en_graph s) (src_ip evt) (env_max_hops env)
        in emit (engine_alert env ''blast_radius'' (src_ip evt)
             (blast_radius_details (src_ip evt) (env_max_hops env) blast) (timestamp_ns evt)
             [''blast_radius'', ''lateral_movement'']) s
      else s)"

definition port_scan :: "'e engine_env \<Rightarrow> net_event \<Rightarrow> u64 \<Rightarrow> 'e engine \<Rightarrow> 'e engine" where
  "port_scan env evt freq s =
     (if freq > word_of_int (env_threshold env) \<and> src_ip evt \<notin> en_alerted_sources s then
        blast_radius env evt
          (emit (engine_alert env ''port_scan'' (src_ip evt)
              (port_scan_details freq (env_threshold env) (lpm_lookup (env_trie env) (src_ip evt)) (src_ip evt))
              (timestamp_ns evt) [''port_scan''])
            (s\<lparr>en_alerted_sources := insert (src_ip evt) (en_alerted_sources s)\<rparr>))
      else s)"

definition connect :: "net_event \<Rightarrow> 'e engine \<Rightarrow> 'e engine" where
  "connect evt s =
     (let g = en_graph s;
          g = (if \<not> has_vertex g (src_ip evt) then add_vertex g (src_ip evt) else g);
          g = (if \<not> has_vertex g (dst_ip evt) then add_vertex g (dst_ip evt) else g)
      in s\<lparr>en_graph := add_edge g (src_ip evt) (dst_ip evt)\<rparr>)"

definition count_nontrivial :: "u32 list list \<Rightarrow> nat" where
  "count_nontrivial comps = fold (\<lambda>scc n. if length scc > 1 then n + 1 else n) comps 0"

definition scc_alert :: "'e engine_env \<Rightarrow> net_event \<Rightarrow> u32 list \<Rightarrow> alert" where
  "scc_alert env evt scc =
     engine_alert env ''scc_anomaly'' (scc ! 0) (scc_details scc) (timestamp_ns evt)
       [''scc'', ''architecture_violation'']"

definition report_sccs :: "'e engine_env \<Rightarrow> net_event \<Rightarrow> 'e engine \<Rightarrow> 'e engine" where
  "report_sccs env evt s =
     (let nontrivial = count_nontrivial (en_last_sccs s) in
      if nontrivial > en_prev_nontrivial_sccs s then
        (fold (\<lambda>scc s. if length scc \<le> 1 then s else emit (scc_alert env evt scc) s) (en_last_sccs s) s)
          \<lparr>en_prev_nontrivial_sccs := nontrivial\<rparr>
      else s)"

text \<open>\<open>static_cast<uint64_t>(cfg.scc_interval_seconds * 10)\<close>: the product is an \<open>int\<close> and may overflow.\<close>

definition scc_interval :: "'e engine_env \<Rightarrow> u64 res" where
  "scc_interval env =
     (let n = pc_scc_interval_seconds (env_cfg env) * 10
      in if n < - (2 ^ 31) \<or> 2 ^ 31 \<le> n then Inl Undefined else Inr (word_of_int n))"

definition detect_sccs :: "'e engine_env \<Rightarrow> net_event \<Rightarrow> 'e engine \<Rightarrow> 'e outcome" where
  "detect_sccs env evt s =
     (case scc_interval env of
        Inl err \<Rightarrow> (s, Some err)
      | Inr n \<Rightarrow>
          if n = 0 then (s, Some DivideByZero)
          else if en_total_events s mod n = 0 then
            (case find_sccs (env_scc env) (en_graph s) of
               Inl err \<Rightarrow> (s, Some err)
             | Inr comps \<Rightarrow> (report_sccs env evt (s\<lparr>en_last_sccs := comps\<rparr>), None))
          else (s, None))"

definition engine_event :: "'e engine_env \<Rightarrow> net_event \<Rightarrow> 'e engine \<Rightarrow> 'e outcome" where
  "engine_event env evt s0 =
     (let s = open_window env evt s0 in
      case record_u32 (env_ops env) (en_estimator s) (src_ip evt) of
        Inl err \<Rightarrow> (s, Some err)
      | Inr e \<Rightarrow>
          (let s = s\<lparr>en_estimator := e\<rparr> in
           case estimate_u32 (env_ops env) e (src_ip evt) of
             Inl err \<Rightarrow> (s, Some err)
           | Inr freq \<Rightarrow> detect_sccs env evt (connect evt (port_scan env evt freq s))))"

definition engine_line :: "'e engine_env \<Rightarrow> string \<Rightarrow> 'e engine \<Rightarrow> 'e outcome" where
  "engine_line env line s =
     (case parse_event line of
        Inl err \<Rightarrow> (s, Some err)
      | Inr None \<Rightarrow> (s, None)
      | Inr (Some evt) \<Rightarrow> engine_event env evt s)"

fun event_loop :: "'e engine_env \<Rightarrow> string list \<Rightarrow> 'e engine \<Rightarrow> 'e outcome" where
  "event_loop env [] s = (s, None)"
| "event_loop env (line # lines) s =
     (case engine_line env line s of
        (s', Some err) \<Rightarrow> (s', Some err)
      | (s', None) \<Rightarrow> event_loop env lines s')"

section \<open>The report\<close>

definition graph_snapshot :: "graph \<Rightarrow> u32 list list \<Rightarrow> string" where
  "graph_snapshot g comps =
     ''{'' @ [CHR 0x0A] @ ''  '' @ qu ''vertices'' @ '': ['' @
     commas (map (\<lambda>v. qu (ip_to_string v)) (vertices g)) @
     ''],'' @ [CHR 0x0A] @ ''  '' @ qu ''edges'' @ '': ['' @
     commas (concat (map (\<lambda>v. map (\<lambda>u.
       [CHR 0x0A] @ ''    {'' @ field ''from'' (qu (ip_to_string v)) @ '','' @ field ''to'' (qu (ip_to_string u)) @ ''}'')
       (neighbors g v)) (vertices g))) @
     [CHR 0x0A] @ ''  ],'' @ [CHR 0x0A] @ ''  '' @ qu ''sccs'' @ '': ['' @
     commas (map (\<lambda>scc. [CHR 0x0A] @ ''    ['' @ commas (map (\<lambda>v. qu (ip_to_string v)) scc) @ '']'')
       (filter (\<lambda>scc. \<not> length scc \<le> 1) comps)) @
     [CHR 0x0A] @ ''  ]'' @ [CHR 0x0A] @ ''}'' @ [CHR 0x0A]"

definition stat :: "string \<Rightarrow> string \<Rightarrow> string" where
  "stat key val = qu key @ '': '' @ val"

definition stats_text ::
  "u64 \<Rightarrow> u64 \<Rightarrow> nat \<Rightarrow> nat \<Rightarrow> nat \<Rightarrow> u64 \<Rightarrow> string \<Rightarrow> string \<Rightarrow> string \<Rightarrow> string" where
  "stats_text events nalerts vs es comps memory freq_algo scc_algo reach_algo =
     ''{'' @ [CHR 0x0A] @
     ''  '' @ stat ''total_events'' (to_string (unat events)) @ '','' @ [CHR 0x0A] @
     ''  '' @ stat ''alerts_count'' (to_string (unat nalerts)) @ '','' @ [CHR 0x0A] @
     ''  '' @ stat ''graph_vertices'' (to_string vs) @ '','' @ [CHR 0x0A] @
     ''  '' @ stat ''graph_edges'' (to_string es) @ '','' @ [CHR 0x0A] @
     ''  '' @ stat ''nontrivial_sccs'' (to_string comps) @ '','' @ [CHR 0x0A] @
     ''  '' @ stat ''cms_memory_bytes'' (to_string (unat memory)) @ '','' @ [CHR 0x0A] @
     ''  '' @ qu ''algorithms'' @ '': {'' @ [CHR 0x0A] @
     ''    '' @ stat ''frequency'' (qu freq_algo) @ '','' @ [CHR 0x0A] @
     ''    '' @ stat ''scc'' (qu scc_algo) @ '','' @ [CHR 0x0A] @
     ''    '' @ stat ''reachability'' (qu reach_algo) @ [CHR 0x0A] @
     ''  }'' @ [CHR 0x0A] @ ''}'' @ [CHR 0x0A]"

text \<open>The two files the engine leaves behind after the last event.\<close>

definition final_report :: "'e engine_env \<Rightarrow> 'e engine \<Rightarrow> (string \<times> string) res" where
  "final_report env s =
     bind_res (find_sccs (env_scc env) (en_graph s)) (\<lambda>comps.
       Inr (graph_snapshot (en_graph s) comps,
            stats_text (en_total_events s) (en_alerts_count s) (num_vertices (en_graph s)) (num_edges (en_graph s))
              (count_nontrivial comps) (op_memory_usage (env_ops env) (en_estimator s))
              (op_name (env_ops env) (en_estimator s)) (scc_name (env_scc env)) (reach_name (env_reach env))))"

end
