(* ===== verification/EngineRun.thy ===== *)
theory EngineRun
  imports Engine
begin

text \<open>
  What a run of the engine does: it is a run over the events its input lines hold, up to the first line it
  cannot read; its port-scan alerts are those of the port-scan tool's detector, its graph is the graph of
  the events, and every run with a sensible SCC interval reaches the end of its input.
\<close>

section \<open>From lines to events\<close>

fun event_run :: "'e engine_env \<Rightarrow> net_event list \<Rightarrow> 'e engine \<Rightarrow> 'e outcome" where
  "event_run env [] s = (s, None)"
| "event_run env (evt # evts) s =
     (case engine_event env evt s of
        (s', Some err) \<Rightarrow> (s', Some err)
      | (s', None) \<Rightarrow> event_run env evts s')"

fun event_of :: "string \<Rightarrow> net_event list" where
  "event_of line = (case parse_event line of Inr (Some evt) \<Rightarrow> [evt] | _ \<Rightarrow> [])"

abbreviation readable :: "string \<Rightarrow> bool" where
  "readable line \<equiv> is_ok (parse_event line)"

definition events_of :: "string list \<Rightarrow> net_event list" where
  "events_of lines = concat (map event_of (takeWhile readable lines))"

definition input_error :: "string list \<Rightarrow> error option" where
  "input_error lines =
     (case dropWhile readable lines of
        [] \<Rightarrow> None
      | line # _ \<Rightarrow> (case parse_event line of Inl err \<Rightarrow> Some err | Inr _ \<Rightarrow> None))"

lemma event_loop_events:
  "event_loop env lines s =
     (case event_run env (events_of lines) s of
        (s', Some err) \<Rightarrow> (s', Some err)
      | (s', None) \<Rightarrow> (s', input_error lines))"
proof (induction lines arbitrary: s)
  case Nil
  then show ?case by (simp add: events_of_def input_error_def)
next
  case (Cons line lines)
  show ?case
  proof (cases "parse_event line")
    case (Inl err)
    then show ?thesis by (simp add: engine_line_def events_of_def input_error_def)
  next
    case (Inr r)
    then have "events_of (line # lines) = event_of line @ events_of lines"
      "input_error (line # lines) = input_error lines"
      by (simp_all add: events_of_def input_error_def)
    with Inr Cons.IH show ?thesis
      by (cases r) (simp_all add: engine_line_def split: prod.splits option.splits)
  qed
qed

lemma event_run_append:
  "event_run env (es @ es') s =
     (case event_run env es s of
        (s', Some err) \<Rightarrow> (s', Some err)
      | (s', None) \<Rightarrow> event_run env es' s')"
  by (induction es arbitrary: s) (simp_all split: prod.splits option.splits)

lemma event_run_snoc:
  "event_run env (es @ [e]) s = (s', r) \<longleftrightarrow>
     (\<exists>s1. event_run env es s = (s1, None) \<and> engine_event env e s1 = (s', r)) \<or>
     (r \<noteq> None \<and> event_run env es s = (s', r))"
  by (cases "event_run env es s"; cases "snd (event_run env es s)";
      cases "engine_event env e (fst (event_run env es s))"; cases "snd (engine_event env e (fst (event_run env es s)))")
    (auto simp: event_run_append)

section \<open>One event\<close>

text \<open>The detector's view of an event and of the configuration.\<close>

definition scan_of :: "net_event \<Rightarrow> scan_event" where
  "scan_of e = \<lparr>se_src_ip = src_ip e, se_dst_ip = dst_ip e, se_dst_port = dst_port e, se_timestamp_ns = timestamp_ns e\<rparr>"

definition scan_config :: "'e engine_env \<Rightarrow> detector_config" where
  "scan_config env =
     \<lparr>dc_algo = ac_name (pc_frequency (env_cfg env)), dc_cms_width = 2048, dc_cms_depth = 5, dc_mg_k = 64,
      dc_threshold = word_of_int (env_threshold env), dc_window_ns = window_ns env\<rparr>"

text \<open>What the engine sends for an alert of the detector.\<close>

definition scan_to_alert :: "'e engine_env \<Rightarrow> scan_alert \<Rightarrow> alert" where
  "scan_to_alert env a =
     engine_alert env ''port_scan'' (sa_src_ip a)
       (port_scan_details (sa_freq a) (env_threshold env) (lpm_lookup (env_trie env) (sa_src_ip a)) (sa_src_ip a))
       (sa_timestamp_ns a) [''port_scan'']"

definition of_type :: "string \<Rightarrow> alert list \<Rightarrow> alert list" where
  "of_type ty = filter (\<lambda>a. al_type a = ty)"

lemma of_type_simps [simp]:
  "of_type ty [] = []" "of_type ty (as @ bs) = of_type ty as @ of_type ty bs"
  "of_type ty (a # as) = (if al_type a = ty then a # of_type ty as else of_type ty as)"
  by (simp_all add: of_type_def)

lemma al_type_engine_alert [simp]: "al_type (engine_alert env ty src d ts tgs) = ty"
  by (simp add: engine_alert_def)

lemma scan_of_simps [simp]:
  "se_src_ip (scan_of e) = src_ip e" "se_timestamp_ns (scan_of e) = timestamp_ns e"
  by (simp_all add: scan_of_def)

text \<open>What the reports on components leave alone.\<close>

definition same_but_sccs :: "'e engine \<Rightarrow> 'e engine \<Rightarrow> bool" where
  "same_but_sccs s s' \<longleftrightarrow>
     en_estimator s' = en_estimator s \<and> en_graph s' = en_graph s \<and> en_total_events s' = en_total_events s \<and>
     en_window_start_ns s' = en_window_start_ns s \<and> en_alerted_sources s' = en_alerted_sources s \<and>
     (\<exists>as. en_sent s' = en_sent s @ as \<and> set (map al_type as) \<subseteq> {''scc_anomaly''} \<and>
        en_alerts_count s' = en_alerts_count s + of_nat (length as))"

lemma same_but_sccs_refl [simp]: "same_but_sccs s s"
  by (simp add: same_but_sccs_def)

lemma same_but_sccs_trans: "same_but_sccs s t \<Longrightarrow> same_but_sccs t u \<Longrightarrow> same_but_sccs s u"
  unfolding same_but_sccs_def by (elim conjE exE) (auto simp: algebra_simps)

lemma same_but_sccs_report: "same_but_sccs s (report_sccs env evt s)"
proof -
  let ?step = "\<lambda>scc s. if length scc \<le> 1 then s else emit (scc_alert env evt scc) s"
  have one: "same_but_sccs s (?step scc s)" for scc s
    by (auto simp: same_but_sccs_def emit_def scc_alert_def)
  have all: "same_but_sccs s (fold ?step cs s)" for cs s
  proof (induction cs arbitrary: s)
    case (Cons c cs)
    show ?case unfolding fold.simps comp_apply by (rule same_but_sccs_trans [OF one Cons.IH])
  qed simp
  have "same_but_sccs s t \<Longrightarrow> same_but_sccs s (t\<lparr>en_prev_nontrivial_sccs := n\<rparr>)" for t n
    by (simp add: same_but_sccs_def)
  from this [OF all] show ?thesis
    unfolding report_sccs_def Let_def by (simp only: same_but_sccs_refl split: if_split) blast
qed

lemma same_but_sccs_detect: "same_but_sccs s (fst (detect_sccs env evt s))"
proof -
  have "same_but_sccs s (report_sccs env evt (s\<lparr>en_last_sccs := cs\<rparr>))" for cs
    by (rule same_but_sccs_trans [OF _ same_but_sccs_report]) (simp add: same_but_sccs_def)
  then show ?thesis by (simp add: detect_sccs_def split: sum.split)
qed

section \<open>The engine's scan detection is the detector's\<close>

text \<open>The simulation: the two machines share the estimator, the window and the sources alerted in it.\<close>

definition same_scans :: "'e engine_env \<Rightarrow> 'e engine \<Rightarrow> 'e detector \<Rightarrow> bool" where
  "same_scans env s d \<longleftrightarrow>
     cfg d = scan_config env \<and> en_estimator s = estimator d \<and> en_alerted_sources s = alerted_in_window d \<and>
     en_total_events s = total_events d \<and> en_window_start_ns s = window_start_ns d \<and>
     of_type ''port_scan'' (en_sent s) = map (scan_to_alert env) (alerts d)"

lemma same_scans_start: "same_scans env (engine_start e) (fresh_detector ops (scan_config env) e)"
  by (simp add: same_scans_def engine_start_def fresh_detector_def)

lemma same_scans_window:
  assumes "same_scans env s d"
  shows "same_scans env ((open_window env evt s)\<lparr>en_total_events := en_total_events s\<rparr>)
      (maybe_reset_window (env_ops env) (timestamp_ns evt) d)"
    and "en_total_events (open_window env evt s) = en_total_events s + 1"
    and "en_graph (open_window env evt s) = en_graph s" and "en_sent (open_window env evt s) = en_sent s"
    and "en_alerts_count (open_window env evt s) = en_alerts_count s"
  using assms
  by (auto simp: same_scans_def open_window_def maybe_reset_window_def Let_def scan_config_def)

lemma same_scans_frame:
  assumes "same_scans env s d" and "same_but_sccs s s'"
  shows "same_scans env s' d"
proof -
  have "of_type ''port_scan'' xs = []" if "set (map al_type xs) \<subseteq> {''scc_anomaly''}" for xs
    using that by (auto simp: of_type_def filter_empty_conv)
  with assms show ?thesis unfolding same_scans_def same_but_sccs_def by (elim conjE exE) simp
qed

lemma same_scans_connect: "same_scans env (connect evt s) d = same_scans env s d"
  by (simp add: same_scans_def connect_def Let_def)

lemma same_scans_blast: "same_scans env (blast_radius env evt s) d = same_scans env s d"
  by (simp add: same_scans_def blast_radius_def emit_def Let_def)

lemma same_scans_trace: "same_scans env s (maybe_emit_trace ops e d) = same_scans env s d"
  by (simp add: same_scans_def maybe_emit_trace_def)

lemma same_scans_port_scan:
  assumes "same_scans env s d"
  shows "same_scans env (port_scan env evt freq s)
    (if freq > dc_threshold (cfg d) \<and> src_ip evt \<notin> alerted_in_window d then raise_alert (scan_of evt) freq d else d)"
proof (cases "freq > dc_threshold (cfg d) \<and> src_ip evt \<notin> alerted_in_window d")
  case True
  with assms have "port_scan env evt freq s = blast_radius env evt
      (emit (scan_to_alert env \<lparr>sa_algo = '''', sa_src_ip = src_ip evt, sa_freq = freq,
         sa_timestamp_ns = timestamp_ns evt, sa_window_id = 0, sa_event_index = 0\<rparr>)
        (s\<lparr>en_alerted_sources := insert (src_ip evt) (en_alerted_sources s)\<rparr>))"
    by (simp add: port_scan_def scan_to_alert_def) (simp add: same_scans_def scan_config_def)
  with True assms show ?thesis
    by (simp only: same_scans_blast if_True)
      (simp add: same_scans_def emit_def raise_alert_def scan_to_alert_def scan_config_def)
next
  case False
  moreover from False assms have "port_scan env evt freq s = s"
    by (auto simp: port_scan_def same_scans_def scan_config_def)
  ultimately show ?thesis using assms by (simp only: if_False)
qed

lemma engine_event_scan:
  assumes "same_scans env s d" and "process (env_ops env) (scan_of evt) d = Inr (d', em)"
  shows "same_scans env (fst (engine_event env evt s)) d'"
proof -
  let ?ops = "env_ops env" let ?s = "open_window env evt s"
  let ?d = "maybe_reset_window ?ops (timestamp_ns evt) d"
  obtain e freq where e: "record_u32 ?ops (estimator ?d) (src_ip evt) = Inr e"
    "estimate_u32 ?ops e (src_ip evt) = Inr freq"
    and d': "d' = maybe_emit_trace ?ops (scan_of evt)
      (let d = ?d\<lparr>estimator := e, total_events := total_events ?d + 1, peak_memory := max (peak_memory ?d) (op_memory_usage ?ops e)\<rparr>
       in if freq > dc_threshold (cfg d) \<and> src_ip evt \<notin> alerted_in_window d then raise_alert (scan_of evt) freq d else d)"
    using assms(2) by (auto simp: process_def Let_def bind_res_eq_Inr)
  have "same_scans env (?s\<lparr>en_estimator := e\<rparr>)
      (?d\<lparr>estimator := e, total_events := total_events ?d + 1, peak_memory := max (peak_memory ?d) (op_memory_usage ?ops e)\<rparr>)"
    using same_scans_window(1,2) [OF assms(1), of evt] by (simp add: same_scans_def)
  from same_scans_port_scan [OF this, of evt freq]
  have "same_scans env (connect evt (port_scan env evt freq (?s\<lparr>en_estimator := e\<rparr>))) d'"
    unfolding d' Let_def by (simp add: same_scans_connect same_scans_trace)
  moreover have "en_estimator ?s = estimator ?d"
    using same_scans_window(1) [OF assms(1), of evt] by (simp add: same_scans_def)
  ultimately show ?thesis
    using e by (simp add: engine_event_def Let_def same_scans_frame [OF _ same_but_sccs_detect])
qed

lemma engine_event_fails:
  assumes "same_scans env s d" and "process (env_ops env) (scan_of evt) d = Inl err"
  shows "snd (engine_event env evt s) = Some err"
proof -
  have "en_estimator (open_window env evt s) = estimator (maybe_reset_window (env_ops env) (timestamp_ns evt) d)"
    using same_scans_window(1) [OF assms(1), of evt] by (simp add: same_scans_def)
  with assms(2) show ?thesis
    by (auto simp: process_def engine_event_def Let_def bind_res_eq_Inl split: sum.split)
qed

lemma event_run_scan:
  assumes "event_run env es (engine_start e) = (s, None)"
  shows "\<exists>d. process_all (env_ops env) (map scan_of es) (fresh_detector (env_ops env) (scan_config env) e) = Inr d \<and>
    same_scans env s d"
  using assms
proof (induction es arbitrary: s rule: rev_induct)
  case Nil
  then show ?case by (auto simp: process_all_def same_scans_start)
next
  case (snoc evt es)
  then obtain s1 where s1: "event_run env es (engine_start e) = (s1, None)" "engine_event env evt s1 = (s, None)"
    by (auto simp: event_run_snoc)
  from snoc.IH [OF s1(1)] obtain d where
    d: "process_all (env_ops env) (map scan_of es) (fresh_detector (env_ops env) (scan_config env) e) = Inr d"
      "same_scans env s1 d" by blast
  show ?case
  proof (cases "process (env_ops env) (scan_of evt) d")
    case (Inl err)
    from engine_event_fails [OF d(2) this] s1(2) show ?thesis by simp
  next
    case (Inr r)
    then obtain d' em where r: "process (env_ops env) (scan_of evt) d = Inr (d', em)" by (cases r) auto
    from engine_event_scan [OF d(2) r] s1(2) d(1) r show ?thesis by (simp add: process_all_snoc)
  qed
qed

section \<open>The graph\<close>

definition graph_of :: "net_event list \<Rightarrow> graph" where
  "graph_of es = graph_run (map (\<lambda>e. AddEdge (src_ip e) (dst_ip e)) es)"

lemma graph_of_Nil [simp]: "graph_of [] = graph_empty"
  by (simp add: graph_of_def graph_run_def)

lemma graph_of_snoc: "graph_of (es @ [e]) = add_edge (graph_of es) (src_ip e) (dst_ip e)"
  by (simp add: graph_of_def graph_run_def)

lemma graph_of_ok: "graph_ok (graph_of es)"
  by (simp add: graph_of_def graph_run_ok)

lemma graph_of_sets:
  "verts (graph_of es) = (\<Union>e \<in> set es. {src_ip e, dst_ip e})"
  "edges (graph_of es) = (\<lambda>e. (src_ip e, dst_ip e)) ` set es"
  by (induction es rule: rev_induct) (auto simp: graph_of_snoc graph_simps)

lemma connect_graph: "en_graph (connect evt s) = add_edge (en_graph s) (src_ip evt) (dst_ip evt)"
proof -
  have idem: "v \<in> verts g \<Longrightarrow> add_vertex g v = g" for g v by (simp add: add_vertex_def has_vertex_iff)
  then have opt: "(if \<not> has_vertex g v then add_vertex g v else g) = add_vertex g v" for g v
    by (simp add: has_vertex_iff)
  show ?thesis
    unfolding connect_def Let_def opt by (simp add: add_edge_def idem graph_simps)
qed

lemma engine_event_parts:
  assumes "engine_event env evt s = (s', None)"
  obtains e freq where "record_u32 (env_ops env) (en_estimator (open_window env evt s)) (src_ip evt) = Inr e"
    "estimate_u32 (env_ops env) e (src_ip evt) = Inr freq"
    "same_but_sccs (connect evt (port_scan env evt freq ((open_window env evt s)\<lparr>en_estimator := e\<rparr>))) s'"
proof -
  obtain e freq where e: "record_u32 (env_ops env) (en_estimator (open_window env evt s)) (src_ip evt) = Inr e"
    "estimate_u32 (env_ops env) e (src_ip evt) = Inr freq"
    "detect_sccs env evt (connect evt (port_scan env evt freq ((open_window env evt s)\<lparr>en_estimator := e\<rparr>))) = (s', None)"
    using assms by (auto simp: engine_event_def Let_def split: sum.splits)
  show thesis using that [OF e(1,2)] same_but_sccs_detect [of _ env evt] e(3) by (metis fst_conv)
qed

lemma port_scan_graph [simp]: "en_graph (port_scan env evt freq s) = en_graph s"
  by (simp add: port_scan_def blast_radius_def emit_def Let_def)

lemma open_window_frame [simp]:
  "en_graph (open_window env evt s) = en_graph s" "en_sent (open_window env evt s) = en_sent s"
  "en_alerts_count (open_window env evt s) = en_alerts_count s"
  by (simp_all add: open_window_def Let_def)

lemma engine_event_graph:
  "engine_event env evt s = (s', None) \<Longrightarrow> en_graph s' = add_edge (en_graph s) (src_ip evt) (dst_ip evt)"
  by (erule engine_event_parts) (simp add: same_but_sccs_def connect_graph)

lemma event_run_graph:
  "event_run env es (engine_start e) = (s, None) \<Longrightarrow> en_graph s = graph_of es"
proof (induction es arbitrary: s rule: rev_induct)
  case Nil
  then show ?case by (auto simp: engine_start_def)
next
  case (snoc evt es)
  then show ?case by (auto simp: event_run_snoc graph_of_snoc dest: engine_event_graph)
qed

section \<open>Blast radius\<close>

definition blast_alert :: "'e engine_env \<Rightarrow> graph \<Rightarrow> u32 \<Rightarrow> u64 \<Rightarrow> alert" where
  "blast_alert env g src ts =
     engine_alert env ''blast_radius'' src
       (blast_radius_details src (env_max_hops env) (reachable_within (env_reach env) g src (env_max_hops env))) ts
       [''blast_radius'', ''lateral_movement'']"

lemma process_alerts:
  assumes "process ops evt d = Inr (d', em)"
  shows "total_events d' = total_events d + 1"
    and "em \<Longrightarrow> \<exists>a. alerts d' = alerts d @ [a] \<and> sa_src_ip a = se_src_ip evt \<and>
      sa_timestamp_ns a = se_timestamp_ns evt \<and> sa_event_index a = total_events d + 1"
    and "\<not> em \<Longrightarrow> alerts d' = alerts d"
proof -
  have w: "alerts (maybe_reset_window ops t d) = alerts d" "total_events (maybe_reset_window ops t d) = total_events d" for t
    by (simp_all add: maybe_reset_window_def)
  obtain e freq where e: "record_u32 ops (estimator (maybe_reset_window ops (se_timestamp_ns evt) d)) (se_src_ip evt) = Inr e"
    "estimate_u32 ops e (se_src_ip evt) = Inr freq"
    using assms by (auto simp: process_def Let_def bind_res_eq_Inr)
  define d1 where "d1 = (let d = maybe_reset_window ops (se_timestamp_ns evt) d in
    d\<lparr>estimator := e, total_events := total_events d + 1, peak_memory := max (peak_memory d) (op_memory_usage ops e)\<rparr>)"
  have d1: "alerts d1 = alerts d" "total_events d1 = total_events d + 1" by (simp_all add: d1_def Let_def w)
  have d': "d' = maybe_emit_trace ops evt (if em then raise_alert evt freq d1 else d1)"
    using assms by (auto simp: process_def e d1_def Let_def split: if_splits)
  show "total_events d' = total_events d + 1"
    and "em \<Longrightarrow> \<exists>a. alerts d' = alerts d @ [a] \<and> sa_src_ip a = se_src_ip evt \<and>
      sa_timestamp_ns a = se_timestamp_ns evt \<and> sa_event_index a = total_events d + 1"
    and "\<not> em \<Longrightarrow> alerts d' = alerts d"
    unfolding d' by (simp_all add: d1 maybe_emit_trace_def raise_alert_def)
qed

lemma engine_event_blast:
  assumes sim: "same_scans env s d" and p: "process (env_ops env) (scan_of evt) d = Inr (d', em)"
    and ev: "engine_event env evt s = (s', None)"
  shows "of_type ''blast_radius'' (en_sent s') = of_type ''blast_radius'' (en_sent s) @
    (if em \<and> has_vertex (en_graph s) (src_ip evt) then [blast_alert env (en_graph s) (src_ip evt) (timestamp_ns evt)] else [])"
proof -
  let ?s = "open_window env evt s" let ?d = "maybe_reset_window (env_ops env) (timestamp_ns evt) d"
  obtain e freq where e: "record_u32 (env_ops env) (en_estimator ?s) (src_ip evt) = Inr e"
    "estimate_u32 (env_ops env) e (src_ip evt) = Inr freq"
    "same_but_sccs (connect evt (port_scan env evt freq (?s\<lparr>en_estimator := e\<rparr>))) s'"
    by (rule engine_event_parts [OF ev])
  have same: "en_estimator ?s = estimator ?d" "en_alerted_sources ?s = alerted_in_window ?d"
    "dc_threshold (cfg ?d) = word_of_int (env_threshold env)"
    using same_scans_window(1) [OF sim, of evt] by (simp_all add: same_scans_def scan_config_def)
  have em: "em \<longleftrightarrow> freq > word_of_int (env_threshold env) \<and> src_ip evt \<notin> en_alerted_sources ?s"
    using p e(1,2) same by (auto simp: process_def Let_def bind_res_eq_Inr)
  have "of_type ''blast_radius'' xs = []" if "set (map al_type xs) \<subseteq> {''scc_anomaly''}" for xs
    using that by (auto simp: of_type_def filter_empty_conv)
  with e(3) have "of_type ''blast_radius'' (en_sent s') =
      of_type ''blast_radius'' (en_sent (connect evt (port_scan env evt freq (?s\<lparr>en_estimator := e\<rparr>))))"
    unfolding same_but_sccs_def by (elim conjE exE) simp
  also have "\<dots> = of_type ''blast_radius'' (en_sent (port_scan env evt freq (?s\<lparr>en_estimator := e\<rparr>)))"
    by (simp add: connect_def Let_def)
  also have "\<dots> = of_type ''blast_radius'' (en_sent s) @
    (if em \<and> has_vertex (en_graph s) (src_ip evt) then [blast_alert env (en_graph s) (src_ip evt) (timestamp_ns evt)] else [])"
    by (simp add: port_scan_def em blast_radius_def emit_def blast_alert_def Let_def)
  finally show ?thesis .
qed

text \<open>The graph an alert of the detector was raised on: that of the events before its own.\<close>

definition blast_for :: "'e engine_env \<Rightarrow> net_event list \<Rightarrow> scan_alert \<Rightarrow> alert list" where
  "blast_for env es a =
     (let g = graph_of (take (unat (sa_event_index a) - 1) es)
      in if has_vertex g (sa_src_ip a) then [blast_alert env g (sa_src_ip a) (sa_timestamp_ns a)] else [])"

lemma event_run_blast:
  assumes "length es < 2 ^ 64" and "event_run env es (engine_start e) = (s, None)"
    and "process_all (env_ops env) (map scan_of es) (fresh_detector (env_ops env) (scan_config env) e) = Inr d"
  shows "of_type ''blast_radius'' (en_sent s) = concat (map (blast_for env es) (alerts d)) \<and>
    total_events d = of_nat (length es) \<and> (\<forall>a \<in> set (alerts d). unat (sa_event_index a) \<le> length es)"
  using assms
proof (induction es arbitrary: s d rule: rev_induct)
  case Nil
  then show ?case by (auto simp: engine_start_def process_all_def fresh_detector_def)
next
  case (snoc evt es)
  obtain s1 where s1: "event_run env es (engine_start e) = (s1, None)" "engine_event env evt s1 = (s, None)"
    using snoc.prems(2) by (auto simp: event_run_snoc)
  obtain d1 em where d1: "process_all (env_ops env) (map scan_of es) (fresh_detector (env_ops env) (scan_config env) e) = Inr d1"
    "process (env_ops env) (scan_of evt) d1 = Inr (d, em)"
    using snoc.prems(3) by (auto simp: process_all_snoc bind_res_eq_Inr)
  have sim: "same_scans env s1 d1" using event_run_scan [OF s1(1)] d1(1) by simp
  have len: "length es < 2 ^ 64" "Suc (length es) < 2 ^ 64" using snoc.prems(1) by simp_all
  from snoc.IH [OF len(1) s1(1) d1(1)] have IH: "of_type ''blast_radius'' (en_sent s1) = concat (map (blast_for env es) (alerts d1))"
    "total_events d1 = of_nat (length es)" "\<forall>a \<in> set (alerts d1). unat (sa_event_index a) \<le> length es" by blast+
  have n: "unat (of_nat (length es) + 1 :: u64) = Suc (length es)"
    using unat_of_nat_u64 [OF len(2)] by (simp add: add.commute)
  have "blast_for env (es @ [evt]) a = blast_for env es a" if "a \<in> set (alerts d1)" for a
    using IH(3) that by (fastforce simp: blast_for_def)
  then have old: "concat (map (blast_for env (es @ [evt])) (alerts d1)) = concat (map (blast_for env es) (alerts d1))"
    by (simp cong: map_cong)
  note step = engine_event_blast [OF sim d1(2) s1(2)] and proc = process_alerts [OF d1(2)]
  have g: "en_graph s1 = graph_of es" by (rule event_run_graph [OF s1(1)])
  show ?case
  proof (cases em)
    case True
    from proc(2) [OF this] obtain a where a: "alerts d = alerts d1 @ [a]" "sa_src_ip a = src_ip evt"
      "sa_timestamp_ns a = timestamp_ns evt" "sa_event_index a = of_nat (length es) + 1" using IH(2) by auto
    have new: "blast_for env (es @ [evt]) a =
        (if has_vertex (graph_of es) (src_ip evt) then [blast_alert env (graph_of es) (src_ip evt) (timestamp_ns evt)] else [])"
      by (simp add: blast_for_def a n)
    from True step IH(1) old g have "of_type ''blast_radius'' (en_sent s) = concat (map (blast_for env (es @ [evt])) (alerts d))"
      by (simp add: a(1) new)
    moreover have "\<forall>a \<in> set (alerts d). unat (sa_event_index a) \<le> length (es @ [evt])"
      using IH(3) by (auto simp: a(1,4) n)
    ultimately show ?thesis using proc(1) IH(2) by (simp add: add.commute)
  next
    case False
    with step IH old proc(1,3) show ?thesis by (auto simp: add.commute)
  qed
qed

section \<open>Alerts sent and counted\<close>

definition counted :: "'e engine \<Rightarrow> bool" where
  "counted s \<longleftrightarrow> en_alerts_count s = of_nat (length (en_sent s))"

lemma counted_emit: "counted s \<Longrightarrow> counted (emit a s)"
  by (simp add: counted_def emit_def add.commute)

lemma counted_sccs: "counted s \<Longrightarrow> same_but_sccs s s' \<Longrightarrow> counted s'"
  unfolding counted_def same_but_sccs_def by (elim conjE exE) simp

lemma counted_frame [simp]:
  "counted (connect evt s) = counted s" "counted (open_window env evt s) = counted s"
  "counted (s\<lparr>en_estimator := e\<rparr>) = counted s" "counted (s\<lparr>en_alerted_sources := A\<rparr>) = counted s"
  by (simp_all add: counted_def connect_def open_window_def Let_def)

lemma counted_port_scan: "counted s \<Longrightarrow> counted (port_scan env evt freq s)"
  by (simp add: port_scan_def blast_radius_def counted_emit Let_def)

lemma counted_event: "counted s \<Longrightarrow> counted (fst (engine_event env evt s))"
  by (simp add: engine_event_def Let_def counted_port_scan counted_sccs [OF _ same_but_sccs_detect] split: sum.split)

lemma counted_run: "counted s \<Longrightarrow> counted (fst (event_run env es s))"
proof (induction es arbitrary: s)
  case (Cons e es)
  from counted_event [OF Cons.prems, of env e] Cons.IH show ?case
    by (auto split: prod.split option.split)
qed simp

section \<open>A run that comes to its end\<close>

definition scc_every :: "'e engine_env \<Rightarrow> nat \<Rightarrow> bool" where
  "scc_every env n \<longleftrightarrow> 0 < n \<and> (\<exists>w. scc_interval env = Inr w \<and> unat w = n)"

lemma detect_sccs_ok:
  assumes "scc_every env n" and "graph_ok (en_graph s)"
  shows "detect_sccs env evt s =
    (if unat (en_total_events s) mod n = 0
     then report_sccs env evt (s\<lparr>en_last_sccs := found_sccs (env_scc env) (en_graph s)\<rparr>) else s, None)"
proof -
  obtain w where w: "scc_interval env = Inr w" "unat w = n" "w \<noteq> 0"
    using assms(1) by (auto simp: scc_every_def unat_gt_0)
  have "en_total_events s mod w = 0 \<longleftrightarrow> unat (en_total_events s) mod n = 0"
    using unat_mod_distrib [of "en_total_events s" w] unat_eq_0 [of "en_total_events s mod w"] by (simp add: w(2))
  then show ?thesis
    using w find_sccs_ok(1) [OF assms(2), of "env_scc env"] by (simp add: detect_sccs_def)
qed

lemma engine_event_ok:
  assumes "same_scans env s d" and "process (env_ops env) (scan_of evt) d = Inr (d', em)"
    and "scc_every env n" and "graph_ok (en_graph s)"
  shows "snd (engine_event env evt s) = None"
proof -
  let ?s = "open_window env evt s" let ?d = "maybe_reset_window (env_ops env) (timestamp_ns evt) d"
  have "en_estimator ?s = estimator ?d"
    using same_scans_window(1) [OF assms(1), of evt] by (simp add: same_scans_def)
  then obtain e freq where "record_u32 (env_ops env) (en_estimator ?s) (src_ip evt) = Inr e"
    "estimate_u32 (env_ops env) e (src_ip evt) = Inr freq"
    using assms(2) by (auto simp: process_def Let_def bind_res_eq_Inr)
  then show ?thesis
    using assms(3,4) by (simp add: engine_event_def Let_def detect_sccs_ok connect_graph add_edge_ok)
qed

context estimator
begin

lemma engine_run_ok:
  assumes "Inv e []" and "scc_every env n" and "env_ops env = ops" and "length es < 2 ^ 64"
  shows "\<exists>s d. event_run env es (engine_start e) = (s, None) \<and>
    process_all ops (map scan_of es) (fresh_detector ops (scan_config env) e) = Inr d \<and> same_scans env s d"
  using assms(4)
proof (induction es rule: rev_induct)
  case Nil
  then show ?case by (simp add: process_all_def same_scans_start)
next
  case (snoc evt es)
  then obtain s d where
    s: "event_run env es (engine_start e) = (s, None)"
      "process_all ops (map scan_of es) (fresh_detector ops (scan_config env) e) = Inr d" "same_scans env s d"
    by auto
  have "det_inv Inv (scan_config env) (map scan_of es) d"
    using run_ok [OF assms(1), of "map scan_of es" "scan_config env"] s(2) snoc.prems by simp
  moreover have "Suc (length (map scan_of es)) < 2 ^ 64" using snoc.prems by simp
  ultimately obtain d' em where "process ops (scan_of evt) d = Inr (d', em)"
    by (rule process_step [of "scan_config env" "map scan_of es" d "scan_of evt"])
  then have p: "process (env_ops env) (scan_of evt) d = Inr (d', em)" by (simp add: assms(3))
  obtain s' where s': "engine_event env evt s = (s', None)"
    using engine_event_ok [OF s(3) p assms(2)] event_run_graph [OF s(1)] graph_of_ok [of es]
    by (metis prod.collapse)
  from engine_event_scan [OF s(3) p] s' s(1,2) p assms(3) show ?case
    by (auto simp: event_run_snoc process_all_snoc)
qed

end

section \<open>Alerts on components\<close>

text \<open>
  After the first \<open>k\<close> events: the components the detector finds, the non-trivial ones, and the checks made so
  far. A check reports all of its non-trivial components when there are more of them than at every check before.
\<close>

definition sccs_at :: "'e engine_env \<Rightarrow> net_event list \<Rightarrow> nat \<Rightarrow> u32 list list" where
  "sccs_at env es k = filter (\<lambda>c. 1 < length c) (found_sccs (env_scc env) (graph_of (take k es)))"

definition checks :: "nat \<Rightarrow> nat \<Rightarrow> nat list" where
  "checks n m = filter (\<lambda>k. k mod n = 0) [1..<Suc m]"

definition most_before :: "'e engine_env \<Rightarrow> nat \<Rightarrow> net_event list \<Rightarrow> nat \<Rightarrow> nat" where
  "most_before env n es m = fold max (map (\<lambda>k. length (sccs_at env es k)) (checks n m)) 0"

definition scc_alerts :: "'e engine_env \<Rightarrow> nat \<Rightarrow> net_event list \<Rightarrow> alert list" where
  "scc_alerts env n es = concat (map (\<lambda>k.
     if most_before env n es (k - 1) < length (sccs_at env es k)
     then map (scc_alert env (es ! (k - 1))) (sccs_at env es k) else []) (checks n (length es)))"

lemma count_nontrivial_filter: "count_nontrivial cs = length (filter (\<lambda>c. 1 < length c) cs)"
proof -
  have "fold (\<lambda>c n. if length c > 1 then n + 1 else n) cs k = k + length (filter (\<lambda>c. 1 < length c) cs)" for k
    by (induction cs arbitrary: k) auto
  then show ?thesis by (simp add: count_nontrivial_def)
qed

lemma report_fold_sent:
  "en_sent (fold (\<lambda>scc s. if length scc \<le> 1 then s else emit (scc_alert env evt scc) s) cs s) =
     en_sent s @ map (scc_alert env evt) (filter (\<lambda>c. 1 < length c) cs)"
  by (induction cs arbitrary: s) (simp_all add: emit_def not_le)

lemma of_type_scc_alerts: "of_type ''scc_anomaly'' (map (scc_alert env evt) cs) = map (scc_alert env evt) cs"
  by (induction cs) (simp_all add: scc_alert_def)

lemma report_sccs_sent:
  "of_type ''scc_anomaly'' (en_sent (report_sccs env evt s)) = of_type ''scc_anomaly'' (en_sent s) @
     (if en_prev_nontrivial_sccs s < count_nontrivial (en_last_sccs s)
      then map (scc_alert env evt) (filter (\<lambda>c. 1 < length c) (en_last_sccs s)) else [])"
  "en_prev_nontrivial_sccs (report_sccs env evt s) = max (en_prev_nontrivial_sccs s) (count_nontrivial (en_last_sccs s))"
  by (simp_all add: report_sccs_def Let_def report_fold_sent [simplified] of_type_scc_alerts [simplified])

lemma port_scan_sccs [simp]:
  "of_type ''scc_anomaly'' (en_sent (port_scan env evt freq s)) = of_type ''scc_anomaly'' (en_sent s)"
  "en_prev_nontrivial_sccs (port_scan env evt freq s) = en_prev_nontrivial_sccs s"
  "en_total_events (port_scan env evt freq s) = en_total_events s"
  by (simp_all add: port_scan_def blast_radius_def emit_def Let_def)

lemma connect_frame [simp]:
  "en_sent (connect evt s) = en_sent s" "en_total_events (connect evt s) = en_total_events s"
  "en_prev_nontrivial_sccs (connect evt s) = en_prev_nontrivial_sccs s"
  by (simp_all add: connect_def Let_def)

lemma open_window_counts [simp]:
  "en_total_events (open_window env evt s) = en_total_events s + 1"
  "en_prev_nontrivial_sccs (open_window env evt s) = en_prev_nontrivial_sccs s"
  by (simp_all add: open_window_def Let_def)

lemma engine_event_sccs:
  assumes "engine_event env evt s = (s', None)" and "scc_every env n" and "graph_ok (en_graph s)"
  defines "cs \<equiv> filter (\<lambda>c. 1 < length c)
      (found_sccs (env_scc env) (add_edge (en_graph s) (src_ip evt) (dst_ip evt)))"
    and "check \<equiv> unat (en_total_events s + 1) mod n = 0"
  shows "en_total_events s' = en_total_events s + 1"
    and "of_type ''scc_anomaly'' (en_sent s') = of_type ''scc_anomaly'' (en_sent s) @
      (if check \<and> en_prev_nontrivial_sccs s < length cs then map (scc_alert env evt) cs else [])"
    and "en_prev_nontrivial_sccs s' =
      (if check then max (en_prev_nontrivial_sccs s) (length cs) else en_prev_nontrivial_sccs s)"
proof -
  obtain e freq where
    "detect_sccs env evt (connect evt (port_scan env evt freq ((open_window env evt s)\<lparr>en_estimator := e\<rparr>))) = (s', None)"
    using assms(1) by (auto simp: engine_event_def Let_def split: sum.splits)
  moreover define t where "t = connect evt (port_scan env evt freq ((open_window env evt s)\<lparr>en_estimator := e\<rparr>))"
  ultimately have s': "(s', None) = detect_sccs env evt t" by simp
  have t: "en_graph t = add_edge (en_graph s) (src_ip evt) (dst_ip evt)" "en_total_events t = en_total_events s + 1"
    "of_type ''scc_anomaly'' (en_sent t) = of_type ''scc_anomaly'' (en_sent s)"
    "en_prev_nontrivial_sccs t = en_prev_nontrivial_sccs s"
    by (simp_all add: t_def connect_graph)
  have ok: "graph_ok (en_graph t)" using assms(3) by (simp add: t add_edge_ok)
  from s' have s'': "s' = (if check then report_sccs env evt (t\<lparr>en_last_sccs := found_sccs (env_scc env) (en_graph t)\<rparr>) else t)"
    by (simp add: detect_sccs_ok [OF assms(2) ok] check_def t(2))
  have "same_but_sccs (t\<lparr>en_last_sccs := found_sccs (env_scc env) (en_graph t)\<rparr>) s'" if check
    using that by (simp add: s'' same_but_sccs_report)
  then show "en_total_events s' = en_total_events s + 1"
    by (cases check) (simp_all add: s'' t same_but_sccs_def)
  show "of_type ''scc_anomaly'' (en_sent s') = of_type ''scc_anomaly'' (en_sent s) @
      (if check \<and> en_prev_nontrivial_sccs s < length cs then map (scc_alert env evt) cs else [])"
    by (simp add: s'' report_sccs_sent count_nontrivial_filter t cs_def)
  show "en_prev_nontrivial_sccs s' =
      (if check then max (en_prev_nontrivial_sccs s) (length cs) else en_prev_nontrivial_sccs s)"
    by (simp add: s'' report_sccs_sent count_nontrivial_filter t cs_def)
qed

lemma sccs_at_snoc: "k \<le> length es \<Longrightarrow> sccs_at env (es @ [e]) k = sccs_at env es k"
  by (simp add: sccs_at_def)

lemma checks_Suc: "checks n (Suc m) = checks n m @ (if Suc m mod n = 0 then [Suc m] else [])"
  by (simp add: checks_def)

lemma checks_le: "k \<in> set (checks n m) \<Longrightarrow> 1 \<le> k \<and> k \<le> m"
  by (auto simp: checks_def)

lemma most_before_snoc: "m \<le> length es \<Longrightarrow> most_before env n (es @ [e]) m = most_before env n es m"
  unfolding most_before_def by (rule arg_cong [where f = "\<lambda>xs. fold max xs 0"]) (auto simp: sccs_at_snoc dest: checks_le)

lemma most_before_Suc:
  "most_before env n es (Suc m) =
     (if Suc m mod n = 0 then max (most_before env n es m) (length (sccs_at env es (Suc m))) else most_before env n es m)"
  by (simp add: most_before_def checks_Suc max.commute)

lemma scc_alerts_snoc:
  "scc_alerts env n (es @ [e]) = scc_alerts env n es @
     (if Suc (length es) mod n = 0 \<and> most_before env n es (length es) < length (sccs_at env (es @ [e]) (Suc (length es)))
      then map (scc_alert env e) (sccs_at env (es @ [e]) (Suc (length es))) else [])"
proof -
  have eq: "map (\<lambda>k. if most_before env n (es @ [e]) (k - 1) < length (sccs_at env (es @ [e]) k)
       then map (scc_alert env ((es @ [e]) ! (k - 1))) (sccs_at env (es @ [e]) k) else []) (checks n (length es)) =
     map (\<lambda>k. if most_before env n es (k - 1) < length (sccs_at env es k)
       then map (scc_alert env (es ! (k - 1))) (sccs_at env es k) else []) (checks n (length es))"
    by (rule map_cong) (auto simp: sccs_at_snoc most_before_snoc nth_append dest!: checks_le)
  show ?thesis
    unfolding scc_alerts_def length_append_singleton checks_Suc map_append concat_append eq
    by (cases "Suc (length es) mod n = 0";
        cases "most_before env n es (length es) < length (sccs_at env (es @ [e]) (Suc (length es)))")
      (simp_all add: most_before_snoc)
qed

lemma event_run_sccs:
  assumes "length es < 2 ^ 64" and "event_run env es (engine_start e) = (s, None)" and "scc_every env n"
  shows "en_total_events s = of_nat (length es) \<and> of_type ''scc_anomaly'' (en_sent s) = scc_alerts env n es \<and>
    en_prev_nontrivial_sccs s = most_before env n es (length es)"
  using assms(1,2)
proof (induction es arbitrary: s rule: rev_induct)
  case Nil
  then show ?case by (auto simp: engine_start_def scc_alerts_def most_before_def checks_def)
next
  case (snoc evt es)
  obtain s1 where s1: "event_run env es (engine_start e) = (s1, None)" "engine_event env evt s1 = (s, None)"
    using snoc.prems(2) by (auto simp: event_run_snoc)
  have len: "length es < 2 ^ 64" "Suc (length es) < 2 ^ 64" using snoc.prems(1) by simp_all
  note IH = snoc.IH [OF len(1) s1(1)]
  have g: "en_graph s1 = graph_of es" by (rule event_run_graph [OF s1(1)])
  have ok: "graph_ok (en_graph s1)" by (simp add: g graph_of_ok)
  have n: "unat (of_nat (length es) + 1 :: u64) = Suc (length es)"
    using unat_of_nat_u64 [OF len(2)] by (simp add: add.commute)
  have at: "filter (\<lambda>c. 1 < length c) (found_sccs (env_scc env) (add_edge (graph_of es) (src_ip evt) (dst_ip evt))) =
      sccs_at env (es @ [evt]) (Suc (length es))"
    by (simp add: sccs_at_def graph_of_snoc)
  note step = engine_event_sccs [OF s1(2) assms(3) ok]
  show ?case
    using step IH
    by (simp add: g at n scc_alerts_snoc most_before_Suc most_before_snoc del: One_nat_def)
qed

section \<open>Every alert is one line of JSON\<close>

inductive made_by :: "'e engine_env \<Rightarrow> alert \<Rightarrow> bool" for env where
  made_scan: "made_by env (engine_alert env ''port_scan'' src (port_scan_details f t l src) ts [''port_scan''])"
| made_blast: "made_by env (blast_alert env g src ts)"
| made_scc: "made_by env (scc_alert env evt vs)"

definition all_made :: "'e engine_env \<Rightarrow> 'e engine \<Rightarrow> bool" where
  "all_made env s \<longleftrightarrow> (\<forall>a \<in> set (en_sent s). made_by env a)"

lemma all_made_emit: "all_made env s \<Longrightarrow> made_by env a \<Longrightarrow> all_made env (emit a s)"
  by (auto simp: all_made_def emit_def)

lemma all_made_frame [simp]:
  "all_made env (connect evt s) = all_made env s" "all_made env (open_window env evt s) = all_made env s"
  "all_made env (s\<lparr>en_estimator := e\<rparr>) = all_made env s" "all_made env (s\<lparr>en_alerted_sources := A\<rparr>) = all_made env s"
  "all_made env (s\<lparr>en_last_sccs := cs\<rparr>) = all_made env s" "all_made env (s\<lparr>en_prev_nontrivial_sccs := n\<rparr>) = all_made env s"
  by (simp_all add: all_made_def)

lemma all_made_port_scan: "all_made env s \<Longrightarrow> all_made env (port_scan env evt freq s)"
  by (simp add: port_scan_def blast_radius_def Let_def all_made_emit made_scan made_blast flip: blast_alert_def)

lemma all_made_report: "all_made env s \<Longrightarrow> all_made env (report_sccs env evt s)"
proof -
  have "all_made env s \<Longrightarrow>
      all_made env (fold (\<lambda>vs s. if length vs \<le> 1 then s else emit (scc_alert env evt vs) s) cs s)" for cs
    unfolding all_made_def report_fold_sent by (auto intro: made_scc)
  then show "all_made env s \<Longrightarrow> all_made env (report_sccs env evt s)" by (simp add: report_sccs_def Let_def)
qed

lemma all_made_event: "all_made env s \<Longrightarrow> all_made env (fst (engine_event env evt s))"
  by (simp add: engine_event_def detect_sccs_def Let_def all_made_port_scan all_made_report split: sum.split)

lemma all_made_run: "all_made env s \<Longrightarrow> all_made env (fst (event_run env es s))"
proof (induction es arbitrary: s)
  case (Cons e es)
  from all_made_event [OF Cons.prems, of e] Cons.IH show ?case
    by (auto split: prod.split option.split)
qed simp

lemma port_scan_details_json: "\<exists>d. json_text (port_scan_details f t l src) d"
  unfolding port_scan_details_def
  by (rule exI, rule json_object)
    (rule list.rel_intros field_text json_int json_ip json_plain json_text_nat | simp add: escape_char_def dash_def)+

lemma blast_details_json: "\<exists>d. json_text (blast_radius_details src k r) d"
proof -
  have "json_text ((\<lambda>(v, dist). ''{'' @ commas [field ''ip'' (qu (ip_to_string v)), field ''hops'' (int_to_string dist)] @ ''}'') x)
      ((\<lambda>(v, dist). JObject [(''ip'', JString (ip_to_string v)), (''hops'', JNumber dist)]) x)" for x
    unfolding case_prod_beta
    by (rule json_object) (rule list.rel_intros field_text json_int json_ip | simp add: escape_char_def)+
  note hops = json_array [OF this]
  show ?thesis
    unfolding blast_radius_details_def
    by (rule exI, rule json_object)
      (rule list.rel_intros field_text json_int json_ip json_text_nat hops | simp add: escape_char_def)+
qed

lemma scc_details_json: "\<exists>d. json_text (scc_details vs) d"
  unfolding scc_details_def
  by (rule exI, rule json_object)
    (rule list.rel_intros field_text json_ip json_plain json_text_nat json_array [OF json_ip] | simp add: escape_char_def dash_def)+

lemma printable_details:
  "printable (port_scan_details f t l src)" "printable (blast_radius_details src k r)" "printable (scc_details vs)"
  unfolding port_scan_details_def blast_radius_details_def scc_details_def
  by (auto intro!: printable_commas simp: dash_def)

lemma made_by_json:
  assumes "made_by env a"
  shows "al_details a \<noteq> []" and "\<exists>d. json_text (al_details a) d" and "printable (al_details a)"
proof -
  have "port_scan_details f t l src \<noteq> []" "blast_radius_details src k r \<noteq> []" "scc_details vs \<noteq> []" for f t l src k r vs
    by (simp_all add: port_scan_details_def blast_radius_details_def scc_details_def)
  note facts = this port_scan_details_json blast_details_json scc_details_json printable_details
  show "al_details a \<noteq> []" using assms facts by cases (simp_all add: engine_alert_def blast_alert_def scc_alert_def)
  show "\<exists>d. json_text (al_details a) d"
    using assms facts by cases (simp_all add: engine_alert_def blast_alert_def scc_alert_def)
  show "printable (al_details a)"
    using assms facts by cases (simp_all add: engine_alert_def blast_alert_def scc_alert_def)
qed

end
