(* ===== verification/EngineSpec.thy ===== *)
theory EngineSpec
  imports EngineRun
begin

text \<open>
  The properties of the event loop of \<open>pipeline/src/engine.cpp\<close>, stated on the lines it reads: what it alerts on,
  the graph it builds, which inputs it survives. The runs start from the estimators the registry hands out.
\<close>

section \<open>Runs from the registry's estimators\<close>

lemma estimators_sides:
  assumes "create estimators nm = Inr e"
  shows "any_inv e []" and "nm \<noteq> ''heavy_hitters'' \<Longrightarrow> any_over e []"
    and "nm \<noteq> ''count_min_sketch'' \<Longrightarrow> any_under e []"
proof -
  show inv: "any_inv e []" by (rule estimators_inv [OF assms])
  have "e = AnyCMS (cms_new 2048 5) \<and> nm = ''count_min_sketch'' \<or> e = AnyHashMap hm_new \<and> nm = ''hash_map_exact'' \<or>
      nm = ''heavy_hitters'' \<and> (\<exists>m. e = AnyHeavy m)"
    using assms by (cases "mg_new 64") (auto simp: estimators_def create_register Let_def create_Nil split: if_splits)
  then show "nm \<noteq> ''heavy_hitters'' \<Longrightarrow> any_over e []" and "nm \<noteq> ''count_min_sketch'' \<Longrightarrow> any_under e []"
    using inv by auto
qed

text \<open>An environment the engine's \<open>main\<close> can set up, and an SCC interval that is one.\<close>

definition engine_ready :: "any_estimator engine_env \<Rightarrow> any_estimator \<Rightarrow> bool" where
  "engine_ready env e \<longleftrightarrow>
     (\<exists>szh szm cap. env_ops env = any_ops szh szm cap) \<and>
     create estimators (ac_name (pc_frequency (env_cfg env))) = Inr e \<and>
     0 < pc_scc_interval_seconds (env_cfg env) \<and> pc_scc_interval_seconds (env_cfg env) * 10 < 2 ^ 31"

definition scc_period :: "'e engine_env \<Rightarrow> nat" where
  "scc_period env = nat (pc_scc_interval_seconds (env_cfg env) * 10)"

lemma ready_scc_every: "engine_ready env e \<Longrightarrow> scc_every env (scc_period env)"
proof -
  let ?n = "pc_scc_interval_seconds (env_cfg env) * 10"
  assume "engine_ready env e"
  then have n: "0 < ?n" "?n < 2 ^ 31" by (simp_all add: engine_ready_def)
  have "uint (word_of_int m :: u64) = m" if "0 < m" "m < 2 ^ 31" for m
    using that by (simp add: uint_word_of_int)
  from this [OF n] have "unat (word_of_int ?n :: u64) = nat ?n" by (simp add: unat_eq_nat_uint)
  moreover have "scc_interval env = Inr (word_of_int ?n)" using n by (simp add: scc_interval_def Let_def)
  ultimately show ?thesis using n(1) unfolding scc_every_def scc_period_def by (intro conjI exI) simp_all
qed

lemma all_readable:
  assumes "list_all readable lines"
  shows "events_of lines = concat (map event_of lines)" and "input_error lines = None"
proof -
  have "takeWhile readable lines = lines" "dropWhile readable lines = []"
    using assms by (auto simp: list_all_iff)
  then show "events_of lines = concat (map event_of lines)" and "input_error lines = None"
    unfolding events_of_def input_error_def by (simp_all only: list.case)
qed

lemma ready_run:
  assumes "engine_ready env e" and "list_all readable lines" and "length lines < 2 ^ 64"
  obtains szh szm cap s d where "env_ops env = any_ops szh szm cap"
    "event_loop env lines (engine_start e) = (s, None)"
    "event_run env (events_of lines) (engine_start e) = (s, None)" "length (events_of lines) < 2 ^ 64"
    "process_all (any_ops szh szm cap) (map scan_of (events_of lines))
       (fresh_detector (any_ops szh szm cap) (scan_config env) e) = Inr d" "same_scans env s d"
proof -
  from assms(1) obtain szh szm cap where ops: "env_ops env = any_ops szh szm cap"
    and e: "create estimators (ac_name (pc_frequency (env_cfg env))) = Inr e"
    by (auto simp: engine_ready_def)
  note all = all_readable [OF assms(2)]
  have "length (event_of l) \<le> 1" for l by (simp split: sum.split option.split)
  then have "length (concat (map event_of ls)) \<le> length ls" for ls
  proof (induction ls)
    case (Cons l ls)
    from Cons.IH [OF Cons.prems] Cons.prems [of l] show ?case by (simp del: event_of.simps)
  qed simp
  then have len: "length (events_of lines) < 2 ^ 64"
    using assms(3) unfolding all(1) by (rule le_less_trans)
  from any.engine_run_ok [OF estimators_sides(1) [OF e] ready_scc_every [OF assms(1)] ops len]
  obtain s d where sd: "event_run env (events_of lines) (engine_start e) = (s, None)"
    "process_all (any_ops szh szm cap) (map scan_of (events_of lines))
       (fresh_detector (any_ops szh szm cap) (scan_config env) e) = Inr d" "same_scans env s d" by blast
  have "event_loop env lines (engine_start e) = (s, None)"
    by (simp add: event_loop_events sd(1) all(2))
  from that [OF ops this sd(1) len sd(2,3)] show thesis .
qed

lemma finite_section: "finite {i. (i, x) \<in> set T}"
  by (rule finite_subset [of _ "fst ` set T"]) (auto intro: rev_image_eqI)

lemma finite_counted: "finite {i. n < count_list T (i, x)}"
proof (rule finite_subset [OF _ finite_section [of x T]], clarify)
  fix i
  assume "n < count_list T (i, x)"
  then show "(i, x) \<in> set T" using count_list_0_iff [of T "(i, x)"] by fastforce
qed

lemma ip_to_string_inject [simp]: "ip_to_string a = ip_to_string b \<longleftrightarrow> a = b"
  by (metis parse_ip_to_string sum.inject(2))

lemma scans_of_source:
  assumes "same_scans env s d" and "distinct (alert_tags d)"
  shows "length (filter (\<lambda>a. al_type a = ''port_scan'' \<and> al_source a = ip_to_string src) (en_sent s)) =
    card {i. (i, src) \<in> set (alert_tags d)}"
proof -
  have "filter (\<lambda>a. al_type a = ''port_scan'' \<and> al_source a = ip_to_string src) (en_sent s) =
      filter (\<lambda>a. al_source a = ip_to_string src) (of_type ''port_scan'' (en_sent s))"
    by (simp add: of_type_def conj_commute)
  also have "\<dots> = map (scan_to_alert env) (filter (\<lambda>a. sa_src_ip a = src) (alerts d))"
    using assms(1) by (simp add: same_scans_def filter_map comp_def scan_to_alert_def engine_alert_def)
  finally have "length (filter (\<lambda>a. al_type a = ''port_scan'' \<and> al_source a = ip_to_string src) (en_sent s)) =
      length (filter (\<lambda>(i, x). x = src) (alert_tags d))"
    by (simp add: filter_map comp_def alert_tag_def)
  also have "\<dots> = card (set (filter (\<lambda>(i, x). x = src) (alert_tags d)))"
    by (rule distinct_card [symmetric]) (rule distinct_filter [OF assms(2)])
  also have "set (filter (\<lambda>(i, x). x = src) (alert_tags d)) = (\<lambda>i. (i, src)) ` {i. (i, src) \<in> set (alert_tags d)}"
    by auto
  also have "card \<dots> = card {i. (i, src) \<in> set (alert_tags d)}"
    by (rule card_image) (simp add: inj_on_def)
  finally show ?thesis .
qed

text \<open>The windows in which the engine alerts on a source, against those in which the source is over the threshold.\<close>

lemma ready_scan_windows:
  assumes "engine_ready env e" and "list_all readable lines" and "length lines < 2 ^ 64"
  obtains s d where "event_loop env lines (engine_start e) = (s, None)"
    "same_scans env s d" "distinct (alert_tags d)"
    "\<forall>src. ac_name (pc_frequency (env_cfg env)) \<noteq> ''heavy_hitters'' \<longrightarrow>
       {i. unat (word_of_int (env_threshold env) :: u64) <
          count_list (tags (window_ns env) (map scan_of (events_of lines))) (i, src)} \<subseteq> {i. (i, src) \<in> set (alert_tags d)}"
    "\<forall>src. ac_name (pc_frequency (env_cfg env)) \<noteq> ''count_min_sketch'' \<longrightarrow>
       {i. (i, src) \<in> set (alert_tags d)} \<subseteq> {i. unat (word_of_int (env_threshold env) :: u64) <
          count_list (tags (window_ns env) (map scan_of (events_of lines))) (i, src)}"
proof -
  obtain szh szm cap s d where s: "event_loop env lines (engine_start e) = (s, None)"
    and len: "length (events_of lines) < 2 ^ 64"
    and d: "process_all (any_ops szh szm cap) (map scan_of (events_of lines))
       (fresh_detector (any_ops szh szm cap) (scan_config env) e) = Inr d" "same_scans env s d"
    using ready_run [OF assms] by metis
  let ?es = "map scan_of (events_of lines)" let ?nm = "ac_name (pc_frequency (env_cfg env))"
  let ?c = "scan_config env"
  have e: "create estimators ?nm = Inr e" using assms(1) by (simp add: engine_ready_def)
  have len': "length ?es < 2 ^ 64" using len by simp
  have "det_inv any_inv ?c ?es d"
    using any.run_ok [OF estimators_sides(1) [OF e] len', of szh szm cap ?c] d(1) by simp
  then have dist: "distinct (alert_tags d)" by (simp add: det_inv_def)
  have cfg: "dc_threshold ?c = word_of_int (env_threshold env)" "dc_window_ns ?c = window_ns env"
    by (simp_all add: scan_config_def)
  have over: "{i. unat (dc_threshold ?c) < count_list (tags (dc_window_ns ?c) ?es) (i, src)} \<subseteq>
      {i. (i, src) \<in> set (alert_tags d)}" if "?nm \<noteq> ''heavy_hitters''" for src
    using alerts_complete_all any_over.run_complete [OF estimators_sides(2) [OF e that] len' d(1)] by blast
  have under: "{i. (i, src) \<in> set (alert_tags d)} \<subseteq>
      {i. unat (dc_threshold ?c) < count_list (tags (dc_window_ns ?c) ?es) (i, src)}" if "?nm \<noteq> ''count_min_sketch''" for src
    using any_under.run_sound [OF estimators_sides(3) [OF e that] len' d(1)] by (auto simp: alerts_sound_def)
  from that [OF s d(2) dist] over under show thesis unfolding cfg by simp
qed


definition demo_pipeline :: pipeline_config where
  "demo_pipeline = default_config
     \<lparr>pc_frequency := default_algorithm\<lparr>ac_name := ''hash_map_exact'', ac_threshold := 1\<rparr>,
      pc_scc_interval_seconds := 1\<rparr>"

definition demo_env :: "any_estimator engine_env" where
  "demo_env = \<lparr>env_ops = any_ops 0 0 (\<lambda>_. 0), env_scc = UseTarjan, env_reach = UseBFS, env_trie = lpm_new,
     env_cfg = demo_pipeline, env_node = ''node-1'', env_namespace = ''''\<rparr>"

definition demo_line :: "u32 \<Rightarrow> u32 \<Rightarrow> string" where
  "demo_line a b = event_json \<lparr>src_ip = a, dst_ip = b, dst_port = 80, pid = 1, timestamp_ns = 5\<rparr>"

lemma demo_ready: "engine_ready demo_env (AnyHashMap hm_new)"
  by (auto simp: engine_ready_def demo_env_def demo_pipeline_def default_config_def default_algorithm_def
      estimators_def create_register Let_def)

lemma demo_readable: "parse_event (demo_line a b) =
    Inr (Some \<lparr>src_ip = ntohl a, dst_ip = ntohl b, dst_port = 80, pid = 1, timestamp_ns = 5\<rparr>)"
  by (simp add: demo_line_def parse_event_json)

lemma demo_period: "scc_period demo_env = 10"
  by (simp add: scc_period_def demo_env_def demo_pipeline_def)

text \<open>The two cycles 1-2 and 3-4, joined between the first and the second check, and the new cycle 5-6 after it.\<close>

definition merge_events :: "net_event list" where
  "merge_events = map (\<lambda>(a, b). \<lparr>src_ip = a, dst_ip = b, dst_port = 80, pid = 1, timestamp_ns = 5\<rparr>)
     ([(1, 2), (2, 1), (3, 4), (4, 3)] @ replicate 6 (1, 2) @
      [(2, 3), (3, 2)] @ replicate 8 (1, 2) @
      [(5, 6), (6, 5)] @ replicate 8 (1, 2))"

lemma engine_refines_helper:
  assumes "event_loop env lines (engine_start e) = (s, None)"
  shows "event_run env (events_of lines) (engine_start e) = (s, None)"
  using assms by (auto simp: event_loop_events split: prod.splits option.splits)

text \<open>C14: The engine's scan detection refines the port-scan tool's detector, whatever the estimator: on every input it reads to
  the end, the \<open>port_scan\<close> alerts it sends are those of the detector with the same threshold and window,
  rendered, one for one and in order; and each is followed by a \<open>blast_radius\<close> alert exactly when the
  source was already a vertex of the graph of the events before, with the vertices reachable in that graph.\<close>

theorem engine_refines_detector:
  assumes "event_loop env lines (engine_start e) = (s, None)" and "length (events_of lines) < 2 ^ 64"
  shows "\<exists>d. process_all (env_ops env) (map scan_of (events_of lines))
        (fresh_detector (env_ops env) (scan_config env) e) = Inr d \<and>
     of_type ''port_scan'' (en_sent s) = map (scan_to_alert env) (alerts d) \<and>
     of_type ''blast_radius'' (en_sent s) = concat (map (blast_for env (events_of lines)) (alerts d))"
proof -
  note run = engine_refines_helper [OF assms(1)]
  from event_run_scan [OF run] obtain d where
    d: "process_all (env_ops env) (map scan_of (events_of lines)) (fresh_detector (env_ops env) (scan_config env) e) = Inr d"
      "same_scans env s d" by blast
  from event_run_blast [OF assms(2) run d(1)] d show ?thesis by (auto simp: same_scans_def)
qed

text \<open>C5: The graph of the engine is the graph of the traffic it read: its vertices are the addresses that occur, its edges the
  pairs source, destination, each stored and counted once, in whatever order and however often they came.\<close>

theorem engine_graph_is_traffic:
  assumes "event_loop env lines (engine_start e) = (s, None)"
  shows "(\<forall>v. has_vertex (en_graph s) v \<longleftrightarrow> (\<exists>evt \<in> set (events_of lines). v = src_ip evt \<or> v = dst_ip evt)) \<and>
     (\<forall>u v. has_edge (en_graph s) u v \<longleftrightarrow> (\<exists>evt \<in> set (events_of lines). u = src_ip evt \<and> v = dst_ip evt)) \<and>
     num_vertices (en_graph s) = card (\<Union>evt \<in> set (events_of lines). {src_ip evt, dst_ip evt}) \<and>
     num_edges (en_graph s) = card ((\<lambda>evt. (src_ip evt, dst_ip evt)) ` set (events_of lines))"
proof -
  have g: "en_graph s = graph_of (events_of lines)"
    by (rule event_run_graph [OF engine_refines_helper [OF assms]])
  have "num_edges (graph_of es) = card (edges (graph_of es))" for es
    using graph_of_ok [of es] by (simp add: graph_ok_def num_edges_def)
  then show ?thesis
    unfolding g by (auto simp: has_vertex_iff has_edge_iff num_vertices_card graph_of_ok graph_of_sets)
qed

text \<open>C7: The component alerts of the engine, exactly: it checks the graph every \<open>scc_interval_seconds * 10\<close> events, and a
  check with more non-trivial components than every check before it reports each of them once; what a
  check sees are the classes of two or more mutually reachable addresses.\<close>

theorem engine_scc_alerts:
  assumes "engine_ready env e" and "list_all readable lines" and "length lines < 2 ^ 64"
  shows "\<exists>s. event_loop env lines (engine_start e) = (s, None) \<and>
    of_type ''scc_anomaly'' (en_sent s) = scc_alerts env (scc_period env) (events_of lines) \<and>
    (\<forall>k. set ` set (sccs_at env (events_of lines) k) =
       {C \<in> verts (graph_of (take k (events_of lines))) // mutual (graph_of (take k (events_of lines))). 1 < card C})"
proof -
  obtain szh szm cap s d where s: "event_loop env lines (engine_start e) = (s, None)"
    "event_run env (events_of lines) (engine_start e) = (s, None)" "length (events_of lines) < 2 ^ 64"
    using ready_run [OF assms] by metis
  have "set ` set (sccs_at env es k) = {C \<in> verts (graph_of (take k es)) // mutual (graph_of (take k es)). 1 < card C}" for es k
  proof -
    let ?g = "graph_of (take k es)" let ?cs = "found_sccs (env_scc env) ?g"
    have "distinct c" if "c \<in> set ?cs" for c
      using find_sccs_ok(2) [OF graph_of_ok, of "take k es" "env_scc env"] that by (auto simp: sccs_of_def distinct_concat_iff)
    then have "card (set c) = length c" if "c \<in> set ?cs" for c using that by (simp add: distinct_card)
    then have "set ` set (sccs_at env es k) = {C \<in> set ` set ?cs. 1 < card C}" by (auto simp: sccs_at_def)
    then show ?thesis by (simp add: chosen.classes [OF graph_of_ok])
  qed
  then show ?thesis using s(1) event_run_sccs [OF s(3,2) ready_scc_every [OF assms(1)]] by blast
qed


text \<open>A run on three lines of the collector, and one on a line with a bad address.\<close>

definition demo_lines :: "string list" where
  "demo_lines = [demo_line 1 2, ''not an event'', demo_line 1 3, demo_line 1 2]"

lemma demo_events_of:
  "list_all readable demo_lines"
  "events_of demo_lines = map (\<lambda>(a, b). \<lparr>src_ip = ntohl a, dst_ip = ntohl b, dst_port = 80, pid = 1, timestamp_ns = 5\<rparr>)
     [(1, 2), (1, 3), (1, 2)]"
proof -
  have "parse_event ''not an event'' = Inr None" by (simp add: parse_event_def)
  then show "list_all readable demo_lines"
    "events_of demo_lines = map (\<lambda>(a, b). \<lparr>src_ip = ntohl a, dst_ip = ntohl b, dst_port = 80, pid = 1, timestamp_ns = 5\<rparr>)
     [(1, 2), (1, 3), (1, 2)]"
    by (simp_all add: demo_lines_def demo_readable events_of_def)
qed

lemma demo_run: "\<exists>s. event_loop demo_env demo_lines (engine_start (AnyHashMap hm_new)) = (s, None)"
proof -
  have "length demo_lines < 2 ^ 64" by (simp add: demo_lines_def)
  from ready_run [OF demo_ready demo_events_of(1) this] show ?thesis by metis
qed

lemma demo_tags2:
  "count_list (tags (window_ns demo_env) (map scan_of (events_of demo_lines))) (0, ntohl 1) = 3"
  unfolding demo_events_of(2) by code_simp


theorem engine_refines_detector_witness:
  "\<exists>s d. event_loop demo_env demo_lines (engine_start (AnyHashMap hm_new)) = (s, None) \<and>
     of_type ''port_scan'' (en_sent s) = map (scan_to_alert demo_env) (alerts (d :: any_estimator detector))"
proof -
  obtain s where s: "event_loop demo_env demo_lines (engine_start (AnyHashMap hm_new)) = (s, None)"
    using demo_run by blast
  have "length (events_of demo_lines) < 2 ^ 64" by (simp add: demo_events_of(2))
  from engine_refines_detector [OF s this] s show ?thesis by blast
qed

theorem engine_graph_is_traffic_witness:
  "\<exists>s. event_loop demo_env demo_lines (engine_start (AnyHashMap hm_new)) = (s, None) \<and>
     has_edge (en_graph s) (ntohl 1) (ntohl 3) \<and> num_edges (en_graph s) = 2"
proof -
  obtain s where s: "event_loop demo_env demo_lines (engine_start (AnyHashMap hm_new)) = (s, None)"
    using demo_run by blast
  have "ntohl 2 \<noteq> ntohl 3" by code_simp
  moreover have "{(ntohl 1, ntohl 2), (ntohl 1, ntohl 3), (ntohl 1, ntohl 2)} = {(ntohl 1, ntohl 2), (ntohl 1, ntohl 3)}"
    by blast
  ultimately show ?thesis using engine_graph_is_traffic [OF s] s by (auto simp: demo_events_of(2))
qed

theorem engine_scc_alerts_witness:
  "\<exists>s. event_loop demo_env demo_lines (engine_start (AnyHashMap hm_new)) = (s, None) \<and>
     of_type ''scc_anomaly'' (en_sent s) = scc_alerts demo_env 10 (events_of demo_lines)"
proof -
  have l: "length demo_lines < 2 ^ 64" by (simp add: demo_lines_def)
  from engine_scc_alerts [OF demo_ready demo_events_of(1) l] show ?thesis by (auto simp: demo_period)
qed


text \<open>An SCC interval of zero seconds passes the configuration and traps on the first event: the count of events is
  taken modulo zero, whatever the estimator of the registry and the event.\<close>

theorem zero_interval_traps:
  assumes "create estimators nm = Inr e" and "env_ops env = any_ops szh szm cap"
    and "pc_scc_interval_seconds (env_cfg env) = 0" and "parse_event line = Inr (Some evt)"
  shows "snd (event_loop env (line # lines) (engine_start e)) = Some DivideByZero"
proof -
  let ?ops = "any_ops szh szm cap"
  have same: "same_scans env (engine_start e) (fresh_detector ?ops (scan_config env) e)"
    by (rule same_scans_start)
  have inv: "det_inv any_inv (scan_config env) [] (fresh_detector ?ops (scan_config env) e)"
    using estimators_inv [OF assms(1)] by (rule det_inv_fresh)
  obtain d' em where p: "process ?ops (scan_of evt) (fresh_detector ?ops (scan_config env) e) = Inr (d', em)"
    by (rule any.process_step [OF inv, of "scan_of evt" szh szm cap]) simp_all
  have int: "scc_interval env = Inr 0" using assms(3) by (simp add: scc_interval_def)
  have "en_estimator (open_window env evt (engine_start e)) =
      estimator (maybe_reset_window ?ops (timestamp_ns evt) (fresh_detector ?ops (scan_config env) e))"
    using same_scans_window(1) [OF same, of evt] by (simp add: same_scans_def assms(2))
  with p have "snd (engine_event env evt (engine_start e)) = Some DivideByZero"
    by (auto simp: process_def engine_event_def Let_def bind_res_eq_Inr assms(2) detect_sccs_def int)
  then show ?thesis
    by (cases "engine_event env evt (engine_start e)") (simp add: engine_line_def assms(4))
qed

theorem zero_interval_traps_witness:
  "snd (event_loop (demo_env\<lparr>env_cfg := demo_pipeline\<lparr>pc_scc_interval_seconds := 0\<rparr>\<rparr>) [demo_line 1 2]
     (engine_start (AnyHashMap hm_new))) = Some DivideByZero"
proof (rule zero_interval_traps)
  show "create estimators ''hash_map_exact'' = Inr (AnyHashMap hm_new)"
    by (simp add: estimators_def create_register Let_def)
  show "env_ops (demo_env\<lparr>env_cfg := demo_pipeline\<lparr>pc_scc_interval_seconds := 0\<rparr>\<rparr>) = any_ops 0 0 (\<lambda>_. 0)"
    by (simp add: demo_env_def)
qed (simp_all add: demo_readable)

lemma merge_run:
  "(case event_run demo_env merge_events (engine_start (AnyHashMap hm_new)) of (s, r) \<Rightarrow>
      (r, map al_source (of_type ''scc_anomaly'' (en_sent s)), has_edge (en_graph s) 5 6, has_edge (en_graph s) 6 5,
       en_prev_nontrivial_sccs s, count_nontrivial (en_last_sccs s))) =
   (None, [''0.0.0.2'', ''0.0.0.4''], True, True, 2, 2)"
  by code_simp

definition merge_lines :: "string list" where
  "merge_lines = map (\<lambda>e. demo_line (ntohl (src_ip e)) (ntohl (dst_ip e))) merge_events"

lemma merge_lines_events: "events_of merge_lines = merge_events" "input_error merge_lines = None"
proof -
  have "list_all (\<lambda>e. ntohl (ntohl (src_ip e)) = src_ip e \<and> ntohl (ntohl (dst_ip e)) = dst_ip e \<and>
      dst_port e = 80 \<and> pid e = 1 \<and> timestamp_ns e = 5) merge_events"
    by code_simp
  then have p: "parse_event (demo_line (ntohl (src_ip e)) (ntohl (dst_ip e))) = Inr (Some e)" if "e \<in> set merge_events" for e
    using that by (auto simp: demo_readable list_all_iff)
  then have "list_all readable merge_lines" by (auto simp: merge_lines_def list_all_iff)
  note all = all_readable [OF this]
  have "concat (map event_of (map (\<lambda>e. demo_line (ntohl (src_ip e)) (ntohl (dst_ip e))) es)) = es"
    if "set es \<subseteq> set merge_events" for es
    using that by (induction es) (simp_all add: p)
  from this [OF subset_refl] show "events_of merge_lines = merge_events" "input_error merge_lines = None"
    using all by (simp_all add: merge_lines_def del: map_map)
qed


end
