(* ===== verification/Pipeline.thy ===== *)
theory Pipeline
  imports EngineSpec
begin

text \<open>
  \<open>main\<close> of the pipeline engine (\<open>pipeline/src/engine.cpp\<close>): command line, configuration file, the algorithms
  from the registries, the networks, the event source, the alert handlers, the event loop and the two
  report files.

  \<open>world\<close> is what the program reads; \<open>io\<close> what it writes. A path of \<open>w_writable\<close> can be opened for writing after
  the program's \<open>mkdir -p\<close>. An exception nobody catches and a trap end the process (\<open>Terminated\<close>).
\<close>

section \<open>The command line\<close>

text \<open>\<open>None\<close>: the help text was asked for. The argument after \<open>--config\<close> is also compared with \<open>--help\<close>.\<close>

fun parse_engine_args :: "string list \<Rightarrow> string \<Rightarrow> string option" where
  "parse_engine_args [] config_path = Some config_path"
| "parse_engine_args [a] config_path = (if a = ''--help'' \<or> a = ''-h'' then None else Some config_path)"
| "parse_engine_args (a # b # args) config_path =
     (if a = ''--config'' \<or> a = ''-c''
      then (if b = ''--help'' \<or> b = ''-h'' then None else parse_engine_args args b)
      else if a = ''--help'' \<or> a = ''-h'' then None
      else parse_engine_args (b # args) config_path)"

section \<open>What the program reads\<close>

record world =
  w_files :: "string \<Rightarrow> string option"
  w_writable :: "string \<Rightarrow> bool"
  w_stdin :: string
  w_getenv :: "string \<Rightarrow> string option"

definition resolve_node_name :: "world \<Rightarrow> string \<Rightarrow> string" where
  "resolve_node_name w from_config =
     (if from_config \<noteq> [] then from_config
      else case w_getenv w ''NODE_NAME'' of
        Some e \<Rightarrow> e
      | None \<Rightarrow> (case w_getenv w ''HOSTNAME'' of Some e \<Rightarrow> e | None \<Rightarrow> ''''))"

definition resolve_namespace :: "world \<Rightarrow> string \<Rightarrow> string" where
  "resolve_namespace w from_config =
     (if from_config \<noteq> [] then from_config
      else case w_getenv w ''POD_NAMESPACE'' of Some e \<Rightarrow> e | None \<Rightarrow> '''')"

definition config_candidates :: "string \<Rightarrow> string list" where
  "config_candidates config_path =
     [config_path, ''../'' @ config_path, ''../../'' @ config_path,
      ''/home/john/dev/Gradution-Reports/'' @ config_path]"

definition resolve_config :: "world \<Rightarrow> string \<Rightarrow> string option" where
  "resolve_config w config_path = List.find (\<lambda>p. w_files w p \<noteq> None) (config_candidates config_path)"

definition event_source :: "world \<Rightarrow> pipeline_config \<Rightarrow> string option" where
  "event_source w c =
     (if pc_event_source_type c = ''file'' then w_files w (pc_event_source_path c) else Some (w_stdin w))"

section \<open>\<open>main\<close>\<close>

definition make_env ::
  "any_estimator estimator_ops \<Rightarrow> world \<Rightarrow> pipeline_config \<Rightarrow> (any_estimator engine_env \<times> any_estimator) res" where
  "make_env ops w c =
     bind_res (create estimators (ac_name (pc_frequency c))) (\<lambda>e.
     bind_res (create detectors (ac_name (pc_scc c))) (\<lambda>d.
     bind_res (create analysers (ac_name (pc_reachability c))) (\<lambda>r.
     bind_res (create classifiers (ac_name (pc_ip_classifier c))) (\<lambda>t.
     bind_res (load_classifier t c) (\<lambda>t.
       Inr (\<lparr>env_ops = ops, env_scc = d, env_reach = r, env_trie = t, env_cfg = c,
             env_node = resolve_node_name w (pc_node_name c),
             env_namespace = resolve_namespace w (pc_namespace c)\<rparr>, e))))))"

text \<open>\<open>std::ofstream out(path)\<close>; nothing is said when it cannot be opened.\<close>

definition write_whole :: "world \<Rightarrow> string \<Rightarrow> string \<Rightarrow> io \<Rightarrow> io" where
  "write_whole w path s io = (if w_writable w path then io\<lparr>io_files := (io_files io)(path \<mapsto> s)\<rparr> else io)"

datatype exit_status = Exit nat | Terminated error

definition run_engine ::
  "world \<Rightarrow> pipeline_config \<Rightarrow> any_estimator engine_env \<Rightarrow> any_estimator \<Rightarrow> handler list \<Rightarrow> string \<Rightarrow> io \<Rightarrow> exit_status \<times> io" where
  "run_engine w c env e hs input io =
     (case event_loop env (getlines CHR 0x0A input) (engine_start e) of
        (s, r) \<Rightarrow>
          let io = fold (send_to_chain hs) (en_sent s) io in
          case r of
            Some err \<Rightarrow> (Terminated err, io)
          | None \<Rightarrow>
              (case final_report env s of
                 Inl err \<Rightarrow> (Terminated err, io)
               | Inr (snapshot, stats) \<Rightarrow>
                   (Exit 0, write_whole w (pc_stats_file c) stats (write_whole w (pc_graph_file c) snapshot io))))"

definition pipeline_main ::
  "any_estimator estimator_ops \<Rightarrow> u32 \<times> u8 \<times> int \<Rightarrow> world \<Rightarrow> string list \<Rightarrow> io \<Rightarrow> exit_status \<times> io" where
  "pipeline_main ops junk w args io =
     (case parse_engine_args args ''config/pipeline.yaml'' of
        None \<Rightarrow> (Exit 0, io)
      | Some config_path \<Rightarrow>
     (case resolve_config w config_path of
        None \<Rightarrow> (Exit 1, io)
      | Some path \<Rightarrow>
     (case load_config junk path (w_files w path) of
        Inl err \<Rightarrow> (Exit 1, io)
      | Inr c \<Rightarrow>
     (case make_env ops w c of
        Inl err \<Rightarrow> (Terminated err, io)
      | Inr (env, e) \<Rightarrow>
     (case event_source w c of
        None \<Rightarrow> (Exit 1, io)
      | Some input \<Rightarrow>
     (case build_chain (w_writable w) (chain_entries (pc_alert_handlers c) (pc_alerts_file c)) io of
        (Inl err, io) \<Rightarrow> (Exit 1, io)
      | (Inr hs, io) \<Rightarrow> run_engine w c env e hs input io))))))"

section \<open>From the configuration to the loop\<close>

lemma creates:
  "nm \<in> {''count_min_sketch'', ''hash_map_exact'', ''heavy_hitters''} \<Longrightarrow> \<exists>e. create estimators nm = Inr e"
  "nm \<in> {''tarjan'', ''kosaraju''} \<Longrightarrow> \<exists>d. create detectors nm = Inr d"
  "nm \<in> {''bfs'', ''dijkstra''} \<Longrightarrow> \<exists>r. create analysers nm = Inr r"
  "create classifiers ''lpm_trie'' = Inr lpm_new"
  by (auto simp: estimators_def detectors_def analysers_def classifiers_def create_register mg_new_def Let_def)

definition names_ok :: "pipeline_config \<Rightarrow> bool" where
  "names_ok c \<longleftrightarrow>
     ac_name (pc_frequency c) \<in> {''count_min_sketch'', ''hash_map_exact'', ''heavy_hitters''} \<and>
     ac_name (pc_scc c) \<in> {''tarjan'', ''kosaraju''} \<and> ac_name (pc_reachability c) \<in> {''bfs'', ''dijkstra''} \<and>
     ac_name (pc_ip_classifier c) = ''lpm_trie''"

lemma make_env_ok:
  assumes "load_config (p, l, lab) path contents = Inr c" and "unat l \<le> 32" and "names_ok c"
    and "0 < pc_scc_interval_seconds c" and "pc_scc_interval_seconds c * 10 < 2 ^ 31"
  obtains env e where "make_env (any_ops szh szm cap) w c = Inr (env, e)" "engine_ready env e" "env_cfg env = c"
proof -
  obtain e d r where mk: "create estimators (ac_name (pc_frequency c)) = Inr e"
    "create detectors (ac_name (pc_scc c)) = Inr d" "create analysers (ac_name (pc_reachability c)) = Inr r"
    using assms(3) creates(1-3) unfolding names_ok_def by metis
  from load_config_nets_ok [OF assms(1,2)] have "\<forall>(p, len, lab) \<in> set (map net_entry (pc_networks c)). unat len \<le> 32"
    by (auto simp: net_entry_def)
  from lpm_lookup_scan [OF this] obtain t where "load_classifier lpm_new c = Inr t" by (auto simp: load_classifier_all)
  with mk assms(3) have "make_env (any_ops szh szm cap) w c =
      Inr (\<lparr>env_ops = any_ops szh szm cap, env_scc = d, env_reach = r, env_trie = t, env_cfg = c,
             env_node = resolve_node_name w (pc_node_name c),
             env_namespace = resolve_namespace w (pc_namespace c)\<rparr>, e)"
    by (simp add: make_env_def creates(4) names_ok_def)
  then show thesis
  proof (rule that)
    show "engine_ready \<lparr>env_ops = any_ops szh szm cap, env_scc = d, env_reach = r, env_trie = t, env_cfg = c,
             env_node = resolve_node_name w (pc_node_name c),
             env_namespace = resolve_namespace w (pc_namespace c)\<rparr> e"
      unfolding engine_ready_def engine_env.simps
    proof (intro conjI)
      show "\<exists>a b f. any_ops szh szm cap = any_ops a b f" by (intro exI) (rule refl)
    qed (use assms(4,5) mk(1) in simp_all)
  qed simp
qed

lemma write_whole_other [simp]: "p \<noteq> path \<Longrightarrow> io_files (write_whole w path s io) p = io_files io p"
  by (simp add: write_whole_def)

lemma run_engine_io:
  assumes "run_engine w c env e hs input io = (st, io')" and "p \<noteq> pc_graph_file c" and "p \<noteq> pc_stats_file c"
  shows "io_files io' p = io_files (fold (send_to_chain hs)
    (en_sent (fst (event_loop env (getlines CHR 0x0A input) (engine_start e)))) io) p"
  using assms by (auto simp: run_engine_def Let_def split: prod.splits option.splits sum.splits)

text \<open>A run on readable lines ends well, with all events processed.\<close>

lemma ready_run_exits:
  assumes "engine_ready env e" and "list_all readable (getlines CHR 0x0A input)"
    and "length (getlines CHR 0x0A input) < 2 ^ 64"
  obtains s io' where "event_loop env (getlines CHR 0x0A input) (engine_start e) = (s, None)"
    "en_total_events s = of_nat (length (events_of (getlines CHR 0x0A input)))"
    "run_engine w c env e hs input io = (Exit 0, io')"
proof -
  obtain s where s: "event_loop env (getlines CHR 0x0A input) (engine_start e) = (s, None)"
    "event_run env (events_of (getlines CHR 0x0A input)) (engine_start e) = (s, None)"
    "length (events_of (getlines CHR 0x0A input)) < 2 ^ 64"
    using ready_run [OF assms] by metis
  have total: "en_total_events s = of_nat (length (events_of (getlines CHR 0x0A input)))"
    using event_run_sccs [OF s(3,2) ready_scc_every [OF assms(1)]] by blast
  have "graph_ok (en_graph s)" by (simp add: event_run_graph [OF s(2)] graph_of_ok)
  then obtain r where "final_report env s = Inr r" by (simp add: final_report_def find_sccs_ok(1))
  then have "fst (run_engine w c env e hs input io) = Exit 0"
    by (cases r) (simp add: run_engine_def s(1) Let_def)
  then obtain io' where "run_engine w c env e hs input io = (Exit 0, io')"
    by (cases "run_engine w c env e hs input io") simp
  from that [OF s(1) total this] show thesis .
qed

text \<open>What a file handler's file holds after a run, and that each of its lines is the object of its alert.\<close>

lemma run_sent:
  assumes "s = fst (event_loop env lines (engine_start e))"
  shows "\<forall>a \<in> set (en_sent s). made_by env a" and "en_alerts_count s = of_nat (length (en_sent s))"
    and "\<forall>a \<in> set (en_sent s). \<exists>d. json_text (to_json a) (alert_object a d)"
proof -
  have s: "s = fst (event_run env (events_of lines) (engine_start e))"
    by (simp add: assms event_loop_events split: prod.split option.split)
  have "all_made env (engine_start e)" "counted (engine_start e)"
    by (simp_all add: all_made_def counted_def engine_start_def)
  then show made: "\<forall>a \<in> set (en_sent s). made_by env a" and "en_alerts_count s = of_nat (length (en_sent s))"
    unfolding s using all_made_run counted_run unfolding all_made_def counted_def by blast+
  show "\<forall>a \<in> set (en_sent s). \<exists>d. json_text (to_json a) (alert_object a d)"
  proof
    fix a
    assume "a \<in> set (en_sent s)"
    then show "\<exists>d. json_text (to_json a) (alert_object a d)"
      using made_by_json [of env a] made to_json_text [of a] by auto
  qed
qed

lemma run_alert_file:
  assumes "build_chain can_open specs io0 = (Inr hs, io)" and "FileHandler path fd \<in> set hs"
    and "path \<noteq> pc_graph_file c" and "path \<noteq> pc_stats_file c"
    and "run_engine w c env e hs input io = (st, io')"
  obtains t where "io_files io' path = Some t"
    "getlines CHR 0x0A t = map to_json (en_sent (fst (event_loop env (getlines CHR 0x0A input) (engine_start e))))"
proof -
  let ?s = "fst (event_loop env (getlines CHR 0x0A input) (engine_start e))"
  have "\<forall>a \<in> set (en_sent ?s). printable (al_details a)"
    using run_sent(1) [OF refl, of env "getlines CHR 0x0A input" e] made_by_json(3) by blast
  from files_hold_lines [OF assms(1,2) this] obtain t where
    "io_files (fold (send_to_chain hs) (en_sent ?s) io) path = Some t" "getlines CHR 0x0A t = map to_json (en_sent ?s)"
    by blast
  with that show thesis by (simp only: run_engine_io [OF assms(5,3,4)])
qed

section \<open>Properties\<close>

text \<open>C4: The alert file is the ledger of the run, also of one that dies of an exception: whatever the input, the file of
  every file handler holds one line per alert raised, in order, each line one JSON object with the members
  of that alert, and as many lines as the engine counted.\<close>

theorem alert_file_is_ledger:
  assumes "build_chain can_open specs io0 = (Inr hs, io)" and "FileHandler path fd \<in> set hs"
    and "path \<noteq> pc_graph_file c" and "path \<noteq> pc_stats_file c"
    and "run_engine w c env e hs input io = (st, io')"
  shows "let s = fst (event_loop env (getlines CHR 0x0A input) (engine_start e)) in
    \<exists>t. io_files io' path = Some t \<and> getlines CHR 0x0A t = map to_json (en_sent s) \<and>
      en_alerts_count s = of_nat (length (getlines CHR 0x0A t)) \<and>
      list_all2 (\<lambda>line a. \<exists>d. json_text line (alert_object a d)) (getlines CHR 0x0A t) (en_sent s)"
proof -
  let ?s = "fst (event_loop env (getlines CHR 0x0A input) (engine_start e))"
  obtain t where t: "io_files io' path = Some t" "getlines CHR 0x0A t = map to_json (en_sent ?s)"
    by (rule run_alert_file [OF assms])
  moreover have "list_all2 (\<lambda>line a. \<exists>d. json_text line (alert_object a d)) (map to_json (en_sent ?s)) (en_sent ?s)"
    using run_sent(3) [OF refl, of env "getlines CHR 0x0A input" e] by (simp add: list_all2_conv_all_nth)
  ultimately show ?thesis using run_sent(2) [OF refl, of env "getlines CHR 0x0A input" e] by (simp add: Let_def)
qed

text \<open>C15: The program runs to its end: with a configuration that loads, names registered algorithms and has an SCC interval
  from 1 to 214748364 seconds, with handlers that can be made and an input whose lines are all readable
  (fewer than 2^64), \<open>main\<close> exits with 0, after it has processed every event of the input.\<close>

theorem pipeline_completes:
  assumes "parse_engine_args args ''config/pipeline.yaml'' = Some config_path"
    and "resolve_config w config_path = Some path"
    and "load_config (p, l, lab) path (w_files w path) = Inr c" and "unat l \<le> 32" and "names_ok c"
    and "0 < pc_scc_interval_seconds c" and "pc_scc_interval_seconds c * 10 < 2 ^ 31"
    and "event_source w c = Some input"
    and "build_chain (w_writable w) (chain_entries (pc_alert_handlers c) (pc_alerts_file c)) io0 = (Inr hs, io)"
    and "list_all readable (getlines CHR 0x0A input)" and "length (getlines CHR 0x0A input) < 2 ^ 64"
  shows "\<exists>env e s io'. make_env (any_ops szh szm cap) w c = Inr (env, e) \<and>
     event_loop env (getlines CHR 0x0A input) (engine_start e) = (s, None) \<and>
     en_total_events s = of_nat (length (events_of (getlines CHR 0x0A input))) \<and>
     pipeline_main (any_ops szh szm cap) (p, l, lab) w args io0 = (Exit 0, io')"
proof -
  obtain env e where env: "make_env (any_ops szh szm cap) w c = Inr (env, e)" "engine_ready env e"
    by (rule make_env_ok [OF assms(3-7)])
  obtain s io' where s: "event_loop env (getlines CHR 0x0A input) (engine_start e) = (s, None)"
    "en_total_events s = of_nat (length (events_of (getlines CHR 0x0A input)))"
    and run: "run_engine w c env e hs input io = (Exit 0, io')"
    by (rule ready_run_exits [OF env(2) assms(10,11)])
  have "pipeline_main (any_ops szh szm cap) (p, l, lab) w args io0 = (Exit 0, io')"
    by (simp add: pipeline_main_def assms env(1) run)
  with env(1) s show ?thesis by blast
qed

text \<open>A deployment: a configuration file, the events on standard input, the default alert file.\<close>

definition demo_yaml :: string where
  "demo_yaml = concat (map (\<lambda>l. l @ [CHR 0x0A])
     [''algorithms:'', ''  frequency_estimator:'', ''    name: hash_map_exact'', ''  scc_detector:'',
      ''    name: tarjan'', ''  reachability:'', ''    name: bfs'', ''  ip_classifier:'', ''    name: lpm_trie'',
      ''networks:'', ''  - cidr: 10.244.0.0/16'', ''    label: 1'', ''    name: pods''])"

definition demo_world :: world where
  "demo_world =
     \<lparr>w_files = [''config/pipeline.yaml'' \<mapsto> demo_yaml], w_writable = (\<lambda>_. True),
      w_stdin = concat (map (\<lambda>l. l @ [CHR 0x0A]) [demo_line 1 2, demo_line 2 1]), w_getenv = (\<lambda>_. None)\<rparr>"

lemma demo_yaml_loads:
  obtains c where "load_config (0, 0, 0) ''config/pipeline.yaml'' (w_files demo_world ''config/pipeline.yaml'') = Inr c"
    "names_ok c" "pc_scc_interval_seconds c = 10" "pc_event_source_type c = ''''" "pc_alert_handlers c = []"
    "pc_alerts_file c = ''output/alerts.json''"
    "pc_graph_file c = ''output/graph.json''" "pc_stats_file c = ''output/stats.json''"
proof -
  have "map_sum id (\<lambda>c. (names_ok c, pc_scc_interval_seconds c, pc_event_source_type c, pc_alert_handlers c = [],
        pc_alerts_file c, pc_graph_file c, pc_stats_file c))
      (load_config (0, 0, 0) ''config/pipeline.yaml'' (w_files demo_world ''config/pipeline.yaml'')) =
    Inr (True, 10, '''', True, ''output/alerts.json'', ''output/graph.json'', ''output/stats.json'')"
    unfolding demo_world_def world.simps fun_upd_same demo_yaml_def by code_simp
  then show thesis
    by (cases "load_config (0, 0, 0) ''config/pipeline.yaml'' (w_files demo_world ''config/pipeline.yaml'')")
      (auto intro: that)
qed

lemma demo_input: "getlines CHR 0x0A (w_stdin demo_world) = [demo_line 1 2, demo_line 2 1]"
proof -
  have "\<forall>l \<in> set [demo_line 1 2, demo_line 2 1]. CHR 0x0A \<notin> set l"
    by (simp add: demo_line_def event_json_line)
  from getlines_lines [OF this] show ?thesis by (simp add: demo_world_def)
qed

lemma demo_chain:
  "build_chain (\<lambda>_. True) (chain_entries [] ''output/alerts.json'') no_io =
     (Inr [FileHandler ''output/alerts.json'' 0], snd (open_trunc ''output/alerts.json'' no_io))"
  by (simp add: build_chain_def chain_entries_def create_handler_def alert_handlers_lookup make_file_alert_handler_def
      get_def open_trunc_def no_io_def Let_def)

theorem pipeline_completes_witness:
  "\<exists>io'. pipeline_main (any_ops 0 0 (\<lambda>_. 0)) (0, 0, 0) demo_world [] no_io = (Exit 0, io')"
proof -
  obtain c where c: "load_config (0, 0, 0) ''config/pipeline.yaml'' (w_files demo_world ''config/pipeline.yaml'') = Inr c"
    "names_ok c" "pc_scc_interval_seconds c = 10" "pc_event_source_type c = ''''" "pc_alert_handlers c = []"
    "pc_alerts_file c = ''output/alerts.json''"
    by (rule demo_yaml_loads)
  have a: "parse_engine_args [] ''config/pipeline.yaml'' = Some ''config/pipeline.yaml''" by simp
  have r: "resolve_config demo_world ''config/pipeline.yaml'' = Some ''config/pipeline.yaml''"
    by (simp add: resolve_config_def config_candidates_def demo_world_def)
  have e: "event_source demo_world c = Some (w_stdin demo_world)" by (simp add: event_source_def c(4))
  have b: "build_chain (w_writable demo_world) (chain_entries (pc_alert_handlers c) (pc_alerts_file c)) no_io =
      (Inr [FileHandler ''output/alerts.json'' 0], snd (open_trunc ''output/alerts.json'' no_io))"
    using demo_chain by (simp add: c(5,6)) (simp add: demo_world_def)
  have i: "0 < pc_scc_interval_seconds c" "pc_scc_interval_seconds c * 10 < 2 ^ 31" by (simp_all add: c(3))
  have l: "list_all readable (getlines CHR 0x0A (w_stdin demo_world))"
    "length (getlines CHR 0x0A (w_stdin demo_world)) < 2 ^ 64"
    by (simp_all add: demo_input demo_readable)
  have z: "unat (0 :: u8) \<le> 32" by simp
  from pipeline_completes [OF a r c(1) z c(2) i e b l] show ?thesis by blast
qed

theorem alert_file_is_ledger_witness:
  "\<exists>io' t. snd (run_engine demo_world default_config demo_env (AnyHashMap hm_new) [FileHandler ''output/alerts.json'' 0]
       (w_stdin demo_world) (snd (open_trunc ''output/alerts.json'' no_io))) = io' \<and>
     io_files io' ''output/alerts.json'' = Some t"
proof -
  let ?run = "run_engine demo_world default_config demo_env (AnyHashMap hm_new) [FileHandler ''output/alerts.json'' 0]
       (w_stdin demo_world) (snd (open_trunc ''output/alerts.json'' no_io))"
  have m: "FileHandler ''output/alerts.json'' 0 \<in> set [FileHandler ''output/alerts.json'' 0]" by simp
  have n: "''output/alerts.json'' \<noteq> pc_graph_file default_config" "''output/alerts.json'' \<noteq> pc_stats_file default_config"
    by (simp_all add: default_config_def)
  obtain st io' where r: "?run = (st, io')" by (cases ?run)
  from alert_file_is_ledger [OF demo_chain m n r] r show ?thesis by (auto simp: Let_def)
qed

end
