(* ===== verification/NatsHandler.thy ===== *)
theory NatsHandler
  imports Handlers "HOL-Library.Sublist"
begin

text \<open>
  The alert handler for a NATS broker (\<open>libdsa/src/soc/nats_alert_handler.cpp\<close>) as it is built with the client
  library (\<open>DSA_HAVE_NATS\<close>), and the chain that holds it beside the other handlers.

  The client library is not in the repository: its calls are the record \<open>nats_client\<close>, over a state \<open>'w\<close> of the
  library and the network. A status other than \<open>NATS_OK\<close> is its text (\<open>natsStatus_GetText\<close>).
\<close>

section \<open>The client library\<close>

record ('c, 'w) nats_client =
  connect_to :: "string \<Rightarrow> 'w \<Rightarrow> (string + 'c) \<times> 'w"
  publish :: "'c \<Rightarrow> string \<Rightarrow> string \<Rightarrow> int \<Rightarrow> 'w \<Rightarrow> string option \<times> 'w"
  flush_connection :: "'c \<Rightarrow> 'w \<Rightarrow> 'w"
  destroy_connection :: "'c \<Rightarrow> 'w \<Rightarrow> 'w"

text \<open>\<open>(int) payload.size()\<close>\<close>

definition c_int :: "nat \<Rightarrow> int" where
  "c_int n = signed_take_bit 31 (int n)"

section \<open>The handler\<close>

text \<open>The handlers of a chain in this build: the file and stream handlers, and the NATS handler with \<open>url_\<close>,
  \<open>subject_\<close> and \<open>conn_\<close>, which is never null once the constructor has returned.\<close>

datatype 'c sink = Plain handler | NatsHandler string string 'c

fun sink_name :: "'c sink \<Rightarrow> string" where
  "sink_name (Plain h) = handler_name h"
| "sink_name (NatsHandler url subject conn) = ''nats:'' @ subject"

definition publish_note :: "string \<Rightarrow> string \<Rightarrow> string" where
  "publish_note subject st = ''[nats] publish failed on '' @ subject @ '': '' @ st @ [CHR 0x0A]"

fun sink_send :: "('c, 'w) nats_client \<Rightarrow> 'c sink \<Rightarrow> alert \<Rightarrow> io \<times> 'w \<Rightarrow> (io \<times> 'w) \<times> string option" where
  "sink_send lib (Plain h) a (io, w) = (case handler_send h a io of (io, e) \<Rightarrow> ((io, w), e))"
| "sink_send lib (NatsHandler url subject conn) a (io, w) =
     (let payload = to_json a in
      case publish lib conn subject payload (c_int (length payload)) w of
        (None, w) \<Rightarrow> ((io, w), None)
      | (Some st, w) \<Rightarrow> ((write_err (publish_note subject st) io, w), None))"

text \<open>\<open>flush\<close>: the other handlers have nothing left to write after a \<open>send\<close>. No \<open>flush\<close> throws.\<close>

fun sink_flush :: "('c, 'w) nats_client \<Rightarrow> 'c sink \<Rightarrow> io \<times> 'w \<Rightarrow> io \<times> 'w" where
  "sink_flush lib (Plain h) (io, w) = (io, w)"
| "sink_flush lib (NatsHandler url subject conn) (io, w) = (io, flush_connection lib conn w)"

text \<open>\<open>~NatsAlertHandler\<close>\<close>

fun sink_close :: "('c, 'w) nats_client \<Rightarrow> 'c sink \<Rightarrow> io \<times> 'w \<Rightarrow> io \<times> 'w" where
  "sink_close lib (Plain h) (io, w) = (io, w)"
| "sink_close lib (NatsHandler url subject conn) (io, w) =
     (io, destroy_connection lib conn (flush_connection lib conn w))"

definition nats_new :: "('c, 'w) nats_client \<Rightarrow> string \<Rightarrow> string \<Rightarrow> 'w \<Rightarrow> 'c sink res \<times> 'w" where
  "nats_new lib url subject w =
     (case connect_to lib url w of
        (Inl st, w) \<Rightarrow> (Inl (RuntimeError (''NATS connect failed: '' @ st)), w)
      | (Inr conn, w) \<Rightarrow> (Inr (NatsHandler url subject conn), w))"

definition make_nats_handler :: "('c, 'w) nats_client \<Rightarrow> handler_config \<Rightarrow> 'w \<Rightarrow> 'c sink res \<times> 'w" where
  "make_nats_handler lib c =
     nats_new lib (get c ''url'' ''nats://nats.soc.svc.cluster.local:4222'') (get c ''subject'' ''zt.alerts.raw'')"

section \<open>The chain\<close>

fun sink_note :: "string \<Rightarrow> io \<times> 'w \<Rightarrow> io \<times> 'w" where
  "sink_note s (io, w) = (write_err s io, w)"

abbreviation sink_chain :: "('c, 'w) nats_client \<Rightarrow> 'c sink list \<Rightarrow> alert \<Rightarrow> io \<times> 'w \<Rightarrow> io \<times> 'w" where
  "sink_chain lib \<equiv> chain_send (sink_send lib) sink_name sink_note"

definition chain_flush :: "('h \<Rightarrow> 's \<Rightarrow> 's) \<Rightarrow> 'h list \<Rightarrow> 's \<Rightarrow> 's" where
  "chain_flush flush hs s = fold flush hs s"

text \<open>\<open>~AlertHandlerChain\<close>: the handlers are destroyed with their vector.\<close>

definition chain_close :: "('c, 'w) nats_client \<Rightarrow> 'c sink list \<Rightarrow> io \<times> 'w \<Rightarrow> io \<times> 'w" where
  "chain_close lib hs s = fold (sink_close lib) hs s"

section \<open>The files do not see the broker\<close>

definition same_files :: "io \<Rightarrow> io \<Rightarrow> bool" where
  "same_files io io' \<longleftrightarrow> io_files io = io_files io' \<and> io_offsets io = io_offsets io'"

fun plain_of :: "'c sink list \<Rightarrow> handler list" where
  "plain_of [] = []"
| "plain_of (Plain h # hs) = h # plain_of hs"
| "plain_of (NatsHandler u s c # hs) = plain_of hs"

lemma handler_same_files:
  "same_files io io' \<Longrightarrow> same_files (fst (handler_send h a io)) (fst (handler_send h a io'))"
  by (cases h) (simp_all add: same_files_def write_file_def write_err_def write_out_def)

lemma handler_never_throws: "snd (handler_send h a io) = None"
  by (cases h) simp_all

lemma sink_chain_Cons:
  "sink_chain lib (h # hs) a s = sink_chain lib hs a (fst (sink_send lib h a s))"
  by (cases h; cases s)
    (simp_all add: chain_send_def chain_step_def handler_never_throws Let_def split: prod.split option.split,
     metis handler_never_throws option.distinct(1) snd_conv)

lemma chain_same_files:
  "same_files (fst s) io \<Longrightarrow> same_files (fst (sink_chain lib hs a s)) (send_to_chain (plain_of hs) a io)"
proof (induction hs arbitrary: s io)
  case Nil
  then show ?case by (simp add: chain_send_def)
next
  case (Cons h hs)
  obtain i w where s: "s = (i, w)" by (cases s)
  show ?case
  proof (cases h)
    case (Plain p)
    have "same_files (fst (fst (sink_send lib h a s))) (fst (handler_send p a io))"
      using handler_same_files [of i io p a] Cons.prems by (cases "handler_send p a i") (simp add: Plain s)
    from Cons.IH [OF this] show ?thesis unfolding sink_chain_Cons by (simp add: Plain chain_send_Cons)
  next
    case (NatsHandler u sub c)
    have "same_files (fst (fst (sink_send lib h a s))) io"
      using Cons.prems by (simp add: NatsHandler s same_files_def write_err_def Let_def split: prod.split option.split)
    from Cons.IH [OF this] show ?thesis unfolding sink_chain_Cons by (simp add: NatsHandler)
  qed
qed

lemma run_same_files:
  "same_files (fst s) io \<Longrightarrow>
   same_files (fst (fold (sink_chain lib hs) as s)) (fold (send_to_chain (plain_of hs)) as io)"
proof (induction as arbitrary: s io)
  case (Cons a as)
  from Cons.IH [OF chain_same_files [OF Cons.prems]] show ?case by simp
qed simp

lemma chain_flush_files: "fst (chain_flush (sink_flush lib) hs s) = fst s"
proof (induction hs arbitrary: s)
  case (Cons h hs)
  have "fst (sink_flush lib h s) = fst s" by (cases h; cases s) simp_all
  with Cons show ?case by (simp add: chain_flush_def)
qed (simp add: chain_flush_def)

lemma chain_close_files: "fst (chain_close lib hs s) = fst s"
proof (induction hs arbitrary: s)
  case (Cons h hs)
  have "fst (sink_close lib h s) = fst s" by (cases h; cases s) simp_all
  with Cons show ?case by (simp add: chain_close_def)
qed (simp add: chain_close_def)

section \<open>What the broker gets\<close>

text \<open>\<open>log\<close>: what has been published, as the documentation of the client has it. A publication that is accepted is the
  first \<open>n\<close> bytes of the data, one that is refused leaves no trace; connecting, flushing and closing publish nothing.\<close>

definition keeps_record :: "('c, 'w) nats_client \<Rightarrow> ('w \<Rightarrow> (string \<times> string) list) \<Rightarrow> bool" where
  "keeps_record lib log \<longleftrightarrow>
     (\<forall>c s p n w. log (snd (publish lib c s p n w)) =
        log w @ (if fst (publish lib c s p n w) = None then [(s, take (nat n) p)] else [])) \<and>
     (\<forall>url w. log (snd (connect_to lib url w)) = log w) \<and> (\<forall>c w. log (flush_connection lib c w) = log w) \<and> (\<forall>c w. log (destroy_connection lib c w) = log w)"

lemma chain_flush_log:
  assumes "keeps_record lib log"
  shows "log (snd (chain_flush (sink_flush lib) hs s)) = log (snd s)" and "log (snd (chain_close lib hs s)) = log (snd s)"
proof -
  have f: "log (snd (sink_flush lib h s)) = log (snd s)" and c: "log (snd (sink_close lib h s)) = log (snd s)" for h s
    using assms by (cases h; cases s; simp add: keeps_record_def)+
  show "log (snd (chain_flush (sink_flush lib) hs s)) = log (snd s)"
    by (induction hs arbitrary: s) (simp_all add: chain_flush_def f)
  show "log (snd (chain_close lib hs s)) = log (snd s)"
    by (induction hs arbitrary: s) (simp_all add: chain_close_def c)
qed

lemma sink_chain_append: "sink_chain lib (hs @ hs') a s = sink_chain lib hs' a (sink_chain lib hs a s)"
  by (simp add: chain_send_def)

lemma sink_chain_plain: "snd (sink_chain lib (map Plain ps) a s) = snd s"
proof (induction ps arbitrary: s)
  case (Cons p ps)
  have "snd (fst (sink_send lib (Plain p) a s)) = snd s" by (cases s) (simp split: prod.split)
  with Cons show ?case by (simp add: sink_chain_Cons)
qed (simp add: chain_send_def)

lemma c_int_small: "n < 2 ^ 31 \<Longrightarrow> c_int n = int n"
  by (simp add: c_int_def signed_take_bit_int_eq_self)

text \<open>The bytes of an alert that the handler asks to publish: all of them below 2 GiB, where the cast keeps the length.\<close>

definition payload_of :: "alert \<Rightarrow> string" where
  "payload_of a = take (nat (c_int (length (to_json a)))) (to_json a)"

lemma payload_of_small: "length (to_json a) < 2 ^ 31 \<Longrightarrow> payload_of a = to_json a"
  by (simp add: payload_of_def c_int_small)

definition accepts_all :: "('c, 'w) nats_client \<Rightarrow> bool" where
  "accepts_all lib \<longleftrightarrow> (\<forall>c s p n w. fst (publish lib c s p n w) = None)"

lemma alert_published:
  assumes "keeps_record lib log" and "hs = map Plain ps @ [NatsHandler url subject c] @ map Plain qs"
  shows "\<exists>ok. log (snd (sink_chain lib hs a s)) = log (snd s) @ (if ok then [(subject, payload_of a)] else []) \<and>
    (accepts_all lib \<longrightarrow> ok)"
proof -
  obtain i w where s: "sink_chain lib (map Plain ps) a s = (i, w)" by (cases "sink_chain lib (map Plain ps) a s")
  then have w: "w = snd s" using sink_chain_plain [of lib ps a s] by simp
  let ?r = "publish lib c subject (to_json a) (c_int (length (to_json a))) w"
  have "snd (sink_chain lib hs a s) = snd (fst (sink_send lib (NatsHandler url subject c) a (i, w)))"
    by (simp only: assms(2) sink_chain_append s sink_chain_plain append_Cons append_Nil sink_chain_Cons)
  also have "\<dots> = snd ?r" by (simp add: Let_def split: prod.split option.split)
  finally have "log (snd (sink_chain lib hs a s)) = log w @ (if fst ?r = None then [(subject, payload_of a)] else [])"
    using assms(1) by (simp add: keeps_record_def payload_of_def)
  then show ?thesis by (intro exI [of _ "fst ?r = None"]) (simp add: w accepts_all_def)
qed

lemma run_published:
  assumes "keeps_record lib log" and "hs = map Plain ps @ [NatsHandler url subject c] @ map Plain qs"
  shows "\<exists>acc. subseq acc as \<and> log (snd (fold (sink_chain lib hs) as s)) = log (snd s) @ map (\<lambda>a. (subject, payload_of a)) acc \<and>
      (accepts_all lib \<longrightarrow> acc = as)"
proof (induction as arbitrary: s)
  case (Cons a as)
  obtain acc where acc: "subseq acc as"
    "log (snd (fold (sink_chain lib hs) as (sink_chain lib hs a s))) =
       log (snd (sink_chain lib hs a s)) @ map (\<lambda>a. (subject, payload_of a)) acc"
    "accepts_all lib \<longrightarrow> acc = as"
    using Cons.IH [of "sink_chain lib hs a s"] by blast
  from alert_published [OF assms, of a s] obtain ok where
    "log (snd (sink_chain lib hs a s)) = log (snd s) @ (if ok then [(subject, payload_of a)] else [])"
    "accepts_all lib \<longrightarrow> ok" by blast
  with acc show ?case by (intro exI [of _ "if ok then a # acc else acc"]) auto
qed simp

end
