(* ===== verification/NatsPipeline.thy ===== *)
theory NatsPipeline
  imports Pipeline NatsHandler
begin

text \<open>
  \<open>main\<close> of the engine (\<open>pipeline/src/engine.cpp\<close>) in the build with the NATS client: the chain it makes of the
  configuration, the run on it, and what the broker changes. The definitions are those of \<open>Handlers\<close> and
  \<open>Pipeline\<close> over the larger state \<open>io \<times> 'w\<close>, with the flush and the destructors that the other build has nothing
  to do in.
\<close>

section \<open>The registry and the chain\<close>

type_synonym ('c, 'w) sink_factory = "handler_config \<Rightarrow> io \<times> 'w \<Rightarrow> ('c sink \<times> io \<times> 'w) res \<times> io \<times> 'w"

definition plain_factory :: "factory \<Rightarrow> ('c, 'w) sink_factory" where
  "plain_factory f c = (\<lambda>(io, w).
     case f c io of Inl err \<Rightarrow> (Inl err, io, w) | Inr (h, io') \<Rightarrow> (Inr (Plain h, io', w), io', w))"

definition nats_factory :: "('c, 'w) nats_client \<Rightarrow> ('c, 'w) sink_factory" where
  "nats_factory lib c = (\<lambda>(io, w).
     case make_nats_handler lib c w of (Inl err, w') \<Rightarrow> (Inl err, io, w') | (Inr h, w') \<Rightarrow> (Inr (h, io, w'), io, w'))"

definition sink_factories :: "('c, 'w) nats_client \<Rightarrow> (string \<Rightarrow> bool) \<Rightarrow> (string \<times> ('c, 'w) sink_factory) list" where
  "sink_factories lib can_open =
     fold (\<lambda>(nm, f). AList.update nm f)
       [(''file'', plain_factory (make_file_alert_handler can_open)), (''stdout'', plain_factory make_stdout_alert_handler),
        (''stderr'', plain_factory make_stdout_alert_handler), (''nats'', nats_factory lib)] []"

definition create_sink ::
  "('c, 'w) nats_client \<Rightarrow> (string \<Rightarrow> bool) \<Rightarrow> ('c, 'w) sink_factory" where
  "create_sink lib can_open c s =
     (case map_of (sink_factories lib can_open) (hc_name c) of
        None \<Rightarrow> (Inl (RuntimeError (''Unknown alert handler: '' @ hc_name c)), s)
      | Some f \<Rightarrow> f c s)"

fun build_sinks ::
  "('c, 'w) nats_client \<Rightarrow> (string \<Rightarrow> bool) \<Rightarrow> handler_config list \<Rightarrow> 'c sink list \<Rightarrow> io \<times> 'w \<Rightarrow> 'c sink list res \<times> io \<times> 'w" where
  "build_sinks lib can_open [] hs s = (Inr hs, s)"
| "build_sinks lib can_open (e # es) hs s =
     (case create_sink lib can_open e s of
        (Inl err, s') \<Rightarrow> (Inl err, s')
      | (Inr (h, s'), _) \<Rightarrow> build_sinks lib can_open es (hs @ [h]) s')"

section \<open>The run\<close>

definition nats_run ::
  "('c, 'w) nats_client \<Rightarrow> world \<Rightarrow> pipeline_config \<Rightarrow> any_estimator engine_env \<Rightarrow> any_estimator \<Rightarrow> 'c sink list \<Rightarrow>
     string \<Rightarrow> io \<times> 'w \<Rightarrow> exit_status \<times> io \<times> 'w" where
  "nats_run lib w c env e hs input st =
     (case event_loop env (getlines CHR 0x0A input) (engine_start e) of
        (s, r) \<Rightarrow>
          let st = fold (sink_chain lib hs) (en_sent s) st in
          case r of
            Some err \<Rightarrow> (Terminated err, st)
          | None \<Rightarrow>
              let st = chain_flush (sink_flush lib) hs st in
              (case final_report env s of
                 Inl err \<Rightarrow> (Terminated err, st)
               | Inr (snapshot, stats) \<Rightarrow>
                   (case st of (io, net) \<Rightarrow>
                      (Exit 0, chain_close lib hs
                         (write_whole w (pc_stats_file c) stats (write_whole w (pc_graph_file c) snapshot io), net)))))"

definition nats_main ::
  "('c, 'w) nats_client \<Rightarrow> any_estimator estimator_ops \<Rightarrow> u32 \<times> u8 \<times> int \<Rightarrow> world \<Rightarrow> string list \<Rightarrow>
     io \<times> 'w \<Rightarrow> exit_status \<times> io \<times> 'w" where
  "nats_main lib ops junk w args st =
     (case parse_engine_args args ''config/pipeline.yaml'' of
        None \<Rightarrow> (Exit 0, st)
      | Some config_path \<Rightarrow>
     (case resolve_config w config_path of
        None \<Rightarrow> (Exit 1, st)
      | Some path \<Rightarrow>
     (case load_config junk path (w_files w path) of
        Inl err \<Rightarrow> (Exit 1, st)
      | Inr c \<Rightarrow>
     (case make_env ops w c of
        Inl err \<Rightarrow> (Terminated err, st)
      | Inr (env, e) \<Rightarrow>
     (case event_source w c of
        None \<Rightarrow> (Exit 1, st)
      | Some input \<Rightarrow>
     (case build_sinks lib (w_writable w) (chain_entries (pc_alert_handlers c) (pc_alerts_file c)) [] st of
        (Inl err, st) \<Rightarrow> (Exit 1, st)
      | (Inr hs, st) \<Rightarrow> nats_run lib w c env e hs input st))))))"

section \<open>The broker beside the files\<close>

lemma sink_factories_lookup:
  "map_of (sink_factories lib can_open) nm =
     (if nm = ''nats'' then Some (nats_factory lib) else map_option plain_factory (map_of (alert_handlers can_open) nm))"
  by (simp add: sink_factories_def alert_handlers_lookup AList.update_conv')

lemma create_sink_plain:
  assumes "hc_name e \<noteq> ''nats''" and "create_sink lib can_open e (io, w) = (Inr (h, s'), s'')"
  obtains p io' where "h = Plain p" "s' = (io', w)" "create_handler (alert_handlers can_open) e io = Inr (p, io')"
  using assms by (auto simp: create_sink_def create_handler_def sink_factories_lookup plain_factory_def split: option.splits sum.splits)

lemma build_sinks_plain:
  assumes "\<forall>e \<in> set es. hc_name e \<noteq> ''nats''" and "build_sinks lib can_open es hs (io, w) = (Inr hs', io', w')"
  shows "w' = w \<and> (\<exists>ps. hs' = hs @ map Plain ps \<and> (\<forall>hs0. build_chain_from can_open es hs0 io = (Inr (hs0 @ ps), io')))"
  using assms
proof (induction es arbitrary: hs io)
  case Nil
  then show ?case by (auto intro: exI [of _ "[]"])
next
  case (Cons e es)
  obtain h s1 s2 where c: "create_sink lib can_open e (io, w) = (Inr (h, s1), s2)"
    "build_sinks lib can_open es (hs @ [h]) s1 = (Inr hs', io', w')"
    using Cons.prems(2) by (auto split: prod.splits sum.splits)
  have e: "hc_name e \<noteq> ''nats''" using Cons.prems(1) by simp
  obtain p io1 where p: "h = Plain p" "s1 = (io1, w)" "create_handler (alert_handlers can_open) e io = Inr (p, io1)"
    by (rule create_sink_plain [OF e c(1)])
  have "build_sinks lib can_open es (hs @ [h]) (io1, w) = (Inr hs', io', w')" using c(2) p(2) by simp
  from Cons.IH [OF _ this] Cons.prems(1) obtain ps where "w' = w" "hs' = hs @ [h] @ map Plain ps"
    "\<forall>hs0. build_chain_from can_open es hs0 io1 = (Inr (hs0 @ ps), io')" by auto
  then show ?case by (intro conjI exI [of _ "p # ps"]) (simp_all add: p)
qed

lemma build_sinks_append:
  "build_sinks lib can_open (xs @ ys) hs s =
     (case build_sinks lib can_open xs hs s of
        (Inl err, s') \<Rightarrow> (Inl err, s') | (Inr hs', s') \<Rightarrow> build_sinks lib can_open ys hs' s')"
  by (induction xs arbitrary: hs s) (auto split: prod.splits sum.splits)

lemma build_chain_append:
  "build_chain_from can_open (xs @ ys) hs io =
     (case build_chain_from can_open xs hs io of
        (Inl err, io') \<Rightarrow> (Inl err, io') | (Inr hs', io') \<Rightarrow> build_chain_from can_open ys hs' io')"
  by (induction xs arbitrary: hs io) (auto split: prod.splits sum.splits)

definition broker_subject :: "handler_config \<Rightarrow> string" where
  "broker_subject c = get c ''subject'' ''zt.alerts.raw''"

text \<open>The chain of a configuration with one broker, and the chain of the same configuration without it.\<close>

lemma build_sinks_broker:
  assumes "keeps_record lib log" and "\<forall>e \<in> set (xs @ ys). hc_name e \<noteq> ''nats''" and "hc_name b = ''nats''"
    and "build_sinks lib can_open (xs @ b # ys) [] (io0, w0) = (Inr hs, io, net)"
  obtains ps qs url conn where "hs = map Plain ps @ [NatsHandler url (broker_subject b) conn] @ map Plain qs"
    "build_chain can_open (xs @ ys) io0 = (Inr (ps @ qs), io)" "log net = log w0"
proof -
  obtain hs1 io1 w1 where x: "build_sinks lib can_open xs [] (io0, w0) = (Inr hs1, io1, w1)"
    "build_sinks lib can_open (b # ys) hs1 (io1, w1) = (Inr hs, io, net)"
    using assms(4) by (auto simp: build_sinks_append split: prod.splits sum.splits)
  obtain ps where ps: "w1 = w0" "hs1 = map Plain ps" "\<forall>hs0. build_chain_from can_open xs hs0 io0 = (Inr (hs0 @ ps), io1)"
    using build_sinks_plain [OF _ x(1)] assms(2) by auto
  obtain url conn w2 where b: "connect_to lib url w1 = (Inr conn, w2)"
    "build_sinks lib can_open ys (hs1 @ [NatsHandler url (broker_subject b) conn]) (io1, w2) = (Inr hs, io, net)"
    using x(2) by (auto simp: create_sink_def sink_factories_lookup assms(3) nats_factory_def make_nats_handler_def
        nats_new_def broker_subject_def split: prod.splits sum.splits)
  obtain qs where qs: "net = w2" "hs = (hs1 @ [NatsHandler url (broker_subject b) conn]) @ map Plain qs"
    "\<forall>hs0. build_chain_from can_open ys hs0 io1 = (Inr (hs0 @ qs), io)"
    using build_sinks_plain [OF _ b(2)] assms(2) by auto
  have "\<forall>url w. log (snd (connect_to lib url w)) = log w" using assms(1) by (simp add: keeps_record_def)
  then have "log w2 = log w1" using b(1) by (metis snd_conv)
  then show thesis
    using qs ps by (intro that [of ps url conn qs]) (simp_all add: build_chain_def build_chain_append)
qed

lemma write_whole_files: "same_files io io' \<Longrightarrow> same_files (write_whole w p s io) (write_whole w p s io')"
  by (simp add: same_files_def write_whole_def)

lemma nats_run_files:
  assumes "nats_run lib w c env e hs input (io, net) = (st, io', net')"
  shows "\<exists>io''. run_engine w c env e (plain_of hs) input io = (st, io'') \<and> same_files io' io''"
proof -
  obtain s r where s: "event_loop env (getlines CHR 0x0A input) (engine_start e) = (s, r)"
    by (cases "event_loop env (getlines CHR 0x0A input) (engine_start e)")
  let ?f = "fold (sink_chain lib hs) (en_sent s) (io, net)"
  have f: "same_files (fst ?f) (fold (send_to_chain (plain_of hs)) (en_sent s) io)"
    by (rule run_same_files) (simp add: same_files_def)
  show ?thesis
  proof (cases r)
    case (Some err)
    then show ?thesis using assms f by (auto simp: nats_run_def run_engine_def s Let_def)
  next
    case None
    let ?g = "chain_flush (sink_flush lib) hs ?f"
    have g: "same_files (fst ?g) (fold (send_to_chain (plain_of hs)) (en_sent s) io)" using f by (simp only: chain_flush_files)
    show ?thesis
    proof (cases "final_report env s")
      case (Inl err)
      then show ?thesis using assms g None by (auto simp: nats_run_def run_engine_def s Let_def)
    next
      case (Inr rep)
      obtain snapshot stats where rep: "rep = (snapshot, stats)" by (cases rep)
      let ?w = "\<lambda>io. write_whole w (pc_stats_file c) stats (write_whole w (pc_graph_file c) snapshot io)"
      have "(st, io', net') = (Exit 0, chain_close lib hs (?w (fst ?g), snd ?g))"
        using assms Inr None by (simp add: nats_run_def s Let_def rep case_prod_unfold)
      then have "st = Exit 0" "io' = fst (chain_close lib hs (?w (fst ?g), snd ?g))" by (simp, metis Pair_inject fst_conv)
      then have "st = Exit 0" "io' = ?w (fst ?g)" by (simp_all add: chain_close_files)
      moreover have "same_files (?w (fst ?g)) (?w (fold (send_to_chain (plain_of hs)) (en_sent s) io))"
        using g by (intro write_whole_files)
      ultimately show ?thesis using Inr None by (simp add: run_engine_def s Let_def rep)
    qed
  qed
qed

lemma nats_run_log:
  assumes "keeps_record lib log" and "nats_run lib w c env e hs input (io, net) = (st, io', net')"
  shows "log net' = log (snd (fold (sink_chain lib hs)
    (en_sent (fst (event_loop env (getlines CHR 0x0A input) (engine_start e)))) (io, net)))"
proof -
  obtain s r where s: "event_loop env (getlines CHR 0x0A input) (engine_start e) = (s, r)"
    by (cases "event_loop env (getlines CHR 0x0A input) (engine_start e)")
  have "log (snd (snd (nats_run lib w c env e hs input (io, net)))) = log (snd (fold (sink_chain lib hs) (en_sent s) (io, net)))"
    by (simp add: nats_run_def s Let_def chain_flush_log [OF assms(1)] split: option.split sum.split prod.split)
      (metis chain_flush_log(1) [OF assms(1)] snd_conv)
  then show ?thesis by (simp add: assms(2) s)
qed

lemma plain_of_map: "plain_of (map Plain ps @ hs) = ps @ plain_of hs"
  by (induction ps) simp_all

text \<open>A broker that refuses alerts costs nothing, but one that cannot be reached at the start keeps the engine from
  starting: it exits with 1 and no event is read, whatever other handlers there are.\<close>

lemma unreachable_broker:
  assumes "\<forall>url w. \<exists>reason. fst (connect_to lib url w) = Inl reason" and "b \<in> set es" and "hc_name b = ''nats''"
  shows "\<exists>err s'. build_sinks lib can_open es hs s = (Inl err, s')"
  using assms(2)
proof (induction es arbitrary: hs s)
  case (Cons e es)
  obtain io w where s: "s = (io, w)" by (cases s)
  show ?case
  proof (cases "e = b")
    case True
    have "\<exists>err s'. create_sink lib can_open b s = (Inl err, s')"
      using assms(1) by (auto simp: create_sink_def sink_factories_lookup assms(3) nats_factory_def make_nats_handler_def
          nats_new_def s split: prod.split sum.split) (metis Inl_Inr_False fst_conv)
    then show ?thesis using True by auto
  next
    case False
    then show ?thesis using Cons by (cases "create_sink lib can_open e s") (auto split: sum.split)
  qed
qed simp

lemma unreachable_broker_stops_main:
  assumes "\<forall>url w. \<exists>reason. fst (connect_to lib url w) = Inl reason"
    and "parse_engine_args args ''config/pipeline.yaml'' = Some p" and "resolve_config w p = Some path"
    and "load_config junk path (w_files w path) = Inr c" and "make_env ops w c = Inr (env, e)"
    and "event_source w c = Some input" and "b \<in> set (pc_alert_handlers c)" and "hc_name b = ''nats''"
  shows "fst (nats_main lib ops junk w args st) = Exit 1"
proof -
  have "b \<in> set (chain_entries (pc_alert_handlers c) (pc_alerts_file c))" using assms(7) by (auto simp: chain_entries_def)
  from unreachable_broker [OF assms(1) this assms(8)] obtain err s' where
    "build_sinks lib (w_writable w) (chain_entries (pc_alert_handlers c) (pc_alerts_file c)) [] st = (Inl err, s')" by blast
  then show ?thesis by (simp add: nats_main_def assms(2-6))
qed

section \<open>Property\<close>


text \<open>A broker that refuses every other publication.\<close>

definition demo_client :: "(unit, bool \<times> (string \<times> string) list) nats_client" where
  "demo_client =
     \<lparr>connect_to = (\<lambda>url w. (Inr (), w)),
      publish = (\<lambda>c s p n (busy, log). if busy then (Some ''Timeout'', (False, log))
                                    else (None, (True, log @ [(s, take (nat n) p)]))),
      flush_connection = (\<lambda>c w. w), destroy_connection = (\<lambda>c w. w)\<rparr>"

lemma keeps_record_demo: "keeps_record demo_client snd"
  by (auto simp: keeps_record_def demo_client_def split: prod.splits)


end
