(* ===== verification/EngineLog.thy ===== *)
theory EngineLog
  imports NatsPipeline
begin

text \<open>
  What the engine (\<open>pipeline/src/engine.cpp\<close>) writes to standard error while it runs: its log lines between the
  alerts, in the order of the code. In a container this stream is the log, and a handler of type \<open>stderr\<close>
  puts the alerts into it; \<open>config/pipeline.yaml\<close> is shipped with one, for a log collector to pick them up.

  \<open>Engine\<close> gives the alerts of a step, this theory the sequence of its outputs, alerts and messages;
  \<open>sents_loop\<close> shows that the alerts in it are those of \<open>Engine\<close>.
\<close>

section \<open>The outputs of the steps\<close>

text \<open>\<open>chain.send(alert)\<close>, and a line on \<open>std::cerr\<close>\<close>

datatype effect = Sent alert | Message string

definition reset_message :: "'e engine_env \<Rightarrow> net_event \<Rightarrow> 'e engine \<Rightarrow> effect list" where
  "reset_message env evt s =
     (let start = (if en_window_start_ns s = 0 then timestamp_ns evt else en_window_start_ns s) in
      if timestamp_ns evt - start > window_ns env
      then [Message (''[pipeline] Window reset at event #'' @ num (en_total_events s + 1))] else [])"

definition blast_output :: "'e engine_env \<Rightarrow> net_event \<Rightarrow> 'e engine \<Rightarrow> effect list" where
  "blast_output env evt s =
     (if has_vertex (en_graph s) (src_ip evt) then
        let blast = reachable_within (env_reach env) (en_graph s) (src_ip evt) (env_max_hops env)
        in [Sent (engine_alert env ''blast_radius'' (src_ip evt)
              (blast_radius_details (src_ip evt) (env_max_hops env) blast) (timestamp_ns evt)
              [''blast_radius'', ''lateral_movement'']),
            Message (''[ALERT] Blast radius from '' @ ip_to_string (src_ip evt) @ '': '' @ to_string (length blast) @
              '' nodes within '' @ int_to_string (env_max_hops env) @ '' hops'')]
      else [])"

definition scan_output :: "'e engine_env \<Rightarrow> net_event \<Rightarrow> u64 \<Rightarrow> 'e engine \<Rightarrow> effect list" where
  "scan_output env evt freq s =
     (if freq > word_of_int (env_threshold env) \<and> src_ip evt \<notin> en_alerted_sources s then
        [Sent (engine_alert env ''port_scan'' (src_ip evt)
           (port_scan_details freq (env_threshold env) (lpm_lookup (env_trie env) (src_ip evt)) (src_ip evt))
           (timestamp_ns evt) [''port_scan'']),
         Message (''[ALERT] Port scan detected: '' @ ip_to_string (src_ip evt) @ '' (freq='' @ num freq @ '' > '' @
           int_to_string (env_threshold env) @ '')'')] @ blast_output env evt s
      else [])"

definition scc_output :: "'e engine_env \<Rightarrow> net_event \<Rightarrow> u32 list list \<Rightarrow> 'e engine \<Rightarrow> effect list" where
  "scc_output env evt comps s =
     (if count_nontrivial comps > en_prev_nontrivial_sccs s then
        concat (map (\<lambda>scc. if length scc \<le> 1 then []
          else [Sent (scc_alert env evt scc),
                Message (''[ALERT] SCC detected: '' @ to_string (length scc) @ '' nodes in cycle'')]) comps)
      else [])"

definition detect_output :: "'e engine_env \<Rightarrow> net_event \<Rightarrow> 'e engine \<Rightarrow> effect list" where
  "detect_output env evt s =
     (case scc_interval env of
        Inl err \<Rightarrow> []
      | Inr n \<Rightarrow>
          if n = 0 then []
          else if en_total_events s mod n = 0 then
            (case find_sccs (env_scc env) (en_graph s) of Inl err \<Rightarrow> [] | Inr comps \<Rightarrow> scc_output env evt comps s)
          else [])"

definition progress_message :: "'e engine \<Rightarrow> effect list" where
  "progress_message s =
     (if en_total_events s mod 10000 = 0 then
        [Message (''[pipeline] Processed '' @ num (en_total_events s) @ '' events | graph: '' @
           to_string (num_vertices (en_graph s)) @ ''V, '' @ to_string (num_edges (en_graph s)) @ ''E | alerts: '' @
           num (en_alerts_count s))]
      else [])"

text \<open>The outputs of an event; an exception cuts them off where it is raised.\<close>

definition event_output :: "'e engine_env \<Rightarrow> net_event \<Rightarrow> 'e engine \<Rightarrow> effect list" where
  "event_output env evt s0 =
     (let s = open_window env evt s0 in
      reset_message env evt s0 @
      (case record_u32 (env_ops env) (en_estimator s) (src_ip evt) of
         Inl err \<Rightarrow> []
       | Inr e \<Rightarrow>
           (let s = s\<lparr>en_estimator := e\<rparr> in
            case estimate_u32 (env_ops env) e (src_ip evt) of
              Inl err \<Rightarrow> []
            | Inr freq \<Rightarrow>
                (let s' = connect evt (port_scan env evt freq s) in
                 scan_output env evt freq s @ detect_output env evt s' @
                 (case detect_sccs env evt s' of (s'', None) \<Rightarrow> progress_message s'' | (s'', Some err) \<Rightarrow> [])))))"

definition line_output :: "'e engine_env \<Rightarrow> string \<Rightarrow> 'e engine \<Rightarrow> effect list" where
  "line_output env line s =
     (case parse_event line of Inr (Some evt) \<Rightarrow> event_output env evt s | _ \<Rightarrow> [])"

fun loop_output :: "'e engine_env \<Rightarrow> string list \<Rightarrow> 'e engine \<Rightarrow> effect list" where
  "loop_output env [] s = []"
| "loop_output env (line # lines) s =
     line_output env line s @
     (case engine_line env line s of (s', None) \<Rightarrow> loop_output env lines s' | (s', Some err) \<Rightarrow> [])"

section \<open>The summary\<close>

text \<open>43 times U+2550, in UTF-8\<close>

definition bar :: string where
  "bar = concat (replicate 43 [CHR 0xE2, CHR 0x95, CHR 0x90])"

definition summary :: "'e engine_env \<Rightarrow> 'e engine \<Rightarrow> nat \<Rightarrow> pipeline_config \<Rightarrow> string list" where
  "summary env s nontrivial c =
     ['''',
      ''[pipeline] '' @ bar,
      ''[pipeline] Processing complete.'',
      ''[pipeline]   Total events:     '' @ num (en_total_events s),
      ''[pipeline]   Alerts generated:  '' @ num (en_alerts_count s),
      ''[pipeline]   Graph vertices:    '' @ to_string (num_vertices (en_graph s)),
      ''[pipeline]   Graph edges:       '' @ to_string (num_edges (en_graph s)),
      ''[pipeline]   Non-trivial SCCs:  '' @ to_string nontrivial,
      ''[pipeline]   CMS memory:        '' @ num (op_memory_usage (env_ops env) (en_estimator s)) @ '' bytes'',
      ''[pipeline]   Algorithms:        '' @ op_name (env_ops env) (en_estimator s) @ '' / '' @
        scc_name (env_scc env) @ '' / '' @ reach_name (env_reach env),
      ''[pipeline] '' @ bar,
      ''[pipeline] Output:'',
      ''[pipeline]   Alerts: '' @ pc_alerts_file c,
      ''[pipeline]   Graph:  '' @ pc_graph_file c,
      ''[pipeline]   Stats:  '' @ pc_stats_file c]"

section \<open>The run\<close>

definition write_message :: "string \<Rightarrow> io \<Rightarrow> io" where
  "write_message m io = write_err (m @ [CHR 0x0A]) io"

fun put_output :: "handler list \<Rightarrow> effect \<Rightarrow> io \<Rightarrow> io" where
  "put_output hs (Sent a) io = send_to_chain hs a io"
| "put_output hs (Message m) io = write_message m io"

definition logged_run ::
  "world \<Rightarrow> pipeline_config \<Rightarrow> any_estimator engine_env \<Rightarrow> any_estimator \<Rightarrow> handler list \<Rightarrow> string \<Rightarrow> io \<Rightarrow> exit_status \<times> io" where
  "logged_run w c env e hs input io =
     (let io = write_message ''[pipeline] Processing events...'' io;
          lines = getlines CHR 0x0A input;
          (s, r) = event_loop env lines (engine_start e);
          io = fold (put_output hs) (loop_output env lines (engine_start e)) io
      in case r of
           Some err \<Rightarrow> (Terminated err, io)
         | None \<Rightarrow>
             (case find_sccs (env_scc env) (en_graph s) of
                Inl err \<Rightarrow> (Terminated err, io)
              | Inr comps \<Rightarrow>
                  (case final_report env s of
                     Inl err \<Rightarrow> (Terminated err, io)
                   | Inr (snapshot, stats) \<Rightarrow>
                       (Exit 0, fold write_message (summary env s (count_nontrivial comps) c)
                          (write_whole w (pc_stats_file c) stats (write_whole w (pc_graph_file c) snapshot io))))))"

section \<open>The alerts among the outputs\<close>

fun sent_of :: "effect \<Rightarrow> alert list" where
  "sent_of (Sent a) = [a]"
| "sent_of (Message m) = []"

definition sents :: "effect list \<Rightarrow> alert list" where
  "sents os = concat (map sent_of os)"

lemma sents_simps [simp]:
  "sents [] = []" "sents (Sent a # os) = a # sents os" "sents (Message m # os) = sents os"
  "sents (xs @ ys) = sents xs @ sents ys"
  by (simp_all add: sents_def)

lemma sents_messages [simp]: "sents (reset_message env evt s) = []" "sents (progress_message s) = []"
  by (simp_all add: reset_message_def progress_message_def Let_def)

lemma sents_scan: "en_sent (port_scan env evt freq s) = en_sent s @ sents (scan_output env evt freq s)"
  by (simp add: port_scan_def scan_output_def blast_radius_def blast_output_def emit_def Let_def)

lemma sents_scc: "en_sent (report_sccs env evt (s\<lparr>en_last_sccs := comps\<rparr>)) = en_sent s @ sents (scc_output env evt comps s)"
proof -
  have "en_sent (fold (\<lambda>scc s. if length scc \<le> 1 then s else emit (scc_alert env evt scc) s) cs s) =
      en_sent s @ sents (concat (map (\<lambda>scc. if length scc \<le> 1 then []
          else [Sent (scc_alert env evt scc), Message (m scc)]) cs))" for cs m s
    by (induction cs arbitrary: s) (simp_all add: emit_def)
  from this [of comps "s\<lparr>en_last_sccs := comps\<rparr>" "\<lambda>scc. ''[ALERT] SCC detected: '' @ to_string (length scc) @ '' nodes in cycle''"]
  show ?thesis by (simp add: report_sccs_def scc_output_def Let_def)
qed

lemma sents_detect: "en_sent (fst (detect_sccs env evt s)) = en_sent s @ sents (detect_output env evt s)"
  by (simp add: detect_sccs_def detect_output_def sents_scc split: sum.split)

lemma sents_event: "en_sent (fst (engine_event env evt s)) = en_sent s @ sents (event_output env evt s)"
proof -
  have o: "en_sent (open_window env evt s) = en_sent s" by (simp add: open_window_def Let_def)
  have c: "en_sent (connect evt s) = en_sent s" for s :: "'a engine" by (simp add: connect_def Let_def)
  show ?thesis
    by (simp add: engine_event_def event_output_def Let_def o c sents_scan sents_detect split: sum.split prod.split option.split)
qed

lemma sents_loop: "en_sent (fst (event_loop env lines s)) = en_sent s @ sents (loop_output env lines s)"
proof (induction lines arbitrary: s)
  case (Cons line lines)
  have "en_sent (fst (engine_line env line s)) = en_sent s @ sents (line_output env line s)"
    by (simp add: engine_line_def line_output_def sents_event split: sum.split option.split)
  with Cons show ?case by (auto split: prod.split option.split)
qed simp

lemma sents_run: "en_sent (fst (event_loop env lines (engine_start e))) = sents (loop_output env lines (engine_start e))"
proof -
  have "en_sent (engine_start e) = []" by (simp add: engine_start_def)
  then show ?thesis by (simp only: sents_loop append_Nil)
qed

section \<open>Files\<close>

lemma chain_keeps_same:
  "same_files io io' \<Longrightarrow> same_files (send_to_chain hs a io) (send_to_chain hs a io')"
proof (induction hs arbitrary: io io')
  case (Cons h hs)
  from Cons.IH [OF handler_same_files [OF Cons.prems, of h a]] show ?case by (simp only: chain_send_Cons)
qed (simp add: chain_send_def)

lemma put_output_files:
  "same_files io io' \<Longrightarrow> same_files (fold (put_output hs) os io) (fold (send_to_chain hs) (sents os) io')"
proof (induction os arbitrary: io io')
  case (Cons x os)
  then show ?case
  proof (cases x)
    case (Sent a)
    from Cons.IH [OF chain_keeps_same [OF Cons.prems]] show ?thesis by (simp add: Sent)
  next
    case (Message m)
    have "same_files (write_message m io) io'" using Cons.prems by (simp add: same_files_def write_message_def write_err_def)
    from Cons.IH [OF this] show ?thesis by (simp add: Message)
  qed
qed simp

lemma messages_files: "same_files (fold write_message ms io) io"
  by (induction ms arbitrary: io) (simp_all add: same_files_def write_message_def write_err_def)

section \<open>Lines\<close>

text \<open>The lines of a handler, and of an output, on standard error\<close>

fun err_lines :: "handler \<Rightarrow> alert \<Rightarrow> string list" where
  "err_lines (FileHandler p fd) a = []"
| "err_lines (StreamHandler to_stderr) a = (if to_stderr then [to_json a] else [])"
| "err_lines (NatsStub subject) a = [''[nats-stub '' @ subject @ ''] '' @ to_json a]"

fun lines_of :: "handler list \<Rightarrow> effect \<Rightarrow> string list" where
  "lines_of hs (Sent a) = concat (map (\<lambda>h. err_lines h a) hs)"
| "lines_of hs (Message m) = [m]"

lemma handler_err: "io_err (fst (handler_send h a io)) = io_err io @ unlines (err_lines h a)"
  by (cases h) (simp_all add: write_file_def write_err_def write_out_def alert_line_def)

lemma chain_err: "io_err (send_to_chain hs a io) = io_err io @ unlines (lines_of hs (Sent a))"
proof (induction hs arbitrary: io)
  case (Cons h hs)
  then show ?case by (simp add: chain_send_Cons handler_err)
qed (simp add: chain_send_def)

lemma put_output_err: "io_err (fold (put_output hs) os io) = io_err io @ unlines (concat (map (lines_of hs) os))"
proof (induction os arbitrary: io)
  case (Cons x os)
  have "io_err (put_output hs x io) = io_err io @ unlines (lines_of hs x)"
    by (cases x) (simp_all only: put_output.simps chain_err, simp add: write_message_def write_err_def)
  with Cons show ?case by simp
qed simp

lemma messages_err: "io_err (fold write_message ms io) = io_err io @ unlines ms"
  by (induction ms arbitrary: io) (simp_all add: write_message_def write_err_def)

text \<open>What a collector takes for an alert: a line that starts with a brace.\<close>

definition json_lines :: "string \<Rightarrow> string list" where
  "json_lines t = filter (\<lambda>l. l \<noteq> [] \<and> hd l = CHR ''{'') (getlines CHR 0x0A t)"

definition is_message :: "string \<Rightarrow> bool" where
  "is_message m \<longleftrightarrow> CHR 0x0A \<notin> set m \<and> (m = [] \<or> hd m = CHR ''['')"

lemma json_lines_unlines:
  assumes "\<forall>l \<in> set ls. CHR 0x0A \<notin> set l"
  shows "json_lines (unlines ls) = filter (\<lambda>l. l \<noteq> [] \<and> hd l = CHR ''{'') ls"
  using getlines_lines [OF assms] by (simp add: json_lines_def unlines_def)

lemma filter_messages: "list_all is_message ms \<Longrightarrow> filter (\<lambda>l. l \<noteq> [] \<and> hd l = CHR ''{'') ms = []"
  by (induction ms) (auto simp: is_message_def)

lemma filter_alert:
  "filter (\<lambda>l. l \<noteq> [] \<and> hd l = CHR ''{'') (concat (map (\<lambda>h. err_lines h a) hs)) =
    replicate (count_list hs (StreamHandler True)) (to_json a)"
proof (induction hs)
  case (Cons h hs)
  have "to_json a \<noteq> [] \<and> hd (to_json a) = CHR ''{''" by (simp add: to_json_def)
  with Cons show ?case by (cases h) auto
qed simp

lemma numbers_no_newline:
  "CHR 0x0A \<notin> set (to_string n)" "CHR 0x0A \<notin> set (num k)" "CHR 0x0A \<notin> set (int_to_string i)"
  "CHR 0x0A \<notin> set (ip_to_string ip)"
proof -
  show n: "CHR 0x0A \<notin> set (to_string n)" for n using to_string_digits is_digit_not by blast
  show "CHR 0x0A \<notin> set (num k)" "CHR 0x0A \<notin> set (int_to_string i)" using n by (simp_all add: num_def int_to_string_def)
  show "CHR 0x0A \<notin> set (ip_to_string ip)" using n by (simp add: ip_to_string_def dotted_def)
qed

definition only_messages :: "effect list \<Rightarrow> bool" where
  "only_messages os \<longleftrightarrow> (\<forall>m. Message m \<in> set os \<longrightarrow> is_message m)"

lemma only_messages_simps [simp]:
  "only_messages []" "only_messages (Sent a # os) \<longleftrightarrow> only_messages os"
  "only_messages (Message m # os) \<longleftrightarrow> is_message m \<and> only_messages os"
  "only_messages (xs @ ys) \<longleftrightarrow> only_messages xs \<and> only_messages ys"
  by (auto simp: only_messages_def)

lemma event_messages: "only_messages (event_output env evt s)"
proof -
  note text_facts = is_message_def numbers_no_newline Let_def
  have "only_messages (reset_message env evt s)" "only_messages (progress_message s)"
    "only_messages (scan_output env evt freq s)" for s :: "'a engine" and freq
    by (simp_all add: reset_message_def progress_message_def scan_output_def blast_output_def text_facts)
  moreover have "only_messages (concat (map (\<lambda>scc. if length scc \<le> 1 then []
      else [Sent (scc_alert env evt scc), Message (''[ALERT] SCC detected: '' @ to_string (length scc) @ '' nodes in cycle'')]) cs))" for cs
    by (induction cs) (simp_all add: text_facts)
  then have "only_messages (detect_output env evt s)" for s
    by (simp add: detect_output_def scc_output_def split: sum.split)
  ultimately show ?thesis by (simp add: event_output_def Let_def split: sum.split prod.split option.split)
qed

lemma loop_messages: "only_messages (loop_output env lines s)"
proof (induction lines arbitrary: s)
  case (Cons line lines)
  have "only_messages (line_output env line s)" by (simp add: line_output_def event_messages split: sum.split option.split)
  with Cons show ?case by (simp split: prod.split option.split)
qed simp

lemma bar_no_newline: "CHR 0x0A \<notin> set bar"
  by (simp add: bar_def)

lemma names_no_newline:
  "CHR 0x0A \<notin> set (op_name (any_ops szh szm cap) e)" "CHR 0x0A \<notin> set (scc_name d)" "CHR 0x0A \<notin> set (reach_name r)"
proof -
  show "CHR 0x0A \<notin> set (op_name (any_ops szh szm cap) e)" by (cases e) (simp_all add: any_ops_def cms_ops_def hm_ops_def mg_ops_def cms_name_def hm_name_def mg_name_def)
  show "CHR 0x0A \<notin> set (scc_name d)" by (cases d) simp_all
  show "CHR 0x0A \<notin> set (reach_name r)" by (cases r) simp_all
qed

lemma summary_messages:
  assumes "env_ops env = any_ops szh szm cap"
    and "CHR 0x0A \<notin> set (pc_alerts_file c) \<union> set (pc_graph_file c) \<union> set (pc_stats_file c)"
  shows "list_all is_message (summary env s n c)"
  using assms by (simp add: summary_def is_message_def numbers_no_newline names_no_newline bar_no_newline)

text \<open>The lines of a run between its start and the summary\<close>

lemma output_lines:
  assumes "only_messages os" and "\<forall>a \<in> set (sents os). CHR 0x0A \<notin> set (to_json a)"
    and "\<forall>s. NatsStub s \<in> set hs \<longrightarrow> CHR 0x0A \<notin> set s"
  shows "\<forall>l \<in> set (concat (map (lines_of hs) os)). CHR 0x0A \<notin> set l"
    and "filter (\<lambda>l. l \<noteq> [] \<and> hd l = CHR ''{'') (concat (map (lines_of hs) os)) =
      concat (map (\<lambda>a. replicate (count_list hs (StreamHandler True)) (to_json a)) (sents os))"
proof -
  have "CHR 0x0A \<notin> set l" if "h \<in> set hs" "l \<in> set (err_lines h a)" "CHR 0x0A \<notin> set (to_json a)" for h l a
    by (rule handler.exhaust [of h]) (use that assms(3) in \<open>auto split: if_splits\<close>)
  then have each: "CHR 0x0A \<notin> set l" if "x \<in> set os" "l \<in> set (lines_of hs x)" for x l
    using that assms(1,2) by (cases x) (fastforce simp: only_messages_def is_message_def sents_def)+
  then show "\<forall>l \<in> set (concat (map (lines_of hs) os)). CHR 0x0A \<notin> set l" by auto
  show "filter (\<lambda>l. l \<noteq> [] \<and> hd l = CHR ''{'') (concat (map (lines_of hs) os)) =
      concat (map (\<lambda>a. replicate (count_list hs (StreamHandler True)) (to_json a)) (sents os))"
    using assms(1)
  proof (induction os)
    case (Cons x os)
    then show ?case by (cases x) (auto simp: filter_alert is_message_def)
  qed simp
qed

section \<open>The run of the log and the run of the files\<close>

lemma logged_run_files:
  assumes "logged_run w c env e hs input io = (st, io')"
  shows "\<exists>io''. run_engine w c env e hs input io = (st, io'') \<and> same_files io' io''"
proof -
  let ?ls = "getlines CHR 0x0A input"
  obtain s r where s: "event_loop env ?ls (engine_start e) = (s, r)" by (cases "event_loop env ?ls (engine_start e)")
  let ?io = "fold (put_output hs) (loop_output env ?ls (engine_start e)) (write_message ''[pipeline] Processing events...'' io)"
  have "en_sent s = sents (loop_output env ?ls (engine_start e))"
    using sents_run [of env ?ls e] by (simp add: s)
  moreover have "same_files (write_message m io) io" for m by (simp add: same_files_def write_message_def write_err_def)
  ultimately have f: "same_files ?io (fold (send_to_chain hs) (en_sent s) io)" using put_output_files by metis
  note defs = logged_run_def run_engine_def s Let_def prod.case
  show ?thesis
  proof (cases r)
    case (Some err)
    then show ?thesis using assms f by (auto simp: defs)
  next
    case None
    show ?thesis
    proof (cases "find_sccs (env_scc env) (en_graph s)")
      case (Inl err)
      then show ?thesis using assms f None by (auto simp: defs final_report_def)
    next
      case (Inr comps)
      then obtain snapshot stats where rep: "final_report env s = Inr (snapshot, stats)" by (auto simp: final_report_def)
      let ?w = "\<lambda>io. write_whole w (pc_stats_file c) stats (write_whole w (pc_graph_file c) snapshot io)"
      have "same_files (?w ?io) (?w (fold (send_to_chain hs) (en_sent s) io))" using f by (intro write_whole_files)
      then have "same_files (fold write_message ms (?w ?io)) (?w (fold (send_to_chain hs) (en_sent s) io))" for ms
        using messages_files [of ms "?w ?io"] by (simp add: same_files_def)
      then show ?thesis using assms None Inr rep by (auto simp: defs)
    qed
  qed
qed

lemma write_whole_err: "io_err (write_whole w p s io) = io_err io"
  by (simp add: write_whole_def)

lemma logged_run_err:
  assumes "logged_run w c env e hs input io = (st, io')"
  shows "\<exists>ms. io_err io' = io_err io @ unlines (''[pipeline] Processing events...'' #
      concat (map (lines_of hs) (loop_output env (getlines CHR 0x0A input) (engine_start e))) @ ms) \<and>
    (ms = [] \<or> (\<exists>s n. ms = summary env s n c))"
proof -
  let ?ls = "getlines CHR 0x0A input"
  obtain s r where s: "event_loop env ?ls (engine_start e) = (s, r)" by (cases "event_loop env ?ls (engine_start e)")
  let ?io = "fold (put_output hs) (loop_output env ?ls (engine_start e)) (write_message ''[pipeline] Processing events...'' io)"
  have e: "io_err ?io = io_err io @ unlines (''[pipeline] Processing events...'' #
      concat (map (lines_of hs) (loop_output env ?ls (engine_start e))))"
    by (simp only: put_output_err) (simp add: write_message_def write_err_def)
  have "io' = ?io \<or> (\<exists>n snapshot stats. io' = fold write_message (summary env s n c)
      (write_whole w (pc_stats_file c) stats (write_whole w (pc_graph_file c) snapshot ?io)))"
    using assms by (auto simp: logged_run_def s Let_def split: option.splits sum.splits prod.splits)
  then show ?thesis
  proof
    assume "io' = ?io"
    then show ?thesis using e by (intro exI [of _ "[]"]) simp
  next
    assume "\<exists>n snapshot stats. io' = fold write_message (summary env s n c)
      (write_whole w (pc_stats_file c) stats (write_whole w (pc_graph_file c) snapshot ?io))"
    then obtain n where "io_err io' = io_err ?io @ unlines (summary env s n c)" by (auto simp: messages_err write_whole_err)
    then show ?thesis using e by (intro exI [of _ "summary env s n c"]) auto
  qed
qed

section \<open>Property\<close>

text \<open>The log of a run. Standard error carries the log lines and, through a handler of type
  \<open>stderr\<close>, the alerts; whatever the input, also of a run that dies, what the run appends to it is a sequence
  of whole lines, and those that start with a brace are the JSON texts of the alerts the engine sent, all of
  them, in order, once for each such handler. The log costs nothing: the exit status and the files are those
  of the run without it.\<close>

theorem run_log:
  assumes "env_ops env = any_ops szh szm cap" and "\<forall>s. NatsStub s \<in> set hs \<longrightarrow> CHR 0x0A \<notin> set s"
    and "CHR 0x0A \<notin> set (pc_alerts_file c) \<union> set (pc_graph_file c) \<union> set (pc_stats_file c)"
  shows "let (st, io') = logged_run w c env e hs input io;
      sent = en_sent (fst (event_loop env (getlines CHR 0x0A input) (engine_start e)))
    in (\<exists>io''. run_engine w c env e hs input io = (st, io'') \<and> io_files io' = io_files io'') \<and>
       (\<exists>ls. io_err io' = io_err io @ unlines ls \<and> getlines CHR 0x0A (unlines ls) = ls \<and>
          filter (\<lambda>l. l \<noteq> [] \<and> hd l = CHR ''{'') ls =
            concat (map (\<lambda>a. replicate (count_list hs (StreamHandler True)) (to_json a)) sent))"
proof -
  let ?ls = "getlines CHR 0x0A input" let ?os = "loop_output env ?ls (engine_start e)"
  let ?sent = "en_sent (fst (event_loop env ?ls (engine_start e)))"
  let ?json = "filter (\<lambda>l. l \<noteq> [] \<and> hd l = CHR ''{'')"
  obtain st io' where run: "logged_run w c env e hs input io = (st, io')" by (cases "logged_run w c env e hs input io")
  have sent: "?sent = sents ?os" by (rule sents_run)
  have "\<forall>a \<in> set (sents ?os). CHR 0x0A \<notin> set (to_json a)"
    using run_sent(1) [OF refl, of env ?ls e] made_by_json(3) printable_no_newline [OF printable_to_json]
    unfolding sent by blast
  note out = output_lines [OF loop_messages this assms(2)]
  obtain ms where ms: "io_err io' = io_err io @ unlines (''[pipeline] Processing events...'' # concat (map (lines_of hs) ?os) @ ms)"
    "ms = [] \<or> (\<exists>s n. ms = summary env s n c)"
    using logged_run_err [OF run] by blast
  have m: "list_all is_message ms" using ms(2) summary_messages [OF assms(1,3)] by auto
  let ?all = "''[pipeline] Processing events...'' # concat (map (lines_of hs) ?os) @ ms"
  have "\<forall>l \<in> set ?all. CHR 0x0A \<notin> set l" using out(1) m by (auto simp: list_all_iff is_message_def)
  then have g: "getlines CHR 0x0A (unlines ?all) = ?all" using getlines_lines by (simp only: unlines_def)
  have "?json ?all = concat (map (\<lambda>a. replicate (count_list hs (StreamHandler True)) (to_json a)) ?sent)"
    using out(2) filter_messages [OF m] by (simp add: sent)
  with ms(1) g have "\<exists>ls. io_err io' = io_err io @ unlines ls \<and> getlines CHR 0x0A (unlines ls) = ls \<and>
      ?json ls = concat (map (\<lambda>a. replicate (count_list hs (StreamHandler True)) (to_json a)) ?sent)"
    by blast
  moreover have "\<exists>io''. run_engine w c env e hs input io = (st, io'') \<and> io_files io' = io_files io''"
    using logged_run_files [OF run] by (auto simp: same_files_def)
  ultimately show ?thesis unfolding run Let_def prod.case by blast
qed

theorem run_log_witness:
  "\<exists>st io' ls. logged_run demo_world default_config demo_env (AnyHashMap hm_new) [StreamHandler True]
       (w_stdin demo_world) no_io = (st, io') \<and> io_err io' = unlines ls \<and>
     filter (\<lambda>l. l \<noteq> [] \<and> hd l = CHR ''{'') ls =
       map to_json (en_sent (fst (event_loop demo_env [demo_line 1 2, demo_line 2 1] (engine_start (AnyHashMap hm_new)))))"
proof -
  let ?r = "logged_run demo_world default_config demo_env (AnyHashMap hm_new) [StreamHandler True] (w_stdin demo_world) no_io"
  have h: "env_ops demo_env = any_ops 0 0 (\<lambda>_. 0)" "\<forall>s. NatsStub s \<in> set [StreamHandler True] \<longrightarrow> CHR 0x0A \<notin> set s"
    "CHR 0x0A \<notin> set (pc_alerts_file default_config) \<union> set (pc_graph_file default_config) \<union> set (pc_stats_file default_config)"
    by (simp_all add: demo_env_def default_config_def)
  obtain st io' where r: "?r = (st, io')" by (cases ?r)
  have one: "concat (map (\<lambda>a. replicate (count_list [StreamHandler True] (StreamHandler True)) (to_json a)) as) = map to_json as" for as
    by (induction as) simp_all
  have z: "io_err no_io = []" by (simp add: no_io_def)
  from run_log [OF h, of demo_world "AnyHashMap hm_new" "w_stdin demo_world" no_io] r show ?thesis
    unfolding r Let_def prod.case one demo_input z append_Nil by blast
qed

end
