(* ===== verification/ConfigClean.thy ===== *)
theory ConfigClean
  imports Config
begin

text \<open>
  What the texts of a configuration can hold. \<open>load_config\<close> (\<open>config_loader.cpp\<close>) takes every one of them out of a
  line of the file, so none has a line break, whatever the file holds; nor has the text of the exception
  when the file is not accepted.
\<close>

section \<open>Pieces of lines\<close>

definition one_line :: "string \<Rightarrow> bool" where
  "one_line s \<longleftrightarrow> CHR 0x0A \<notin> set s"

lemma one_line_simps [simp]:
  "one_line []" "one_line (c # s) \<longleftrightarrow> c \<noteq> CHR 0x0A \<and> one_line s" "one_line (s @ t) \<longleftrightarrow> one_line s \<and> one_line t"
  by (auto simp: one_line_def)

lemma one_line_part: "set s \<subseteq> set t \<Longrightarrow> one_line t \<Longrightarrow> one_line s"
  by (auto simp: one_line_def)

lemma set_substr: "set (substr s i n) \<subseteq> set s"
  by (auto simp: substr_def dest: in_set_takeD in_set_dropD)

lemma set_trim: "set (trim s) \<subseteq> set s"
  using set_substr by (fastforce simp: trim_def split: option.splits)

lemma one_line_pieces:
  assumes "one_line s"
  shows "one_line (trim s)" "one_line (drop n s)" "one_line (trim (drop n s))" "one_line (extract_key s)"
    "one_line (extract_value s)" "one_line (strip_comment s)"
proof -
  have d: "one_line (drop n s)" for n using assms by (rule one_line_part [rotated]) (rule set_drop_subset)
  have t: "one_line u \<Longrightarrow> one_line (trim u)" for u by (rule one_line_part [OF set_trim])
  have u: "one_line (substr s i n)" for i n using assms by (rule one_line_part [OF set_substr])
  show "one_line (trim s)" "one_line (drop n s)" "one_line (trim (drop n s))" using assms d t by blast+
  show "one_line (extract_key s)" "one_line (extract_value s)" "one_line (strip_comment s)"
    using assms d t u by (auto simp: extract_key_def extract_value_def strip_comment_def split: option.split)
qed

lemma getlines_one_line: "l \<in> set (getlines CHR 0x0A s) \<Longrightarrow> one_line l"
proof (induction "CHR 0x0A" s rule: getlines.induct)
  case (1 s)
  show ?case
  proof (cases "s = []")
    case False
    have "one_line (takeWhile (\<lambda>c. c \<noteq> CHR 0x0A) s)" by (auto simp: one_line_def dest: set_takeWhileD)
    then show ?thesis using 1 False by (subst (asm) getlines.simps) auto
  qed (use 1 in simp)
qed

section \<open>The texts of a configuration\<close>

definition handler_clean :: "handler_config \<Rightarrow> bool" where
  "handler_clean e \<longleftrightarrow> one_line (hc_name e) \<and> (\<forall>k v. hc_params e k = Some v \<longrightarrow> one_line v)"

definition config_clean :: "pipeline_config \<Rightarrow> bool" where
  "config_clean c \<longleftrightarrow>
     one_line (pc_event_source_path c) \<and> one_line (pc_alerts_file c) \<and> one_line (pc_graph_file c) \<and>
     one_line (pc_stats_file c) \<and> list_all (\<lambda>n. one_line (ce_name n)) (pc_networks c) \<and>
     list_all handler_clean (pc_alert_handlers c)"

definition loader_clean :: "loader \<Rightarrow> bool" where
  "loader_clean s \<longleftrightarrow> config_clean (ld_cfg s) \<and> one_line (ce_name (ld_net s)) \<and>
     (ld_handler s \<longrightarrow> pc_alert_handlers (ld_cfg s) \<noteq> [])"

lemma loader_clean_flags [simp]:
  "loader_clean (s\<lparr>ld_in_params := b\<rparr>) = loader_clean s" "loader_clean (s\<lparr>ld_in_handler_params := b\<rparr>) = loader_clean s"
  "loader_clean (s\<lparr>ld_rule := b\<rparr>) = loader_clean s" "loader_clean (s\<lparr>ld_section := sec\<rparr>) = loader_clean s"
  "loader_clean (s\<lparr>ld_algo_sub := sec\<rparr>) = loader_clean s"
  by (simp_all add: loader_clean_def)

lemma map_last_clean:
  assumes "list_all P xs" and "xs \<noteq> []" and "\<And>x. P x \<Longrightarrow> P (f x)"
  shows "list_all P (map_last f xs)" and "map_last f xs \<noteq> []"
  using assms by (auto simp: map_last_def list_all_iff in_set_butlastD)

lemma top_line_clean: "loader_clean s \<Longrightarrow> loader_clean (top_line key s)"
  by (simp add: top_line_def Let_def loader_clean_def split: option.split)

lemma push_net_clean: "loader_clean s \<Longrightarrow> loader_clean (push_net s)"
  by (auto simp: push_net_def loader_clean_def config_clean_def)

lemma on_target_clean: "on_target sec f c = Inr c' \<Longrightarrow> config_clean c \<Longrightarrow> config_clean c' \<and> pc_alert_handlers c' = pc_alert_handlers c"
  by (cases sec) (auto simp: bind_res_eq_Inr config_clean_def)

lemma algorithm_line_clean: "algorithm_line indent key val s = Inr s' \<Longrightarrow> loader_clean s \<Longrightarrow> loader_clean s'"
  by (auto simp: algorithm_line_def Let_def bind_res_eq_Inr loader_clean_def dest!: on_target_clean
      split: if_splits option.splits)

lemma network_line_clean:
  assumes "network_line trimmed key val s = Inr s'" and "loader_clean s" and "one_line val"
  shows "loader_clean s'"
  using assms push_net_clean [OF assms(2)]
  by (auto simp: network_line_def net_of_cidr_def Let_def bind_res_eq_Inr loader_clean_def empty_net_def
      split: if_splits option.splits)

lemma on_handler_clean:
  assumes "loader_clean s" and "ld_handler s" and "\<And>e. handler_clean e \<Longrightarrow> handler_clean (f e)"
  shows "loader_clean (on_handler f s)"
proof -
  have "list_all handler_clean (pc_alert_handlers (ld_cfg s))" "pc_alert_handlers (ld_cfg s) \<noteq> []"
    using assms(1,2) by (simp_all add: loader_clean_def config_clean_def)
  from map_last_clean [where f = f, OF this assms(3)] show ?thesis
    using assms(1) by (simp add: loader_clean_def config_clean_def on_handler_def)
qed

lemma new_handler_clean:
  assumes "loader_clean s" and "one_line nm"
  shows "loader_clean (s\<lparr>ld_cfg := (ld_cfg s)\<lparr>pc_alert_handlers := pc_alert_handlers (ld_cfg s) @
     [\<lparr>hc_name = nm, hc_params = (\<lambda>_. None)\<rparr>]\<rparr>, ld_handler := True, ld_in_handler_params := b\<rparr>)"
  using assms by (simp add: loader_clean_def config_clean_def handler_clean_def)

lemma handler_line_clean:
  assumes "loader_clean s" and "one_line trimmed" and "one_line val"
  shows "loader_clean (handler_line trimmed key val s)"
proof (cases "hd trimmed = CHR ''-''")
  case True
  have "one_line (case find_str ''name:'' trimmed of None \<Rightarrow> '''' | Some pos \<Rightarrow> trim (drop (pos + 5) trimmed))"
    using one_line_pieces(3) [OF assms(2)] by (simp split: option.split)
  from new_handler_clean [OF assms(1) this, of False] show ?thesis by (simp add: handler_line_def True Let_def)
next
  case False
  show ?thesis
  proof (cases "ld_handler s")
    case h: True
    have "handler_clean (e\<lparr>hc_name := val\<rparr>)" "handler_clean (e\<lparr>hc_params := (hc_params e)(key \<mapsto> val)\<rparr>)"
      if "handler_clean e" for e
      using that assms(3) by (auto simp: handler_clean_def)
    note this [THEN on_handler_clean [OF assms(1) h]]
    then show ?thesis using assms(1) by (simp add: handler_line_def False h)
  qed (simp add: handler_line_def False assms(1))
qed

lemma rule_line_clean: "loader_clean s \<Longrightarrow> loader_clean (rule_line trimmed key val s)"
  by (auto simp: rule_line_def on_rule_def Let_def loader_clean_def config_clean_def)

lemma other_lines_clean:
  "config_clean c \<Longrightarrow> one_line val \<Longrightarrow> config_clean (event_source_line key val c)"
  "config_clean c \<Longrightarrow> one_line val \<Longrightarrow> config_clean (output_line key val c)"
  "config_clean c \<Longrightarrow> config_clean (soc_line key val c)"
  "config_clean c \<Longrightarrow> analysis_line key val c = Inr c' \<Longrightarrow> config_clean c'"
  "pc_alert_handlers (event_source_line key val c) = pc_alert_handlers c"
  "pc_alert_handlers (output_line key val c) = pc_alert_handlers c"
  "pc_alert_handlers (soc_line key val c) = pc_alert_handlers c"
  "analysis_line key val c = Inr c' \<Longrightarrow> pc_alert_handlers c' = pc_alert_handlers c"
  by (auto simp: event_source_line_def output_line_def soc_line_def analysis_line_def config_clean_def bind_res_eq_Inr
      split: if_splits)

lemma load_line_clean:
  assumes "load_line raw s = Inr s'" and "loader_clean s" and "one_line raw"
  shows "loader_clean s'"
proof -
  let ?t = "trim (strip_comment raw)"
  have t: "one_line ?t" by (intro one_line_pieces(1,6) assms(3))
  then have v: "one_line (extract_value ?t)" by (rule one_line_pieces(5))
  have c: "loader_clean (s\<lparr>ld_cfg := c\<rparr>)" if "config_clean c" "pc_alert_handlers c = pc_alert_handlers (ld_cfg s)" for c
    using that assms(2) by (simp add: loader_clean_def)
  have s: "config_clean (ld_cfg s)" using assms(2) by (simp add: loader_clean_def)
  note lines = top_line_clean [OF assms(2)] rule_line_clean [OF assms(2)] handler_line_clean [OF assms(2) t v]
    network_line_clean [OF _ assms(2) v] algorithm_line_clean [OF _ assms(2)]
  have settings: "loader_clean (s\<lparr>ld_cfg := event_source_line key (extract_value ?t) (ld_cfg s)\<rparr>)"
    "loader_clean (s\<lparr>ld_cfg := output_line key (extract_value ?t) (ld_cfg s)\<rparr>)"
    "loader_clean (s\<lparr>ld_cfg := soc_line key (extract_value ?t) (ld_cfg s)\<rparr>)"
    "analysis_line key val (ld_cfg s) = Inr c' \<Longrightarrow> loader_clean (s\<lparr>ld_cfg := c'\<rparr>)" for key val c'
    using other_lines_clean(1-3,5-7) s v by (auto intro: c) (blast intro: c other_lines_clean(4,8) s)
  show ?thesis
    using assms(1,2)
    by (auto simp: load_line_def Let_def bind_res_eq_Inr settings(1-3) lines(1-3)
        split: if_splits config_section.splits dest: lines(4,5) settings(4))
qed

lemma loaded_config_clean:
  assumes "load_config junk path contents = Inr c"
  shows "config_clean c"
proof -
  from assms obtain body s where
    s: "fold_res load_line (getlines CHR 0x0A body) (load_start junk) = Inr s" "c = ld_cfg (push_net s)"
    by (auto simp: load_config_def bind_res_eq_Inr split: option.splits)
  have "loader_clean (load_start junk)"
    by (auto simp: loader_clean_def load_start_def config_clean_def default_config_def split: prod.split)
  then have "loader_clean s"
    by (rule fold_res_invariant [OF s(1), where P = "\<lambda>_. loader_clean"]) (metis load_line_clean getlines_one_line)
  then show ?thesis using push_net_clean [of s] s(2) by (simp add: loader_clean_def)
qed

section \<open>Why a file is not accepted\<close>

definition number_error :: "error \<Rightarrow> bool" where
  "number_error e \<longleftrightarrow> e \<in> {InvalidArgument ''stoi'', OutOfRange ''stoi''}"

lemma stoi_error: "stoi s = Inl e \<Longrightarrow> number_error e"
  by (auto simp: stoi_def scan_number_def number_error_def bind_res_eq_Inl Let_def split: if_splits prod.splits)

lemma cidr_octets_error: "cidr_octets parts octets i = Inl e \<Longrightarrow> number_error e"
  by (induction parts octets i rule: cidr_octets.induct) (auto simp: bind_res_eq_Inl dest: stoi_error split: if_splits)

lemma parse_cidr_error: "parse_cidr cidr r = Inl e \<Longrightarrow> number_error e"
  by (auto simp: parse_cidr_def bind_res_eq_Inl Let_def dest: stoi_error cidr_octets_error
      split: if_splits prod.splits option.splits)

lemma set_param_error: "set_param params key val a = Inl e \<Longrightarrow> number_error e"
  by (auto simp: set_param_def bind_res_eq_Inl Let_def dest: stoi_error split: if_splits)

lemma line_errors:
  "algorithm_line indent key val s = Inl e \<Longrightarrow> number_error e"
  "network_line trimmed key val s = Inl e \<Longrightarrow> number_error e"
  "analysis_line key val c = Inl e \<Longrightarrow> number_error e"
proof -
  have "on_target sec (set_param params key val) c = Inl e \<Longrightarrow> number_error e" for sec params c
    by (cases sec) (auto simp: bind_res_eq_Inl dest: set_param_error)
  then show "algorithm_line indent key val s = Inl e \<Longrightarrow> number_error e"
    by (auto simp: algorithm_line_def bind_res_eq_Inl Let_def split: if_splits option.splits)
  show "network_line trimmed key val s = Inl e \<Longrightarrow> number_error e"
    by (auto simp: network_line_def net_of_cidr_def bind_res_eq_Inl Let_def dest: stoi_error parse_cidr_error
        split: if_splits option.splits prod.splits)
  show "analysis_line key val c = Inl e \<Longrightarrow> number_error e"
    by (auto simp: analysis_line_def bind_res_eq_Inl dest: stoi_error split: if_splits)
qed

lemma load_line_error: "load_line raw s = Inl e \<Longrightarrow> number_error e"
  by (auto simp: load_line_def Let_def bind_res_eq_Inl split: if_splits config_section.splits dest: line_errors)

text \<open>A file that can be opened is refused only for a number in it.\<close>

lemma load_config_error:
  assumes "load_config junk path contents = Inl e"
  shows "contents = None \<and> e = RuntimeError (''Cannot open config: '' @ path) \<or> number_error e"
proof -
  have "fold_res load_line ls s = Inl e \<Longrightarrow> number_error e" for ls s
    by (induction ls arbitrary: s) (auto simp: bind_res_eq_Inl dest: load_line_error)
  then show ?thesis using assms by (auto simp: load_config_def bind_res_eq_Inl split: option.splits)
qed

end
