(* ===== verification/EngineMain.thy ===== *)
theory EngineMain
  imports EngineLog ConfigClean
begin

text \<open>
  \<open>main\<close> of the engine (\<open>pipeline/src/engine.cpp\<close>) with everything it writes to standard error, from the first line
  to the last: the help text, the messages of the set-up, those of a start that fails, and the log of the
  run. \<open>Pipeline\<close> has the same program without its messages, and \<open>EngineLog\<close> the run.
\<close>

section \<open>The set-up\<close>

text \<open>\<open>e.what()\<close>\<close>

fun what :: "error \<Rightarrow> string" where
  "what (InvalidArgument s) = s"
| "what (OutOfRange s) = s"
| "what (RuntimeError s) = s"
| "what DivideByZero = ''''"
| "what Undefined = ''''"

definition engine_usage :: "string \<Rightarrow> string list" where
  "engine_usage prog =
     [''Usage: '' @ prog @ '' [--config <path>]'',
      '''',
      ''Zero-Trust Network Mapper '' @ dash @ '' Pipeline Engine'',
      ''Processes network events through DSA algorithms.'']"

definition no_config_messages :: "string \<Rightarrow> string list" where
  "no_config_messages config_path =
     [''[pipeline] Error: Cannot open config: '' @ config_path, ''[pipeline] Tried:''] @
     map (\<lambda>p. ''[pipeline]   '' @ p) (config_candidates config_path)"

text \<open>The messages of the networks, up to one whose insertion fails\<close>

fun network_messages :: "cidr_entry list \<Rightarrow> lpm \<Rightarrow> string list" where
  "network_messages [] t = []"
| "network_messages (n # ns) t =
     (case lpm_insert t (ce_prefix n) (ce_prefix_len n) (ce_label n) of
        Inl err \<Rightarrow> []
      | Inr t' \<Rightarrow>
          (''[pipeline]   Network: '' @ ce_name n @ '' (label='' @ int_to_string (ce_label n) @ '')'') #
          network_messages ns t')"

text \<open>The messages of the registries, up to a name that is not registered. The only classifier is \<open>LPMTrie\<close>.\<close>

definition env_messages :: "any_estimator estimator_ops \<Rightarrow> pipeline_config \<Rightarrow> string list" where
  "env_messages ops c =
     (case create estimators (ac_name (pc_frequency c)) of Inl err \<Rightarrow> [] | Inr e \<Rightarrow>
       (''[pipeline] Frequency estimator: '' @ op_name ops e) #
     (case create detectors (ac_name (pc_scc c)) of Inl err \<Rightarrow> [] | Inr d \<Rightarrow>
       (''[pipeline] SCC detector: '' @ scc_name d) #
     (case create analysers (ac_name (pc_reachability c)) of Inl err \<Rightarrow> [] | Inr r \<Rightarrow>
       (''[pipeline] Reachability: '' @ reach_name r) #
     (case create classifiers (ac_name (pc_ip_classifier c)) of Inl err \<Rightarrow> [] | Inr t \<Rightarrow>
       ''[pipeline] IP classifier: lpm_trie'' # network_messages (pc_networks c) t))))"

definition source_message :: "world \<Rightarrow> pipeline_config \<Rightarrow> string" where
  "source_message w c =
     (if pc_event_source_type c = ''file'' then
        if w_files w (pc_event_source_path c) = None
        then ''[pipeline] Error: cannot open event file: '' @ pc_event_source_path c
        else ''[pipeline] Reading events from: '' @ pc_event_source_path c
      else ''[pipeline] Reading events from stdin (pipe from collector)'')"

fun logged_chain :: "(string \<Rightarrow> bool) \<Rightarrow> handler_config list \<Rightarrow> handler list \<Rightarrow> io \<Rightarrow> handler list res \<times> io" where
  "logged_chain can_open [] hs io = (Inr hs, io)"
| "logged_chain can_open (e # specs) hs io =
     (case create_handler (alert_handlers can_open) e io of
        Inl err \<Rightarrow>
          (Inl err, write_message (''[pipeline] Error creating handler '' @ [CHR 0x27] @ hc_name e @ [CHR 0x27] @ '': '' @
             what err) io)
      | Inr (h, io') \<Rightarrow>
          logged_chain can_open specs (hs @ [h]) (write_message (''[pipeline] Alert handler: '' @ handler_name h) io'))"

section \<open>\<open>main\<close>\<close>

text \<open>The last part: the handlers and the run.\<close>

definition logged_start ::
  "world \<Rightarrow> pipeline_config \<Rightarrow> any_estimator engine_env \<Rightarrow> any_estimator \<Rightarrow> string \<Rightarrow> io \<Rightarrow> exit_status \<times> io" where
  "logged_start w c env e input io =
     (case logged_chain (w_writable w) (chain_entries (pc_alert_handlers c) (pc_alerts_file c)) [] io of
        (Inl err, io) \<Rightarrow> (Exit 1, io)
      | (Inr hs, io) \<Rightarrow> logged_run w c env e hs input io)"

definition logged_main ::
  "any_estimator estimator_ops \<Rightarrow> u32 \<times> u8 \<times> int \<Rightarrow> world \<Rightarrow> string \<Rightarrow> string list \<Rightarrow> io \<Rightarrow> exit_status \<times> io" where
  "logged_main ops junk w prog args io =
     (case parse_engine_args args ''config/pipeline.yaml'' of
        None \<Rightarrow> (Exit 0, fold write_message (engine_usage prog) io)
      | Some config_path \<Rightarrow>
     (case resolve_config w config_path of
        None \<Rightarrow> (Exit 1, fold write_message (no_config_messages config_path) io)
      | Some path \<Rightarrow>
          let io = write_message (''[pipeline] Loading config: '' @ path) io in
     (case load_config junk path (w_files w path) of
        Inl err \<Rightarrow> (Exit 1, write_message (''[pipeline] Error: '' @ what err) io)
      | Inr c \<Rightarrow>
          let io = fold write_message (env_messages ops c) io in
     (case make_env ops w c of
        Inl err \<Rightarrow> (Terminated err, io)
      | Inr (env, e) \<Rightarrow>
          let io = write_message (source_message w c) io in
     (case event_source w c of
        None \<Rightarrow> (Exit 1, io)
      | Some input \<Rightarrow>
     logged_start w c env e input io)))))"

section \<open>The run that \<open>main\<close> starts\<close>

text \<open>What the event loop is started with, if the set-up succeeds.\<close>

definition engine_starts ::
  "any_estimator estimator_ops \<Rightarrow> u32 \<times> u8 \<times> int \<Rightarrow> world \<Rightarrow> string list \<Rightarrow> io \<Rightarrow>
     (any_estimator engine_env \<times> any_estimator \<times> handler list \<times> string) option" where
  "engine_starts ops junk w args io =
     (case parse_engine_args args ''config/pipeline.yaml'' of None \<Rightarrow> None | Some config_path \<Rightarrow>
     (case resolve_config w config_path of None \<Rightarrow> None | Some path \<Rightarrow>
     (case load_config junk path (w_files w path) of Inl err \<Rightarrow> None | Inr c \<Rightarrow>
     (case make_env ops w c of Inl err \<Rightarrow> None | Inr (env, e) \<Rightarrow>
     (case event_source w c of None \<Rightarrow> None | Some input \<Rightarrow>
     (case build_chain (w_writable w) (chain_entries (pc_alert_handlers c) (pc_alerts_file c)) io of
        (Inl err, io) \<Rightarrow> None
      | (Inr hs, io) \<Rightarrow> Some (env, e, hs, input)))))))"

section \<open>The files\<close>

lemma same_files_refl [simp]: "same_files io io"
  and same_files_sym: "same_files io io' \<Longrightarrow> same_files io' io"
  and same_files_trans [trans]: "same_files io io' \<Longrightarrow> same_files io' io'' \<Longrightarrow> same_files io io''"
  by (simp_all add: same_files_def)

lemma write_message_files [simp]: "same_files (write_message m io) io' = same_files io io'"
  by (simp add: same_files_def write_message_def write_err_def)

lemma messages_keep_files [simp]: "same_files (fold write_message ms io) io' = same_files io io'"
  using messages_files [of ms io] same_files_trans same_files_sym by blast

lemma create_same_files:
  assumes "same_files io io'"
  shows "create_handler (alert_handlers can_open) e io = Inl err \<Longrightarrow> create_handler (alert_handlers can_open) e io' = Inl err"
    and "create_handler (alert_handlers can_open) e io = Inr (h, i) \<Longrightarrow>
      \<exists>i'. create_handler (alert_handlers can_open) e io' = Inr (h, i') \<and> same_files i i'"
  using assms
  by (auto simp: create_handler_def alert_handlers_lookup make_file_alert_handler_def make_stdout_alert_handler_def
      make_nats_alert_handler_def open_trunc_def same_files_def write_err_def Let_def split: if_splits)

lemma logged_chain_files:
  assumes "same_files io io'" and "logged_chain can_open specs hs io = (r, i)"
  shows "\<exists>i'. build_chain_from can_open specs hs io' = (r, i') \<and> same_files i i'"
  using assms
proof (induction specs arbitrary: hs io io')
  case (Cons e specs)
  show ?case
  proof (cases "create_handler (alert_handlers can_open) e io")
    case (Inl err)
    with create_same_files(1) [OF Cons.prems(1) Inl] Cons.prems show ?thesis by auto
  next
    case (Inr a)
    obtain h j where a: "a = (h, j)" by (cases a)
    from create_same_files(2) [OF Cons.prems(1) Inr [unfolded a]] obtain j' where
      j: "create_handler (alert_handlers can_open) e io' = Inr (h, j')" "same_files j j'" by blast
    have "logged_chain can_open specs (hs @ [h]) (write_message (''[pipeline] Alert handler: '' @ handler_name h) j) = (r, i)"
      using Cons.prems(2) Inr a by simp
    from Cons.IH [OF _ this, of j'] j show ?thesis by simp
  qed
qed simp

lemma run_engine_files:
  assumes "same_files io io'" and "run_engine w c env e hs input io = (st, i)"
  shows "\<exists>i'. run_engine w c env e hs input io' = (st, i') \<and> same_files i i'"
proof -
  have "same_files (fold (send_to_chain hs) as io) (fold (send_to_chain hs) as io')" for as
    using assms(1) by (induction as arbitrary: io io') (simp_all add: chain_keeps_same)
  then show ?thesis
    using assms(2) write_whole_files
    by (auto simp: run_engine_def Let_def split: prod.splits option.splits sum.splits)
qed

lemma logged_start_files:
  assumes "logged_start w c env e input i = (st, io')" and "same_files i io"
  shows "\<exists>io''. (case build_chain (w_writable w) (chain_entries (pc_alert_handlers c) (pc_alerts_file c)) io of
        (Inl err, io) \<Rightarrow> (Exit 1, io)
      | (Inr hs, io) \<Rightarrow> run_engine w c env e hs input io) = (st, io'') \<and> same_files io' io''"
proof -
  let ?specs = "chain_entries (pc_alert_handlers c) (pc_alerts_file c)"
  obtain r j where l: "logged_chain (w_writable w) ?specs [] i = (r, j)" by (cases "logged_chain (w_writable w) ?specs [] i")
  from logged_chain_files [OF assms(2) l] obtain j' where
    j: "build_chain (w_writable w) ?specs io = (r, j')" "same_files j j'" by (auto simp: build_chain_def)
  show ?thesis
  proof (cases r)
    case (Inl err)
    then show ?thesis using assms(1) l j by (auto simp: logged_start_def)
  next
    case (Inr hs)
    then have "logged_run w c env e hs input j = (st, io')" using assms(1) l by (simp add: logged_start_def)
    from logged_run_files [OF this] obtain k where k: "run_engine w c env e hs input j = (st, k)" "same_files io' k" by blast
    from run_engine_files [OF j(2) k(1)] k(2) j(1) Inr show ?thesis by (auto intro: same_files_trans)
  qed
qed

text \<open>The set-up as far as it comes.\<close>

lemma engine_setup_cases:
  obtains (usage) "parse_engine_args args ''config/pipeline.yaml'' = None"
  | (config) p where "parse_engine_args args ''config/pipeline.yaml'' = Some p" "resolve_config w p = None"
  | (load) p path err where "parse_engine_args args ''config/pipeline.yaml'' = Some p" "resolve_config w p = Some path"
      "load_config junk path (w_files w path) = Inl err"
  | (env) p path c err where "parse_engine_args args ''config/pipeline.yaml'' = Some p" "resolve_config w p = Some path"
      "load_config junk path (w_files w path) = Inr c" "make_env ops w c = Inl err"
  | (source) p path c env e where "parse_engine_args args ''config/pipeline.yaml'' = Some p" "resolve_config w p = Some path"
      "load_config junk path (w_files w path) = Inr c" "make_env ops w c = Inr (env, e)" "event_source w c = None"
  | (start) p path c env e input where "parse_engine_args args ''config/pipeline.yaml'' = Some p" "resolve_config w p = Some path"
      "load_config junk path (w_files w path) = Inr c" "make_env ops w c = Inr (env, e)" "event_source w c = Some input"
proof (cases "parse_engine_args args ''config/pipeline.yaml''")
  case (Some p)
  show ?thesis
  proof (cases "resolve_config w p")
    case path: (Some path)
    show ?thesis
    proof (cases "load_config junk path (w_files w path)")
      case (Inr c)
      show ?thesis
      proof (cases "make_env ops w c")
        case env: (Inr b)
        obtain env e where "b = (env, e)" by (cases b)
        then show ?thesis
          by (cases "event_source w c") (use that(5,6) [OF Some path Inr] env in auto)
      qed (rule that(4) [OF Some path Inr])
    qed (rule that(3) [OF Some path])
  qed (rule that(2) [OF Some])
qed (rule that(1))

lemma logged_main_files:
  assumes "logged_main ops junk w prog args io = (st, io')"
  shows "\<exists>io''. pipeline_main ops junk w args io = (st, io'') \<and> same_files io' io''"
proof (cases rule: engine_setup_cases [where args = args and w = w and junk = junk and ops = ops])
  case (start p path c env e input)
  let ?i = "write_message (source_message w c) (fold write_message (env_messages ops c)
    (write_message (''[pipeline] Loading config: '' @ path) io))"
  have "logged_start w c env e input ?i = (st, io')" using assms by (simp add: logged_main_def start Let_def)
  moreover have "same_files ?i io" by simp
  ultimately show ?thesis using logged_start_files by (simp add: pipeline_main_def start)
qed (use assms in \<open>auto simp: logged_main_def pipeline_main_def Let_def\<close>)

section \<open>The messages\<close>

text \<open>A line that no collector takes for an alert.\<close>

definition note_line :: "string \<Rightarrow> bool" where
  "note_line l \<longleftrightarrow> one_line l \<and> (l = [] \<or> hd l \<noteq> CHR ''{'')"

lemma note_line_Cons [simp]: "note_line (c # s) \<longleftrightarrow> c \<noteq> CHR 0x0A \<and> c \<noteq> CHR ''{'' \<and> one_line s" "note_line []"
  by (auto simp: note_line_def)

lemma filter_notes: "list_all note_line ls \<Longrightarrow> filter (\<lambda>l. l \<noteq> [] \<and> hd l = CHR ''{'') ls = []"
  by (induction ls) (auto simp: note_line_def)

lemma numbers_one_line [simp]:
  "one_line (to_string n)" "one_line (num k)" "one_line (int_to_string i)" "one_line (ip_to_string ip)"
  using numbers_no_newline by (simp_all add: one_line_def)

lemma dash_one_line [simp]: "one_line dash"
  by (simp add: dash_def)

lemma names_one_line [simp]: "one_line (op_name (any_ops szh szm cap) e)" "one_line (scc_name d)" "one_line (reach_name r)"
  using names_no_newline by (simp_all add: one_line_def)

lemma usage_notes: "one_line prog \<Longrightarrow> list_all note_line (engine_usage prog)"
  by (simp add: engine_usage_def)

lemma no_config_notes: "one_line p \<Longrightarrow> list_all note_line (no_config_messages p)"
  by (simp add: no_config_messages_def config_candidates_def)

lemma network_notes: "list_all (\<lambda>n. one_line (ce_name n)) ns \<Longrightarrow> list_all note_line (network_messages ns t)"
  by (induction ns arbitrary: t) (auto split: sum.split)

lemma env_notes: "config_clean c \<Longrightarrow> list_all note_line (env_messages (any_ops szh szm cap) c)"
  by (auto simp: env_messages_def config_clean_def network_notes split: sum.split)

lemma source_note: "config_clean c \<Longrightarrow> note_line (source_message w c)"
  by (simp add: source_message_def config_clean_def)

lemma load_error_one_line: "load_config junk path contents = Inl err \<Longrightarrow> one_line path \<Longrightarrow> one_line (what err)"
  by (drule load_config_error) (auto simp: number_error_def)

lemma args_one_line: "parse_engine_args args p = Some q \<Longrightarrow> \<forall>a \<in> set args. one_line a \<Longrightarrow> one_line p \<Longrightarrow> one_line q"
  by (induction args p rule: parse_engine_args.induct) (auto split: if_splits)

lemma resolve_one_line: "resolve_config w p = Some path \<Longrightarrow> one_line p \<Longrightarrow> one_line path"
  by (auto simp: resolve_config_def config_candidates_def split: if_splits)

text \<open>The handlers\<close>

definition handler_one_line :: "handler \<Rightarrow> bool" where
  "handler_one_line h \<longleftrightarrow> one_line (handler_name h) \<and> (\<forall>s. h = NatsStub s \<longrightarrow> one_line s)"

lemma create_one_line:
  assumes "handler_clean e"
  shows "create_handler (alert_handlers can_open) e io = Inl err \<Longrightarrow> one_line (what err)"
    and "create_handler (alert_handlers can_open) e io = Inr (h, i) \<Longrightarrow>
      handler_one_line h \<and> (\<exists>ls. io_err i = io_err io @ unlines ls \<and> list_all note_line ls)"
proof -
  have g: "one_line (get e k d)" if "one_line d" for k d
    using assms that by (auto simp: get_def handler_clean_def split: option.split)
  show "create_handler (alert_handlers can_open) e io = Inl err \<Longrightarrow> one_line (what err)"
    using assms g by (auto simp: create_handler_def alert_handlers_lookup make_file_alert_handler_def
        make_stdout_alert_handler_def make_nats_alert_handler_def open_trunc_def Let_def handler_clean_def split: if_splits)
  assume c: "create_handler (alert_handlers can_open) e io = Inr (h, i)"
  then have "handler_one_line h"
    using g by (auto simp: create_handler_def alert_handlers_lookup make_file_alert_handler_def handler_one_line_def
        make_stdout_alert_handler_def make_nats_alert_handler_def open_trunc_def Let_def split: if_splits)
  moreover have "\<exists>ls. io_err i = io_err io @ unlines ls \<and> list_all note_line ls"
  proof (cases "hc_name e = ''nats''")
    case True
    let ?l = "''[nats-stub] built without nats-c; alerts for '' @ get e ''subject'' ''zt.alerts.raw'' @
      '' will log to stderr only''"
    have "io_err i = io_err io @ unlines [?l]"
      using c True by (auto simp: create_handler_def alert_handlers_lookup make_nats_alert_handler_def write_err_def Let_def)
    moreover have "list_all note_line [?l]" using g by simp
    ultimately show ?thesis by blast
  next
    case False
    then have "io_err i = io_err io @ unlines []"
      using c by (auto simp: create_handler_def alert_handlers_lookup make_file_alert_handler_def
        make_stdout_alert_handler_def open_trunc_def Let_def split: if_splits)
    then show ?thesis by (intro exI [of _ "[]"]) simp
  qed
  ultimately show "handler_one_line h \<and> (\<exists>ls. io_err i = io_err io @ unlines ls \<and> list_all note_line ls)" ..
qed

lemma chain_notes:
  assumes "logged_chain can_open specs hs io = (r, i)" and "list_all handler_clean specs" and "list_all handler_one_line hs"
  shows "(\<exists>ls. io_err i = io_err io @ unlines ls \<and> list_all note_line ls) \<and>
    (\<forall>hs'. r = Inr hs' \<longrightarrow> list_all handler_one_line hs')"
  using assms
proof (induction specs arbitrary: hs io)
  case Nil
  then show ?case by (auto intro: exI [of _ "[]"])
next
  case (Cons e specs)
  have e: "handler_clean e" "one_line (hc_name e)" using Cons.prems(2) by (simp_all add: handler_clean_def)
  show ?case
  proof (cases "create_handler (alert_handlers can_open) e io")
    case (Inl err)
    let ?l = "''[pipeline] Error creating handler '' @ [CHR 0x27] @ hc_name e @ [CHR 0x27] @ '': '' @ what err"
    have "io_err i = io_err io @ unlines [?l]" "r = Inl err"
      using Cons.prems(1) Inl by (auto simp: write_message_def write_err_def)
    moreover have "list_all note_line [?l]" using create_one_line(1) [OF e(1) Inl] e(2) by simp
    ultimately show ?thesis by blast
  next
    case (Inr a)
    obtain h j where a: "a = (h, j)" by (cases a)
    from create_one_line(2) [OF e(1) Inr [unfolded a]] obtain ls where
      h: "handler_one_line h" and ls: "io_err j = io_err io @ unlines ls" "list_all note_line ls" by blast
    let ?m = "''[pipeline] Alert handler: '' @ handler_name h"
    have m: "note_line ?m" using h by (simp add: handler_one_line_def)
    have run: "logged_chain can_open specs (hs @ [h]) (write_message ?m j) = (r, i)" using Cons.prems(1) Inr a by simp
    have "list_all handler_one_line (hs @ [h])" using Cons.prems(3) h by simp
    from Cons.IH [OF run _ this] Cons.prems(2) obtain ls' where
      i: "io_err i = io_err (write_message ?m j) @ unlines ls'" "list_all note_line ls'"
      "\<forall>hs'. r = Inr hs' \<longrightarrow> list_all handler_one_line hs'" by auto
    have "io_err i = io_err io @ unlines (ls @ ?m # ls')" using i(1) ls(1) by (simp add: write_message_def write_err_def)
    then show ?thesis using ls(2) m i(2,3) by (intro conjI exI [of _ "ls @ ?m # ls'"]) simp_all
  qed
qed

section \<open>The log\<close>

text \<open>What is added to standard error is whole lines, those of them that start with a brace are \<open>js\<close>.\<close>

definition log_grows :: "io \<Rightarrow> io \<Rightarrow> string list \<Rightarrow> bool" where
  "log_grows io io' js \<longleftrightarrow>
     (\<exists>ls. io_err io' = io_err io @ unlines ls \<and> getlines CHR 0x0A (unlines ls) = ls \<and>
        filter (\<lambda>l. l \<noteq> [] \<and> hd l = CHR ''{'') ls = js)"

lemma notes_then_log:
  assumes "io_err j = io_err io @ unlines ms" and "list_all note_line ms" and "log_grows j io' js"
  shows "log_grows io io' js"
proof -
  have g: "getlines CHR 0x0A (unlines ms @ t) = ms @ getlines CHR 0x0A t" for t
    using assms(2) by (induction ms) (simp_all add: note_line_def one_line_def getlines_part)
  obtain ls where "io_err io' = io_err j @ unlines ls" "getlines CHR 0x0A (unlines ls) = ls"
    "filter (\<lambda>l. l \<noteq> [] \<and> hd l = CHR ''{'') ls = js" using assms(3) by (auto simp: log_grows_def)
  then have "io_err io' = io_err io @ unlines (ms @ ls) \<and> getlines CHR 0x0A (unlines (ms @ ls)) = ms @ ls \<and>
      filter (\<lambda>l. l \<noteq> [] \<and> hd l = CHR ''{'') (ms @ ls) = js"
    using assms(1) filter_notes [OF assms(2)] g by simp
  then show ?thesis unfolding log_grows_def by blast
qed

lemma notes_log:
  assumes "io_err io' = io_err io @ unlines ms" and "list_all note_line ms"
  shows "log_grows io io' []"
  by (rule notes_then_log [OF assms]) (auto simp: log_grows_def intro: exI [of _ "[]"])

text \<open>The JSON lines of a run\<close>

definition alert_lines ::
  "any_estimator engine_env \<Rightarrow> any_estimator \<Rightarrow> handler list \<Rightarrow> string \<Rightarrow> string list" where
  "alert_lines env e hs input =
     concat (map (\<lambda>a. replicate (count_list hs (StreamHandler True)) (to_json a))
       (en_sent (fst (event_loop env (getlines CHR 0x0A input) (engine_start e)))))"

lemma start_log:
  assumes "config_clean c" and "env_ops env = any_ops szh szm cap" and "logged_start w c env e input io = (st, io')"
    and "same_files io io0"
  shows "log_grows io io'
    (case build_chain (w_writable w) (chain_entries (pc_alert_handlers c) (pc_alerts_file c)) io0 of
       (Inl err, i) \<Rightarrow> [] | (Inr hs, i) \<Rightarrow> alert_lines env e hs input)"
proof -
  let ?specs = "chain_entries (pc_alert_handlers c) (pc_alerts_file c)"
  have specs: "list_all handler_clean ?specs" using assms(1) by (auto simp: chain_entries_def config_clean_def handler_clean_def)
  obtain r j where chain: "logged_chain (w_writable w) ?specs [] io = (r, j)"
    by (cases "logged_chain (w_writable w) ?specs [] io")
  obtain ms where ms: "io_err j = io_err io @ unlines ms" "list_all note_line ms"
    and hs: "\<forall>hs'. r = Inr hs' \<longrightarrow> list_all handler_one_line hs'" using chain_notes [OF chain specs] by auto
  obtain j' where built: "build_chain (w_writable w) ?specs io0 = (r, j')"
    using logged_chain_files [OF assms(4) chain] by (auto simp: build_chain_def)
  show ?thesis
  proof (cases r)
    case (Inl er)
    then have "io' = j" using assms(3) chain by (simp add: logged_start_def)
    with notes_log [OF ms] built Inl show ?thesis by simp
  next
    case (Inr h)
    then have go: "logged_run w c env e h input j = (st, io')" using assms(3) chain by (simp add: logged_start_def)
    have "\<forall>s. NatsStub s \<in> set h \<longrightarrow> CHR 0x0A \<notin> set s"
      using hs Inr by (auto simp: list_all_iff handler_one_line_def one_line_def)
    moreover have "CHR 0x0A \<notin> set (pc_alerts_file c) \<union> set (pc_graph_file c) \<union> set (pc_stats_file c)"
      using assms(1) by (auto simp: config_clean_def one_line_def)
    ultimately have "log_grows j io' (alert_lines env e h input)"
      using run_log [OF assms(2), of h c w e input j] unfolding log_grows_def alert_lines_def go Let_def prod.case by blast
    with notes_then_log [OF ms] built Inr show ?thesis by simp
  qed
qed

text \<open>The log of the program, as far as it comes\<close>

lemma main_log:
  assumes "one_line prog" and "\<forall>a \<in> set args. one_line a"
    and "logged_main (any_ops szh szm cap) junk w prog args io = (st, io')"
  shows "log_grows io io' (case engine_starts (any_ops szh szm cap) junk w args io of None \<Rightarrow> []
      | Some (env, e, hs, input) \<Rightarrow> alert_lines env e hs input)"
proof -
  let ?ops = "any_ops szh szm cap"
  note run = assms(3)
  have path: "one_line path"
    if "parse_engine_args args ''config/pipeline.yaml'' = Some p" "resolve_config w p = Some path" for p path
    using resolve_one_line [OF that(2) args_one_line [OF that(1) assms(2)]] by simp
  note defs = logged_main_def engine_starts_def write_message_def write_err_def messages_err Let_def
  show ?thesis
  proof (cases rule: engine_setup_cases [where args = args and w = w and junk = junk and ops = ?ops])
    case usage
    from notes_log [OF _ usage_notes [OF assms(1)]] show ?thesis using run usage by (auto simp: defs)
  next
    case (config p)
    have "one_line p" using args_one_line [OF config(1) assms(2)] by simp
    from notes_log [OF _ no_config_notes [OF this]] show ?thesis using run config by (auto simp: defs)
  next
    case (load p path er)
    let ?ms = "[''[pipeline] Loading config: '' @ path, ''[pipeline] Error: '' @ what er]"
    have "list_all note_line ?ms" using path [OF load(1,2)] load_error_one_line [OF load(3)] by simp
    from notes_log [OF _ this] show ?thesis using run load by (auto simp: defs)
  next
    case (env p path c er)
    let ?ms = "(''[pipeline] Loading config: '' @ path) # env_messages ?ops c"
    have "list_all note_line ?ms" using path [OF env(1,2)] env_notes [OF loaded_config_clean [OF env(3)]] by simp
    from notes_log [OF _ this] show ?thesis using run env by (auto simp: defs)
  next
    case (source p path c env e)
    let ?ms = "(''[pipeline] Loading config: '' @ path) # env_messages ?ops c @ [source_message w c]"
    have "list_all note_line ?ms"
      using path [OF source(1,2)] env_notes source_note loaded_config_clean [OF source(3)] by simp
    from notes_log [OF _ this] show ?thesis using run source by (auto simp: defs)
  next
    case (start p path c env e input)
    let ?ms = "(''[pipeline] Loading config: '' @ path) # env_messages ?ops c @ [source_message w c]"
    let ?i = "write_message (source_message w c) (fold write_message (env_messages ?ops c)
      (write_message (''[pipeline] Loading config: '' @ path) io))"
    have clean: "config_clean c" by (rule loaded_config_clean [OF start(3)])
    have ms: "io_err ?i = io_err io @ unlines ?ms" "list_all note_line ?ms"
      using path [OF start(1,2)] env_notes [OF clean] source_note [OF clean]
      by (simp_all add: write_message_def write_err_def messages_err)
    have ops: "env_ops env = ?ops" using start(4) by (auto simp: make_env_def bind_res_eq_Inr)
    have go: "logged_start w c env e input ?i = (st, io')" using run start by (simp add: logged_main_def Let_def)
    have "same_files ?i io" by simp
    from notes_then_log [OF ms start_log [OF clean ops go this]] show ?thesis
      by (auto simp: engine_starts_def start split: prod.splits sum.splits)
  qed
qed

section \<open>Property\<close>


text \<open>The deployment of \<open>Pipeline\<close> with a handler that writes to standard error\<close>

definition log_yaml :: string where
  "log_yaml = demo_yaml @ unlines [''alert_handlers:'', ''  - name: stderr'']"

definition log_world :: world where
  "log_world = demo_world\<lparr>w_files := [''config/pipeline.yaml'' \<mapsto> log_yaml]\<rparr>"

lemma log_yaml_loads:
  obtains c where "load_config (0, 0, 0) ''config/pipeline.yaml'' (w_files log_world ''config/pipeline.yaml'') = Inr c"
    "names_ok c" "pc_scc_interval_seconds c = 10" "pc_event_source_type c = ''''"
    "map hc_name (pc_alert_handlers c) = [''stderr'']" "map (\<lambda>h. hc_params h ''stream'') (pc_alert_handlers c) = [None]"
proof -
  have "map_sum id (\<lambda>c. (names_ok c, pc_scc_interval_seconds c, pc_event_source_type c,
        map hc_name (pc_alert_handlers c), map (\<lambda>h. hc_params h ''stream'') (pc_alert_handlers c)))
      (load_config (0, 0, 0) ''config/pipeline.yaml'' (w_files log_world ''config/pipeline.yaml'')) =
    Inr (True, 10, '''', [''stderr''], [None])"
    unfolding log_world_def demo_world_def world.simps fun_upd_same log_yaml_def demo_yaml_def by code_simp
  then show thesis
    by (cases "load_config (0, 0, 0) ''config/pipeline.yaml'' (w_files log_world ''config/pipeline.yaml'')")
      (auto intro: that)
qed


end
