(* ===== verification/Deployment.thy ===== *)
theory Deployment
  imports Collector ConfigText EngineMain
begin

text \<open>
  The programs put together as the repository deploys them: the probes in the kernel, the collector whose
  output is the event file of the engine, and the engine started on \<open>config/pipeline.yaml\<close>, with its alert
  file and its log.
\<close>

section \<open>From the kernel to the engine\<close>

text \<open>An event of the probe as the engine has it.\<close>

definition host_order :: "net_event \<Rightarrow> net_event" where
  "host_order e = e\<lparr>src_ip := ntohl (src_ip e), dst_ip := ntohl (dst_ip e)\<rparr>"

lemma events_of_read:
  assumes "map parse_event lines = map (\<lambda>e. Inr (Some (f e))) es"
  shows "list_all readable lines" and "events_of lines = map f es" and "length lines = length es"
proof -
  show "length lines = length es" using assms by (metis length_map)
  have "list_all readable lines \<and> concat (map event_of lines) = map f es"
    using assms
  proof (induction lines arbitrary: es)
    case (Cons l lines)
    then show ?case by (cases es) auto
  qed simp
  then show "list_all readable lines" and "events_of lines = map f es"
    by (simp_all add: all_readable(1))
qed

text \<open>The collector's output as the engine reads it.\<close>

lemma collector_read:
  assumes "documented h m0 t0" and "list_all sized rcs" and "kernel_trace (map call_of rcs) P"
    and "card (set (map tid_of (map call_of rcs))) \<le> 4096" and "set_up argv cw"
    and "taken (cw_polls cw) = rp_ring (raw_run h (cidr_map_of h t0 cw) rcs m0)"
  shows "list_all readable (getlines CHR 0x0A (fst (snd (collector_main h t0 argv cw))))"
    and "events_of (getlines CHR 0x0A (fst (snd (collector_main h t0 argv cw)))) =
      map host_order (pod_connections (map call_of rcs))"
    and "length (getlines CHR 0x0A (fst (snd (collector_main h t0 argv cw)))) = length (pod_connections (map call_of rcs))"
proof -
  have "map parse_event (getlines CHR 0x0A (fst (snd (collector_main h t0 argv cw)))) =
      map (\<lambda>e. Inr (Some (host_order e))) (pod_connections (map call_of rcs))"
    unfolding collector_prints [OF assms] host_order_def by (rule collector_lines) simp
  from events_of_read [OF this] show "list_all readable (getlines CHR 0x0A (fst (snd (collector_main h t0 argv cw))))"
    and "events_of (getlines CHR 0x0A (fst (snd (collector_main h t0 argv cw)))) = map host_order (pod_connections (map call_of rcs))"
    and "length (getlines CHR 0x0A (fst (snd (collector_main h t0 argv cw)))) = length (pod_connections (map call_of rcs))" .
qed

section \<open>The alert of a scan\<close>

lemma over_is_sent:
  assumes "engine_ready env e" and "list_all readable lines" and "length lines < 2 ^ 64"
    and "ac_name (pc_frequency (env_cfg env)) \<noteq> ''heavy_hitters''"
    and "unat (word_of_int (env_threshold env) :: u64) <
      count_list (tags (window_ns env) (map scan_of (events_of lines))) (i, src)"
  shows "\<exists>a \<in> set (en_sent (fst (event_loop env lines (engine_start e)))).
    al_type a = ''port_scan'' \<and> al_source a = ip_to_string src \<and>
    al_severity a = severity_for ''port_scan'' (pc_severity_rules (env_cfg env)) \<and>
    (\<exists>d. json_text (to_json a) (alert_object a d))"
proof -
  obtain s d where s: "event_loop env lines (engine_start e) = (s, None)"
    and d: "same_scans env s d" "distinct (alert_tags d)"
    and over: "\<forall>src. {i. unat (word_of_int (env_threshold env) :: u64) <
        count_list (tags (window_ns env) (map scan_of (events_of lines))) (i, src)} \<subseteq> {i. (i, src) \<in> set (alert_tags d)}"
    by (rule ready_scan_windows [OF assms(1-3)]) (use assms(4) in auto)
  have "(i, src) \<in> set (alert_tags d)" using over assms(5) by blast
  then obtain x where x: "x \<in> set (alerts d)" "sa_src_ip x = src" by (auto simp: alert_tag_def)
  then have "scan_to_alert env x \<in> set (of_type ''port_scan'' (en_sent s))" using d(1) by (simp add: same_scans_def)
  then have "scan_to_alert env x \<in> set (en_sent s)" by (simp add: of_type_def)
  moreover from this have "\<exists>d. json_text (to_json (scan_to_alert env x)) (alert_object (scan_to_alert env x) d)"
    using run_sent(3) [of s env lines e] by (simp add: s)
  ultimately show ?thesis using x(2) by (intro bexI [of _ "scan_to_alert env x"]) (simp_all add: s scan_to_alert_def engine_alert_def)
qed

section \<open>The engine as it is shipped\<close>

definition shipped_text :: "string \<Rightarrow> bool" where
  "shipped_text body \<longleftrightarrow>
     filter (\<lambda>l. trim l \<noteq> []) (map bare (getlines CHR 0x0A body)) = config_lines shipped_written shipped_config"

lemma shipped_chain:
  assumes "can_open ''output/alerts.json''"
  shows "build_chain can_open (chain_entries (pc_alert_handlers shipped_config) p) no_io =
    (Inr [FileHandler ''output/alerts.json'' 0, StreamHandler True], snd (open_trunc ''output/alerts.json'' no_io))"
  using assms by (simp add: shipped_config_def chain_entries_def handler_of_def build_chain_def create_handler_def
      alert_handlers_lookup make_file_alert_handler_def make_stdout_alert_handler_def get_def open_trunc_def no_io_def Let_def)

lemma shipped_names: "names_ok shipped_config"
  by (simp add: names_ok_def shipped_config_def)

text \<open>\<open>main\<close> on the shipped configuration and an event file that can be read.\<close>

lemma shipped_run:
  assumes "w_files w ''config/pipeline.yaml'' = Some body" and "shipped_text body"
    and "w_files w ''/tmp/events.json'' = Some input" and "w_writable w ''output/alerts.json''"
    and "list_all readable (getlines CHR 0x0A input)" and "length (getlines CHR 0x0A input) < 2 ^ 64"
  obtains env e st io' t where
    "engine_starts (any_ops szh szm cap) junk w [] no_io =
       Some (env, e, [FileHandler ''output/alerts.json'' 0, StreamHandler True], input)"
    "engine_ready env e" "env_cfg env = shipped_config"
    "logged_main (any_ops szh szm cap) junk w prog [] no_io = (Exit 0, io')"
    "io_files io' ''output/alerts.json'' = Some t"
    "getlines CHR 0x0A t = map to_json (en_sent (fst (event_loop env (getlines CHR 0x0A input) (engine_start e))))"
proof -
  let ?ops = "any_ops szh szm cap" and ?c = shipped_config
  let ?hs = "[FileHandler ''output/alerts.json'' 0, StreamHandler True]"
  let ?io = "snd (open_trunc ''output/alerts.json'' no_io)"
  have path: "parse_engine_args [] ''config/pipeline.yaml'' = Some ''config/pipeline.yaml''"
    "resolve_config w ''config/pipeline.yaml'' = Some ''config/pipeline.yaml''"
    using assms(1) by (simp_all add: resolve_config_def config_candidates_def)
  have load: "load_config j ''config/pipeline.yaml'' (w_files w ''config/pipeline.yaml'') = Inr ?c" for j
    using shipped_config_loads assms(1,2) by (simp add: shipped_text_def)
  have "unat (0 :: u8) \<le> 32" "0 < pc_scc_interval_seconds ?c" "pc_scc_interval_seconds ?c * 10 < 2 ^ 31"
    by (simp_all add: shipped_config_def)
  from make_env_ok [OF load [of "(0, 0, 0)"] this(1) shipped_names this(2,3)] obtain env e where
    env: "make_env ?ops w ?c = Inr (env, e)" "engine_ready env e" "env_cfg env = ?c" by blast
  have src: "event_source w ?c = Some input" using assms(3) by (simp add: event_source_def shipped_config_def)
  note chain = shipped_chain [where can_open = "w_writable w", OF assms(4)]
  have starts: "engine_starts ?ops junk w [] no_io = Some (env, e, ?hs, input)"
    by (simp add: engine_starts_def path load env(1) src chain)
  obtain io'' where run: "run_engine w ?c env e ?hs input ?io = (Exit 0, io'')"
    by (rule ready_run_exits [OF env(2) assms(5,6)]) blast
  then have main: "pipeline_main ?ops junk w [] no_io = (Exit 0, io'')"
    by (simp add: pipeline_main_def path load env(1) src chain)
  obtain st io' where log: "logged_main ?ops junk w prog [] no_io = (st, io')"
    by (cases "logged_main ?ops junk w prog [] no_io")
  with logged_main_files [OF log] main have io': "st = Exit 0" "io_files io' = io_files io''"
    by (auto simp: same_files_def)
  have "''output/alerts.json'' \<noteq> pc_graph_file ?c" "''output/alerts.json'' \<noteq> pc_stats_file ?c"
    by (simp_all add: shipped_config_def)
  from run_alert_file [OF chain _ this run] obtain t where "io_files io'' ''output/alerts.json'' = Some t"
    "getlines CHR 0x0A t = map to_json (en_sent (fst (event_loop env (getlines CHR 0x0A input) (engine_start e))))"
    by auto
  with that starts env(2,3) log io' show thesis by metis
qed

lemma shipped_severity: "severity_for ''port_scan'' (pc_severity_rules shipped_config) = Medium"
  by (simp add: shipped_config_def parse_severity_def)

lemma shipped_window: "env_cfg env = shipped_config \<Longrightarrow> window_ns env = 60000000000 \<and> env_threshold env = 40"
  by (simp add: window_ns_def shipped_config_def)

section \<open>Property\<close>


text \<open>The pod 10.244.1.5 connects \<open>n\<close> times.\<close>

definition pod_calls :: "nat \<Rightarrow> u8 raw_call list" where
  "pod_calls n = concat (replicate n [RawEnter 0x700000008 1, RawReturn 0x700000008 0 demo_mem (Some dirty_block) 7])"

lemma pod_calls_snoc:
  "pod_calls (Suc n) = (pod_calls n @ [RawEnter 0x700000008 1]) @ [RawReturn 0x700000008 0 demo_mem (Some dirty_block) 7]"
  by (simp add: pod_calls_def replicate_append_same [symmetric] del: replicate_append_same)

lemma pod_calls_sized: "list_all sized (pod_calls n)"
  by (induction n) (simp_all add: pod_calls_snoc, simp_all add: pod_calls_def dirty_block_def)

lemma pod_calls_trace: "kernel_trace (map call_of (pod_calls n)) Map.empty"
proof (induction n)
  case (Suc n)
  have "kernel_trace (map call_of (pod_calls n) @ [Enter 0x700000008 1]) (Map.empty(0x700000008 \<mapsto> 1))"
    by (rule kernel_trace.enter [OF Suc]) simp
  then have "kernel_trace ((map call_of (pod_calls n) @ [Enter 0x700000008 1]) @ [Return 0x700000008 0 demo_mem True 7])
      ((Map.empty(0x700000008 \<mapsto> 1))(0x700000008 := None))"
    by (rule kernel_trace.return) simp
  then show ?case by (simp add: pod_calls_snoc)
qed (simp add: pod_calls_def kernel_trace.start)

lemma pod_calls_tids: "card (set (map tid_of (map call_of (pod_calls n)))) \<le> 4096"
proof -
  have "set (map tid_of (map call_of (pod_calls n))) \<subseteq> {0x700000008}" by (auto simp: pod_calls_def)
  from card_mono [OF _ this] show ?thesis by simp
qed

lemma pod_calls_connections: "pod_connections (map call_of (pod_calls n)) = replicate n demo_event"
proof -
  have "fold call_step (map call_of (pod_calls n)) (Map.empty, []) = (Map.empty, replicate n demo_event)"
    by (induction n) (simp_all add: pod_calls_snoc demo_saddr demo_pods demo_connect replicate_append_same,
      simp_all add: pod_calls_def)
  then show ?thesis by (simp add: pod_connections_def)
qed

lemma pod_calls_ring:
  "rp_ring (raw_run demo_helpers (fst (populate_cidr_map demo_helpers [])) (pod_calls n) Map.empty) = replicate n demo_record"
proof -
  let ?t = "fst (populate_cidr_map demo_helpers [])"
  have "fold (raw_step demo_helpers ?t) (pod_calls n) \<lparr>rp_socks = Map.empty, rp_ring = []\<rparr> =
      \<lparr>rp_socks = Map.empty, rp_ring = replicate n demo_record\<rparr>"
  proof (induction n)
    case (Suc n)
    then show ?case
      by (intro raw_probe.equality)
        (simp_all add: pod_calls_snoc raw_ring raw_socks demo_probe_facts replicate_append_same)
  qed (simp add: pod_calls_def)
  then show ?thesis by (simp add: raw_run_def)
qed

definition busy_collector :: collector_world where
  "busy_collector = demo_collector\<lparr>cw_polls :=
     [\<lparr>po_exiting = False, po_records = replicate 41 demo_record, po_err = 41\<rparr>,
      \<lparr>po_exiting = True, po_records = [], po_err = 0\<rparr>]\<rparr>"

definition shipped_world :: world where
  "shipped_world =
     \<lparr>w_files = [''config/pipeline.yaml'' \<mapsto> unlines shipped_lines,
                 ''/tmp/events.json'' \<mapsto> fst (snd (collector_main demo_helpers [] [''collector''] busy_collector))],
      w_writable = (\<lambda>_. True), w_stdin = '''', w_getenv = (\<lambda>_. None)\<rparr>"

lemma shipped_lines_text: "shipped_text (unlines shipped_lines)"
proof -
  have "getlines CHR 0x0A (unlines shipped_lines) = shipped_lines"
    using shipped_lines_ok unfolding unlines_def by (intro getlines_lines) (auto simp: list_all_iff)
  then show ?thesis by (simp only: shipped_text_def shipped_bare)
qed

lemma busy_tags: "count_list (tags 60000000000 (map scan_of (map host_order (replicate 41 demo_event)))) (0, 0x0AF40105) = 41"
proof -
  have "host_order demo_event = \<lparr>src_ip = 0x0AF40105, dst_ip = 0x0AF40203, dst_port = 80, pid = 7, timestamp_ns = 7\<rparr>"
    by (simp add: host_order_def demo_event_def)
  then show ?thesis unfolding map_replicate by simp code_simp
qed


end
