(* ===== verification/ScanTool.thy ===== *)
theory ScanTool
  imports Detector AlertText "HOL-Library.Monad_Syntax"
begin

text \<open>
  The port-scan tool (\<open>tools/portscan-pipeline\<close>): the reader of JSON and tcpdump lines (\<open>parser.cpp\<close>), the
  command line, the run of one detector per algorithm and the files it writes (\<open>main.cpp\<close>).

  The regular expression of \<open>parse_tcpdump\<close> is matched from left to right without backtracking: each of its
  repetitions is followed by a character outside the repeated class, so only its longest match can
  be continued. The clock is a parameter: the reading at a line, \<open>std::chrono::system_clock\<close> in nanoseconds.
\<close>

section \<open>Lines\<close>

text \<open>\<open>json_field\<close> is the engine's \<open>json_string_value\<close>, statement for statement.\<close>

definition json_field :: "string \<Rightarrow> string \<Rightarrow> string" where
  "json_field json key = json_string_value json key"

definition parse_json :: "string \<Rightarrow> u64 \<Rightarrow> scan_event option res" where
  "parse_json line now =
     (if line = [] \<or> hd line \<noteq> CHR ''{'' then Inr None
      else
        let src = json_field line ''src_ip''; dst = json_field line ''dst_ip'';
            port = json_field line ''dst_port''; ts = json_field line ''timestamp_ns''
        in if src = [] \<or> dst = [] then Inr None
           else
             bind_res (parse_ipv4 src) (\<lambda>s.
             bind_res (parse_ipv4 dst) (\<lambda>d.
             bind_res (if port = [] then Inr 0 else bind_res (stoul port) (\<lambda>v. Inr (ucast v))) (\<lambda>p.
             bind_res (if ts = [] then Inr now else stoull ts) (\<lambda>t.
               Inr (Some \<lparr>se_src_ip = s, se_dst_ip = d, se_dst_port = p, se_timestamp_ns = t\<rparr>))))))"

text \<open>The pieces of the expression: what they match at the start of a text, and what is left.\<close>

definition lit :: "string \<Rightarrow> string \<Rightarrow> string option" where
  "lit p s = (if starts_with p s then Some (drop (length p) s) else None)"

definition digits1 :: "string \<Rightarrow> (string \<times> string) option" where
  "digits1 s = (if takeWhile is_digit s = [] then None else Some (takeWhile is_digit s, dropWhile is_digit s))"

definition spaces1 :: "string \<Rightarrow> string option" where
  "spaces1 s = (if takeWhile is_space s = [] then None else Some (dropWhile is_space s))"

definition address :: "string \<Rightarrow> (string \<times> string) option" where
  "address s = do {
     (a, s) \<leftarrow> digits1 s; s \<leftarrow> lit ''.'' s;
     (b, s) \<leftarrow> digits1 s; s \<leftarrow> lit ''.'' s;
     (c, s) \<leftarrow> digits1 s; s \<leftarrow> lit ''.'' s;
     (d, s) \<leftarrow> digits1 s;
     Some (a @ ''.'' @ b @ ''.'' @ c @ ''.'' @ d, s)
   }"

text \<open>The three groups that are used: source, destination and destination port.\<close>

definition syn_at :: "string \<Rightarrow> (string \<times> string \<times> string) option" where
  "syn_at s = do {
     s \<leftarrow> lit ''IP'' s; s \<leftarrow> spaces1 s;
     (src, s) \<leftarrow> address s; s \<leftarrow> lit ''.'' s; (sport, s) \<leftarrow> digits1 s; s \<leftarrow> spaces1 s;
     s \<leftarrow> lit ''>'' s; s \<leftarrow> spaces1 s;
     (dst, s) \<leftarrow> address s; s \<leftarrow> lit ''.'' s; (dport, s) \<leftarrow> digits1 s; s \<leftarrow> lit '':'' s; s \<leftarrow> spaces1 s;
     s \<leftarrow> lit ''Flags'' s; s \<leftarrow> spaces1 s; s \<leftarrow> lit ''[S]'' s;
     Some (src, dst, dport)
   }"

definition is_word :: "char \<Rightarrow> bool" where
  "is_word c \<longleftrightarrow> is_digit c \<or> c = CHR ''_'' \<or> (65 \<le> (of_char c :: nat) \<and> (of_char c :: nat) \<le> 90) \<or>
     (97 \<le> (of_char c :: nat) \<and> (of_char c :: nat) \<le> 122)"

text \<open>\<open>std::regex_search\<close>: the leftmost match; \<open>w\<close>: the character before is a word character.\<close>

fun syn_search :: "bool \<Rightarrow> string \<Rightarrow> (string \<times> string \<times> string) option" where
  "syn_search w [] = None"
| "syn_search w (c # cs) =
     (case (if w then None else syn_at (c # cs)) of
        Some m \<Rightarrow> Some m
      | None \<Rightarrow> syn_search (is_word c) cs)"

definition parse_tcpdump :: "string \<Rightarrow> u64 \<Rightarrow> scan_event option res" where
  "parse_tcpdump line now =
     (case syn_search False line of
        None \<Rightarrow> Inr None
      | Some (src, dst, dport) \<Rightarrow>
          bind_res (parse_ipv4 src) (\<lambda>s.
          bind_res (parse_ipv4 dst) (\<lambda>d.
          bind_res (stoul dport) (\<lambda>p.
            Inr (Some \<lparr>se_src_ip = s, se_dst_ip = d, se_dst_port = ucast p, se_timestamp_ns = now\<rparr>)))))"

definition parse_line :: "string \<Rightarrow> u64 \<Rightarrow> scan_event option res" where
  "parse_line line now =
     bind_res (parse_json line now) (\<lambda>r. case r of Some evt \<Rightarrow> Inr (Some evt) | None \<Rightarrow> parse_tcpdump line now)"

section \<open>The command line\<close>

record cli_args =
  cl_algo :: string
  cl_input :: string
  cl_trace_dir :: string
  cl_alerts_path :: string
  cl_comparison_path :: string
  cl_cms_width :: u32
  cl_cms_depth :: u32
  cl_mg_k :: u32
  cl_threshold :: u64
  cl_window_s :: u64
  cl_trace_at :: "u64 list"

definition default_args :: cli_args where
  "default_args =
     \<lparr>cl_algo = ''all'', cl_input = '''', cl_trace_dir = '''', cl_alerts_path = '''', cl_comparison_path = '''',
      cl_cms_width = 2048, cl_cms_depth = 5, cl_mg_k = 64, cl_threshold = 40, cl_window_s = 60,
      cl_trace_at = [50, 100, 110, 120, 130, 140]\<rparr>"

text \<open>A number that cannot be read leaves the variable as it was.\<close>

definition parse_uint :: "string \<Rightarrow> u64 \<Rightarrow> u64" where
  "parse_uint s out = (case stoull s of Inr v \<Rightarrow> v | Inl e \<Rightarrow> out)"

definition parse_csv_uints :: "string \<Rightarrow> u64 list res" where
  "parse_csv_uints s =
     fold_res (\<lambda>tok out. if tok = [] then Inr out else bind_res (stoull tok) (\<lambda>v. Inr (out @ [v])))
       (getlines CHR '','' s) []"

definition set_arg :: "string \<Rightarrow> string \<Rightarrow> cli_args \<Rightarrow> cli_args res" where
  "set_arg flag v a =
     (if flag = ''--algo'' then Inr (a\<lparr>cl_algo := v\<rparr>)
      else if flag = ''--input'' then Inr (a\<lparr>cl_input := v\<rparr>)
      else if flag = ''--trace-dir'' then Inr (a\<lparr>cl_trace_dir := v\<rparr>)
      else if flag = ''--alerts'' then Inr (a\<lparr>cl_alerts_path := v\<rparr>)
      else if flag = ''--comparison'' then Inr (a\<lparr>cl_comparison_path := v\<rparr>)
      else if flag = ''--cms-width'' then Inr (a\<lparr>cl_cms_width := ucast (parse_uint v 0)\<rparr>)
      else if flag = ''--cms-depth'' then Inr (a\<lparr>cl_cms_depth := ucast (parse_uint v 0)\<rparr>)
      else if flag = ''--mg-k'' then Inr (a\<lparr>cl_mg_k := ucast (parse_uint v 0)\<rparr>)
      else if flag = ''--threshold'' then Inr (a\<lparr>cl_threshold := parse_uint v (cl_threshold a)\<rparr>)
      else if flag = ''--window-seconds'' then Inr (a\<lparr>cl_window_s := parse_uint v (cl_window_s a)\<rparr>)
      else bind_res (parse_csv_uints v) (\<lambda>xs. Inr (a\<lparr>cl_trace_at := xs\<rparr>)))"

text \<open>\<open>None\<close>: \<open>parse_args\<close> answers false (help, an unknown flag, a missing value).\<close>

fun parse_args :: "string list \<Rightarrow> cli_args \<Rightarrow> cli_args option res" where
  "parse_args [] a = Inr (Some a)"
| "parse_args [flag] a = Inr None"
| "parse_args (flag # v # args) a =
     (if flag \<in> {''--algo'', ''--input'', ''--trace-dir'', ''--alerts'', ''--comparison'', ''--cms-width'',
                 ''--cms-depth'', ''--mg-k'', ''--threshold'', ''--window-seconds'', ''--trace-at''}
      then bind_res (set_arg flag v a) (parse_args args)
      else Inr None)"

definition make_cfg :: "cli_args \<Rightarrow> string \<Rightarrow> detector_config" where
  "make_cfg a algo =
     \<lparr>dc_algo = algo, dc_cms_width = cl_cms_width a, dc_cms_depth = cl_cms_depth a, dc_mg_k = cl_mg_k a,
      dc_threshold = cl_threshold a, dc_window_ns = cl_window_s a * 1000000000\<rparr>"

section \<open>\<open>main\<close>\<close>

record tool_world =
  tw_files :: "string \<Rightarrow> string option"
  tw_stdin :: string
  tw_writable :: "string \<Rightarrow> bool"
  tw_clock :: "string \<Rightarrow> nat \<Rightarrow> u64"   \<comment> \<open>the reading at a line, in the run of an algorithm\<close>

definition trace_path :: "cli_args \<Rightarrow> string \<Rightarrow> string" where
  "trace_path a algo = cl_trace_dir a @ ''/trace_'' @ algo @ ''.txt''"

definition trace_header :: "string \<Rightarrow> u64 list \<Rightarrow> string" where
  "trace_header algo at =
     ''# trace generated by portscan-pipeline; algo='' @ algo @ [CHR 0x0A] @
     ''# event indices captured: '' @ commas (map (\<lambda>i. to_string (unat i)) at) @ [CHR 0x0A, CHR 0x0A]"

definition register_trace :: "tool_world \<Rightarrow> cli_args \<Rightarrow> string \<Rightarrow> 'e detector \<Rightarrow> 'e detector" where
  "register_trace w a algo d =
     (if cl_trace_dir a = [] then d
      else if \<not> tw_writable w (trace_path a algo) then d
      else d\<lparr>tracing := True, trace_at := set (cl_trace_at a)\<rparr>)"

definition tool_lines :: "tool_world \<Rightarrow> cli_args \<Rightarrow> string list option" where
  "tool_lines w a =
     map_option (\<lambda>input. filter (\<lambda>line. line \<noteq> []) (getlines CHR 0x0A input))
       (if cl_input a \<noteq> [] then tw_files w (cl_input a) else Some (tw_stdin w))"

definition scan_lines ::
  "'e estimator_ops \<Rightarrow> (nat \<Rightarrow> u64) \<Rightarrow> string list \<Rightarrow> 'e detector \<Rightarrow> 'e detector res" where
  "scan_lines ops clock lines =
     fold_res (\<lambda>(i, line) d.
         bind_res (parse_line line (clock i)) (\<lambda>r.
           case r of
             None \<Rightarrow> Inr d
           | Some evt \<Rightarrow> bind_res (process ops evt d) (\<lambda>(d, emitted). Inr d)))
       (enumerate 0 lines)"

definition run_algo ::
  "any_estimator estimator_ops \<Rightarrow> tool_world \<Rightarrow> cli_args \<Rightarrow> string list \<Rightarrow> string \<Rightarrow> any_estimator detector res" where
  "run_algo ops w a lines algo =
     bind_res (new_detector ops (make_cfg a algo)) (\<lambda>d.
       scan_lines ops (tw_clock w algo) lines (register_trace w a algo d))"

definition run_algos ::
  "any_estimator estimator_ops \<Rightarrow> tool_world \<Rightarrow> cli_args \<Rightarrow> string list \<Rightarrow> any_estimator detector list res" where
  "run_algos ops w a lines =
     fold_res (\<lambda>algo ds. bind_res (run_algo ops w a lines algo) (\<lambda>d. Inr (ds @ [d])))
       (if cl_algo a = ''all'' then [''cms'', ''mg'', ''hashmap''] else [cl_algo a]) []"

definition alert_row :: "scan_alert \<Rightarrow> string" where
  "alert_row al =
     ''{'' @ commas
       [field ''algo'' (qu (sa_algo al)),
        field ''src_ip'' (qu (ip_to_string (sa_src_ip al))),
        field ''freq'' (to_string (unat (sa_freq al))),
        field ''timestamp_ns'' (to_string (unat (sa_timestamp_ns al))),
        field ''window_id'' (to_string (unat (sa_window_id al))),
        field ''event_index'' (to_string (unat (sa_event_index al)))] @ ''}''"

text \<open>\<open>write_alerts_json\<close>: a comma and a line break before every row but the first.\<close>

fun alert_rows :: "bool \<Rightarrow> scan_alert list \<Rightarrow> string" where
  "alert_rows first [] = ''''"
| "alert_rows first (al # als) =
     (if first then '''' else [CHR '','', CHR 0x0A]) @ ''  '' @ alert_row al @ alert_rows False als"

definition alerts_text :: "'e detector list \<Rightarrow> string" where
  "alerts_text ds = ''['' @ [CHR 0x0A] @ alert_rows True (concat (map alerts ds)) @ [CHR 0x0A] @ '']'' @ [CHR 0x0A]"

text \<open>The columns of \<open>write_comparison_csv\<close> before its two floating-point ones; 10.0.5.99 is the attacker.\<close>

definition comparison_row :: "'e detector \<Rightarrow> string \<times> u64 \<times> nat \<times> nat \<times> nat" where
  "comparison_row d =
     (dc_algo (cfg d), total_events d, length (alerts d),
      length (filter (\<lambda>al. sa_src_ip al = 0x0A000563) (alerts d)),
      length (filter (\<lambda>al. sa_src_ip al \<noteq> 0x0A000563) (alerts d)))"

text \<open>The exit code, the detectors and the text of the alert file, if it is written.\<close>

definition tool_main ::
  "any_estimator estimator_ops \<Rightarrow> tool_world \<Rightarrow> string list \<Rightarrow>
     (nat \<times> any_estimator detector list \<times> string option) res" where
  "tool_main ops w args =
     bind_res (parse_args args default_args) (\<lambda>r.
       case r of
         None \<Rightarrow> Inr (2, [], None)
       | Some a \<Rightarrow>
           (case tool_lines w a of
              None \<Rightarrow> Inr (1, [], None)
            | Some lines \<Rightarrow>
                bind_res (run_algos ops w a lines) (\<lambda>ds.
                  Inr (0, ds,
                    if cl_alerts_path a \<noteq> [] \<and> tw_writable w (cl_alerts_path a) then Some (alerts_text ds)
                    else None))))"

section \<open>Reading the lines\<close>

text \<open>A line that needs no clock, and its event.\<close>

definition timed :: "string \<Rightarrow> bool" where
  "timed line \<longleftrightarrow> (\<exists>r. \<forall>now. parse_line line now = Inr r)"

definition line_events :: "string \<Rightarrow> scan_event list" where
  "line_events line = (case parse_line line 0 of Inr (Some evt) \<Rightarrow> [evt] | _ \<Rightarrow> [])"

definition tool_events :: "string list \<Rightarrow> scan_event list" where
  "tool_events lines = concat (map line_events lines)"

lemma scan_lines_process:
  assumes "list_all timed lines"
  shows "scan_lines ops clock lines d = process_all ops (tool_events lines) d"
proof -
  have "fold_res (\<lambda>(i, line) d.
         bind_res (parse_line line (clock i)) (\<lambda>r.
           case r of
             None \<Rightarrow> Inr d
           | Some evt \<Rightarrow> bind_res (process ops evt d) (\<lambda>(d, emitted). Inr d)))
       (enumerate n lines) d = process_all ops (tool_events lines) d" for n d
    using assms
  proof (induction lines arbitrary: n d)
    case Nil
    then show ?case by (simp add: tool_events_def process_all_def)
  next
    case (Cons l ls)
    then obtain r where r: "parse_line l now = Inr r" for now by (auto simp: timed_def)
    show ?case
    proof (cases r)
      case None
      with Cons r show ?thesis by (simp add: tool_events_def line_events_def)
    next
      case (Some e)
      show ?thesis
      proof (cases "process ops e d")
        case (Inl err)
        with Some r show ?thesis by (simp add: tool_events_def line_events_def process_all_def)
      next
        case (Inr q)
        with Some r Cons show ?thesis
          by (cases q) (simp add: tool_events_def line_events_def process_all_def)
      qed
    qed
  qed
  then show ?thesis by (simp add: scan_lines_def)
qed

lemma length_tool_events: "length (tool_events lines) \<le> length lines"
proof (induction lines)
  case (Cons l ls)
  then show ?case by (auto simp: tool_events_def line_events_def split: sum.split option.split)
qed (simp add: tool_events_def)

section \<open>Tracing watches, it does not interfere\<close>

definition untraced :: "'e detector \<Rightarrow> 'e detector" where
  "untraced d = d\<lparr>tracing := False, trace_at := {}, trace_out := []\<rparr>"

lemma untraced_simps [simp]:
  "alerts (untraced d) = alerts d" "estimator (untraced d) = estimator d" "cfg (untraced d) = cfg d"
  "untraced (maybe_emit_trace ops evt d) = untraced d" "untraced (register_trace w a algo d) = untraced d"
  "maybe_emit_trace ops evt (untraced d) = untraced d"
  "maybe_reset_window ops now (untraced d) = untraced (maybe_reset_window ops now d)"
  by (simp_all add: untraced_def maybe_emit_trace_def register_trace_def maybe_reset_window_def)

lemma untraced_fresh [simp]: "untraced (fresh_detector ops c e) = fresh_detector ops c e"
  by (simp add: untraced_def fresh_detector_def)

lemma untraced_process_steps:
  "untraced d\<lparr>estimator := x, total_events := total_events (untraced d) + 1,
           peak_memory := max (peak_memory (untraced d)) m\<rparr> =
     untraced (d\<lparr>estimator := x, total_events := total_events d + 1, peak_memory := max (peak_memory d) m\<rparr>)"
  "raise_alert e freq (untraced d) = untraced (raise_alert e freq d)"
  "alerted_in_window (untraced d) = alerted_in_window d"
  by (simp_all add: untraced_def raise_alert_def)

lemma process_untraced:
  "process ops e (untraced d) = map_sum id (map_prod untraced id) (process ops e d)"
proof -
  let ?d = "maybe_reset_window ops (se_timestamp_ns e) d"
  show ?thesis
  proof (cases "record_u32 ops (estimator ?d) (se_src_ip e)")
    case (Inl err)
    then show ?thesis by (simp add: process_def Let_def)
  next
    case r: (Inr x)
    show ?thesis
    proof (cases "estimate_u32 ops x (se_src_ip e)")
      case (Inl err)
      with r show ?thesis by (simp add: process_def Let_def)
    next
      case (Inr freq)
      with r show ?thesis by (simp add: process_def Let_def untraced_process_steps)
    qed
  qed
qed

lemma process_all_untraced:
  "process_all ops es (untraced d) = map_sum id untraced (process_all ops es d)"
proof (induction es arbitrary: d)
  case (Cons e es)
  show ?case
  proof (cases "process ops e d")
    case (Inl err)
    then show ?thesis by (simp add: process_all_def process_untraced)
  next
    case (Inr q)
    with Cons show ?thesis by (cases q) (simp add: process_all_def process_untraced)
  qed
qed (simp add: process_all_def)

section \<open>A run of one algorithm\<close>

lemma run_algo_alerts:
  assumes "list_all timed lines" and "new_detector ops (make_cfg a algo) = Inr (fresh_detector ops (make_cfg a algo) e)"
    and "process_all ops (tool_events lines) (fresh_detector ops (make_cfg a algo) e) = Inr d"
  shows "\<exists>d'. run_algo ops w a lines algo = Inr d' \<and> alerts d' = alerts d"
proof -
  let ?d0 = "register_trace w a algo (fresh_detector ops (make_cfg a algo) e)"
  have "map_sum id untraced (process_all ops (tool_events lines) ?d0) = Inr d"
    using assms(3) process_all_untraced [of ops "tool_events lines" ?d0] by simp
  then obtain d' where "process_all ops (tool_events lines) ?d0 = Inr d'" "untraced d' = d"
    by (cases "process_all ops (tool_events lines) ?d0") auto
  moreover have "alerts d' = alerts (untraced d')" by simp
  ultimately show ?thesis using assms(1,2) by (simp add: run_algo_def scan_lines_process)
qed

text \<open>The sources above the threshold, each with the number of the window.\<close>

definition scans :: "cli_args \<Rightarrow> scan_event list \<Rightarrow> (nat \<times> u32) set" where
  "scans a es = {t. unat (cl_threshold a) < count_list (tags (cl_window_s a * 1000000000) es) t}"

lemma run_algo_over:
  assumes "list_all timed lines" and "length lines < 2 ^ 64"
    and "algo = ''cms'' \<and> cl_cms_width a \<noteq> 0 \<or> algo = ''hashmap''"
  shows "\<exists>d. run_algo (any_ops szh szm cap) w a lines algo = Inr d \<and>
    scans a (tool_events lines) \<subseteq> set (alert_tags d)"
proof -
  let ?ops = "any_ops szh szm cap" and ?c = "make_cfg a algo" and ?es = "tool_events lines"
  have len: "length ?es < 2 ^ 64" using length_tool_events [of lines] assms(2) by simp
  obtain e where e: "make_estimator ?c = Inr e" using assms(3) by (auto simp: make_estimator_def make_cfg_def)
  have o: "any_over e []" using make_estimator_inv(2) [OF e] assms(3) by (auto simp: make_cfg_def)
  from any_over.run_ok [OF o len, of szh szm cap ?c] obtain d where
    d: "process_all ?ops ?es (fresh_detector ?ops ?c e) = Inr d" by blast
  have "scans a ?es \<subseteq> set (alert_tags d)"
    using alerts_complete_all [OF any_over.run_complete [OF o len d]] by (auto simp: scans_def make_cfg_def)
  moreover have "new_detector ?ops ?c = Inr (fresh_detector ?ops ?c e)" by (simp add: new_detector_def e)
  ultimately show ?thesis using run_algo_alerts [OF assms(1) _ d, of w] by fastforce
qed

lemma run_algo_under:
  assumes "list_all timed lines" and "length lines < 2 ^ 64"
    and "algo = ''mg'' \<and> 2 \<le> cl_mg_k a \<or> algo = ''hashmap''"
  shows "\<exists>d. run_algo (any_ops szh szm cap) w a lines algo = Inr d \<and>
    set (alert_tags d) \<subseteq> scans a (tool_events lines)"
proof -
  let ?ops = "any_ops szh szm cap" and ?c = "make_cfg a algo" and ?es = "tool_events lines"
  have len: "length ?es < 2 ^ 64" using length_tool_events [of lines] assms(2) by simp
  obtain e where e: "make_estimator ?c = Inr e"
    using assms(3) by (auto simp: make_estimator_def make_cfg_def mg_new_def linorder_not_less)
  have u: "any_under e []" using make_estimator_inv(3) [OF e] assms(3) by (auto simp: make_cfg_def)
  from any_under.run_ok [OF u len, of szh szm cap ?c] obtain d where
    d: "process_all ?ops ?es (fresh_detector ?ops ?c e) = Inr d" by blast
  have "set (alert_tags d) \<subseteq> scans a ?es"
    using any_under.run_sound [OF u len d] by (auto simp: alerts_sound_def scans_def make_cfg_def)
  moreover have "new_detector ?ops ?c = Inr (fresh_detector ?ops ?c e)" by (simp add: new_detector_def e)
  ultimately show ?thesis using run_algo_alerts [OF assms(1) _ d, of w] by fastforce
qed

section \<open>Reading what others print\<close>

lemma ip_to_str_host: "ip_to_str w = ip_to_string (ntohl w)"
proof -
  have "octet 24 (ip_from_octets a b c d) = ucast a" "octet 16 (ip_from_octets a b c d) = ucast b"
    "octet 8 (ip_from_octets a b c d) = ucast c" "octet 0 (ip_from_octets a b c d) = ucast d" for a b c d
    by (rule bit_word_eqI; auto simp: octet_take_bit ip_from_octets_def bit_simps dest: bit_imp_le_length)+
  moreover have "unat (ucast (x :: u8) :: u32) = unat x" for x
    using unat_u8 [of x] by (simp add: unsigned_ucast_eq take_bit_nat_eq_self)
  ultimately show ?thesis by (simp add: ip_to_str_def ip_to_string_def ntohl_def)
qed

lemma parse_ipv4_to_str: "parse_ipv4 (ip_to_str w) = Inr (ntohl w)"
  by (simp add: ip_to_str_host parse_ipv4_to_string)

lemma parse_json_collector:
  "parse_json (event_json evt) now =
     Inr (Some \<lparr>se_src_ip = ntohl (src_ip evt), se_dst_ip = ntohl (dst_ip evt), se_dst_port = dst_port evt,
                se_timestamp_ns = timestamp_ns evt\<rparr>)"
proof -
  let ?A = "ip_to_str (src_ip evt)" let ?B = "ip_to_str (dst_ip evt)"
  note f = read_collector_line [OF ip_to_str_facts(1) ip_to_str_facts(1) _ event_json_def]
  have v: "json_field (event_json evt) ''src_ip'' = ?A" "json_field (event_json evt) ''dst_ip'' = ?B"
    "json_field (event_json evt) ''dst_port'' = to_string (unat (dst_port evt))"
    "json_field (event_json evt) ''timestamp_ns'' = to_string (unat (timestamp_ns evt))"
    unfolding json_field_def by (rule f; use ip_to_str_facts(3) in blast)+
  have l: "unat (dst_port evt) < 2 ^ 64" "unat (timestamp_ns evt) < 2 ^ 64"
    using unat_u16 [of "dst_port evt"] by simp_all
  have "event_json evt \<noteq> []" "hd (event_json evt) = CHR ''{''" by (simp_all add: event_json_def)
  then show ?thesis
    by (simp add: parse_json_def Let_def v ip_to_str_facts(2) parse_ipv4_to_str stoul_def stoull_def
        sto_u64_to_string [OF l(1)] sto_u64_to_string [OF l(2)] unsigned_ucast_eq take_bit_word_eq_self)
qed

lemma digits1_dot: "\<not> is_digit c \<Longrightarrow> digits1 (to_string n @ c # s) = Some (to_string n, c # s)"
proof -
  assume c: "\<not> is_digit c"
  have "\<forall>x \<in> set (to_string n). is_digit x" using to_string_digits by blast
  then have "takeWhile is_digit (to_string n @ c # s) = to_string n"
    "dropWhile is_digit (to_string n @ c # s) = c # s"
    using c by (simp_all add: takeWhile_append2 dropWhile_append2)
  then show ?thesis by (simp add: digits1_def)
qed

lemma lit_char: "lit [c] (c # s) = Some s"
  by (simp add: lit_def)

lemma lit_append: "lit p (p @ s) = Some s"
  by (simp add: lit_def starts_with_append)

lemma spaces1_space: "\<not> is_space c \<Longrightarrow> spaces1 (CHR '' '' # c # s) = Some (c # s)"
proof -
  assume "\<not> is_space c"
  moreover have "is_space CHR '' ''" by (simp add: is_space_def)
  ultimately show ?thesis by (simp add: spaces1_def)
qed

lemma no_digits: "\<not> is_digit CHR ''.''" "\<not> is_digit CHR '' ''" "\<not> is_digit CHR '':''"
  by (simp_all add: is_digit_def)

lemma address_dotted: "\<not> is_digit x \<Longrightarrow> address (dotted a b c d @ x # s) = Some (dotted a b c d, x # s)"
  by (simp add: address_def dotted_def digits1_dot no_digits lit_char)

lemma dotted_start: "\<exists>x s. dotted a b c d = x # s \<and> is_digit x"
proof -
  obtain x s where "to_string a = x # s" by (cases "to_string a") auto
  moreover from this have "is_digit x" using to_string_digits [of x a] by simp
  ultimately show ?thesis by (simp add: dotted_def)
qed

lemma spaces1_dotted: "spaces1 (CHR '' '' # dotted a b c d @ s) = Some (dotted a b c d @ s)"
proof -
  obtain x t where "dotted a b c d = x # t" "\<not> is_space x" using dotted_start [of a b c d] is_digit_not by blast
  then show ?thesis by (simp add: spaces1_space)
qed

text \<open>What tcpdump prints of a SYN.\<close>

definition syn_text :: "u32 \<Rightarrow> nat \<Rightarrow> u32 \<Rightarrow> nat \<Rightarrow> string" where
  "syn_text src sport dst dport =
     ''IP '' @ ip_to_string src @ ''.'' @ to_string sport @ '' > '' @ ip_to_string dst @ ''.'' @
     to_string dport @ '': Flags [S]''"

lemma syn_at_text: "syn_at (syn_text src sport dst dport @ s) = Some (ip_to_string src, ip_to_string dst, to_string dport)"
proof -
  have g: "\<not> is_space CHR ''>''" "\<not> is_space CHR ''F''" "\<not> is_space CHR ''[''" by (simp_all add: is_space_def)
  have l: "lit ''IP'' (CHR ''I'' # CHR ''P'' # t) = Some t"
    "lit ''Flags'' (CHR ''F'' # CHR ''l'' # CHR ''a'' # CHR ''g'' # CHR ''s'' # t) = Some t"
    "lit ''[S]'' (CHR ''['' # CHR ''S'' # CHR '']'' # t) = Some t" for t
    by (simp_all add: lit_def)
  show ?thesis
    unfolding syn_at_def syn_text_def ip_to_string_def
    by (simp add: l lit_char spaces1_dotted address_dotted digits1_dot no_digits spaces1_space g)
qed

lemma syn_search_skip:
  "CHR ''I'' \<notin> set pre \<Longrightarrow> pre = [] \<and> \<not> w \<or> pre \<noteq> [] \<and> \<not> is_word (last pre) \<Longrightarrow>
     syn_at s = Some m \<Longrightarrow> syn_search w (pre @ s) = Some m"
proof (induction pre arbitrary: w)
  case Nil
  then have "s \<noteq> []" by (auto simp: syn_at_def lit_def)
  with Nil show ?case by (cases s) auto
next
  case (Cons c cs)
  then have "syn_at (c # cs @ s) = None" by (auto simp: syn_at_def lit_def)
  with Cons show ?case by (cases cs) auto
qed

lemma parse_tcpdump_syn:
  assumes "CHR ''I'' \<notin> set pre" and "pre \<noteq> [] \<Longrightarrow> \<not> is_word (last pre)" and "dport < 65536"
  shows "parse_tcpdump (pre @ syn_text src sport dst dport @ s) now =
    Inr (Some \<lparr>se_src_ip = src, se_dst_ip = dst, se_dst_port = of_nat dport, se_timestamp_ns = now\<rparr>)"
proof -
  have "syn_search False (pre @ syn_text src sport dst dport @ s) =
      Some (ip_to_string src, ip_to_string dst, to_string dport)"
    by (rule syn_search_skip [OF assms(1) _ syn_at_text]) (use assms(2) in auto)
  moreover have "stoul (to_string dport) = Inr (of_nat dport)"
    using assms(3) by (simp add: stoul_def sto_u64_to_string)
  moreover have "take_bit 64 dport = dport" using assms(3) by (intro take_bit_nat_eq_self) simp
  then have "ucast (of_nat dport :: u64) = (of_nat dport :: u16)" by (simp add: unsigned_of_nat)
  ultimately show ?thesis by (simp add: parse_tcpdump_def parse_ipv4_to_string)
qed

section \<open>The alert file\<close>

definition scan_alert_object :: "scan_alert \<Rightarrow> json" where
  "scan_alert_object al = JObject
     [(''algo'', JString (sa_algo al)), (''src_ip'', JString (ip_to_string (sa_src_ip al))),
      (''freq'', JNumber (uint (sa_freq al))), (''timestamp_ns'', JNumber (uint (sa_timestamp_ns al))),
      (''window_id'', JNumber (uint (sa_window_id al))), (''event_index'', JNumber (uint (sa_event_index al)))]"

lemma json_word: "json_text (to_string (unat w)) (JNumber (uint w))"
  using json_text_nat [of "unat w"] by simp

lemma alert_row_json: "unescaped (sa_algo al) \<Longrightarrow> json_text (alert_row al) (scan_alert_object al)"
  unfolding alert_row_def scan_alert_object_def
  by (rule json_object) (rule list.rel_intros field_text json_word json_ip json_plain | simp add: escape_char_def)+

lemma printable_row: "printable (sa_algo al) \<Longrightarrow> printable (alert_row al)"
  unfolding alert_row_def by (auto intro!: printable_commas)

text \<open>Between the brackets: one row to a line, a comma after all but the last; an empty line when there is none.\<close>

fun row_lines :: "string list \<Rightarrow> string list" where
  "row_lines [] = ['''']"
| "row_lines [r] = [''  '' @ r]"
| "row_lines (r # rs) = (''  '' @ r @ '','') # row_lines rs"

lemma getlines_line: "CHR 0x0A \<notin> set p \<Longrightarrow> getlines CHR 0x0A (p @ CHR 0x0A # s) = p # getlines CHR 0x0A s"
  by (rule getlines_part)

lemma getlines_rows:
  "\<forall>al \<in> set als. CHR 0x0A \<notin> set (alert_row al) \<Longrightarrow>
     getlines CHR 0x0A (alert_rows True als @ CHR 0x0A # s) = row_lines (map alert_row als) @ getlines CHR 0x0A s"
proof (induction als)
  case Nil
  show ?case using getlines_line [of "[]" s] by simp
next
  case (Cons al als)
  show ?case
  proof (cases als)
    case Nil
    with Cons.prems getlines_line [of "''  '' @ alert_row al" s] show ?thesis by simp
  next
    case (Cons b bs)
    have "alert_rows True (al # als) @ CHR 0x0A # s =
        (''  '' @ alert_row al @ '','') @ CHR 0x0A # (alert_rows True als @ CHR 0x0A # s)"
      by (simp add: Cons)
    moreover have "CHR 0x0A \<notin> set (''  '' @ alert_row al @ '','')" using Cons.prems by simp
    note getlines_line [OF this, of "alert_rows True als @ CHR 0x0A # s"]
    ultimately have "getlines CHR 0x0A (alert_rows True (al # als) @ CHR 0x0A # s) =
        (''  '' @ alert_row al @ '','') # getlines CHR 0x0A (alert_rows True als @ CHR 0x0A # s)"
      by (simp only:)
    with Cons.IH Cons.prems Cons show ?thesis by simp
  qed
qed

definition algo_named :: "'e detector \<Rightarrow> bool" where
  "algo_named d \<longleftrightarrow> dc_algo (cfg d) \<in> {''cms'', ''mg'', ''hashmap''} \<and>
     (\<forall>al \<in> set (alerts d). sa_algo al = dc_algo (cfg d))"

lemma algo_named_steps:
  "algo_named (maybe_reset_window ops now d) \<longleftrightarrow> algo_named d" "algo_named (maybe_emit_trace ops e d) \<longleftrightarrow> algo_named d"
  "algo_named (d\<lparr>estimator := x, total_events := n, peak_memory := m\<rparr>) \<longleftrightarrow> algo_named d"
  "algo_named (raise_alert e freq d) \<longleftrightarrow> algo_named d"
  by (auto simp: algo_named_def maybe_reset_window_def maybe_emit_trace_def raise_alert_def)

lemma algo_named_process: "process ops e d = Inr (d', em) \<Longrightarrow> algo_named d \<Longrightarrow> algo_named d'"
  by (auto simp: process_def Let_def bind_res_eq_Inr algo_named_steps split: if_splits)

lemma algo_named_scan:
  assumes "scan_lines ops clock lines d = Inr d'" and "algo_named d"
  shows "algo_named d'"
proof (rule fold_res_invariant [where P = "\<lambda>_. algo_named", OF assms [unfolded scan_lines_def]])
  fix x u v
  assume n: "algo_named u" and
    "(case x of (i, line) \<Rightarrow> \<lambda>d. bind_res (parse_line line (clock i)) (\<lambda>r.
           case r of
             None \<Rightarrow> Inr d
           | Some evt \<Rightarrow> bind_res (process ops evt d) (\<lambda>(d, emitted). Inr d))) u = Inr v"
  then show "algo_named v"
    by (auto simp: bind_res_eq_Inr split: prod.splits option.splits intro: algo_named_process)
qed

lemma algo_named_run: "run_algo ops w a lines algo = Inr d \<Longrightarrow> algo_named d"
proof -
  assume "run_algo ops w a lines algo = Inr d"
  then obtain e where e: "make_estimator (make_cfg a algo) = Inr e"
    "scan_lines ops (tw_clock w algo) lines (register_trace w a algo (fresh_detector ops (make_cfg a algo) e)) = Inr d"
    by (auto simp: run_algo_def new_detector_def bind_res_eq_Inr)
  have "dc_algo (make_cfg a algo) \<in> {''cms'', ''mg'', ''hashmap''}"
    using e(1) by (auto simp: make_estimator_def split: if_splits)
  then have "algo_named (register_trace w a algo (fresh_detector ops (make_cfg a algo) e))"
    by (simp add: algo_named_def register_trace_def fresh_detector_def)
  with e(2) show "algo_named d" by (rule algo_named_scan)
qed

lemma run_algos_named: "run_algos ops w a lines = Inr ds \<Longrightarrow> d \<in> set ds \<Longrightarrow> algo_named d"
proof -
  assume r: "run_algos ops w a lines = Inr ds" and d: "d \<in> set ds"
  have "\<forall>d \<in> set ds. algo_named d"
    by (rule fold_res_invariant [where P = "\<lambda>_ ds. \<forall>d \<in> set ds. algo_named d", OF r [unfolded run_algos_def]])
      (auto simp: bind_res_eq_Inr intro: algo_named_run)
  with d show ?thesis by blast
qed

section \<open>Properties\<close>

text \<open>C33: The tool reads both of its formats: a line of the collector gives its event, with the addresses in host
  byte order, and tcpdump's line for a SYN gives addresses, destination port and the time of reading,
  whatever stands before it (on a line that is not JSON, without an \<open>I\<close> and up to a word boundary) and
  after it.\<close>

theorem tool_reads_both_formats:
  assumes "CHR ''I'' \<notin> set pre" and "pre \<noteq> [] \<Longrightarrow> hd pre \<noteq> CHR ''{'' \<and> \<not> is_word (last pre)" and "dport < 65536"
  shows "parse_line (event_json evt) now =
      Inr (Some \<lparr>se_src_ip = ntohl (src_ip evt), se_dst_ip = ntohl (dst_ip evt), se_dst_port = dst_port evt,
                 se_timestamp_ns = timestamp_ns evt\<rparr>) \<and>
    parse_line (pre @ syn_text src sport dst dport @ s) now =
      Inr (Some \<lparr>se_src_ip = src, se_dst_ip = dst, se_dst_port = of_nat dport, se_timestamp_ns = now\<rparr>)"
proof (rule conjI)
  show "parse_line (event_json evt) now =
      Inr (Some \<lparr>se_src_ip = ntohl (src_ip evt), se_dst_ip = ntohl (dst_ip evt), se_dst_port = dst_port evt,
                 se_timestamp_ns = timestamp_ns evt\<rparr>)"
    by (simp add: parse_line_def parse_json_collector)
  have "hd (pre @ syn_text src sport dst dport @ s) \<noteq> CHR ''{''"
    using assms(2) by (cases pre) (auto simp: syn_text_def)
  then have "parse_json (pre @ syn_text src sport dst dport @ s) now = Inr None"
    by (simp add: parse_json_def)
  then show "parse_line (pre @ syn_text src sport dst dport @ s) now =
      Inr (Some \<lparr>se_src_ip = src, se_dst_ip = dst, se_dst_port = of_nat dport, se_timestamp_ns = now\<rparr>)"
    using parse_tcpdump_syn [OF assms(1) _ assms(3)] assms(2) by (simp add: parse_line_def)
qed

theorem tool_reads_both_formats_witness:
  "parse_line (''21:30:42.123 '' @ syn_text 0x0A000563 34522 0x0A00002A 80 @ '', seq 1'') 99 =
     Inr (Some \<lparr>se_src_ip = 0x0A000563, se_dst_ip = 0x0A00002A, se_dst_port = 80, se_timestamp_ns = 99\<rparr>)"
proof -
  have i: "CHR ''I'' \<notin> set ''21:30:42.123 ''" by simp
  have w: "hd ''21:30:42.123 '' \<noteq> CHR ''{'' \<and> \<not> is_word (last ''21:30:42.123 '')"
    by (simp add: is_word_def is_digit_def)
  have p: "(80 :: nat) < 65536" by simp
  from tool_reads_both_formats [OF i w p] show ?thesis by simp
qed

text \<open>C12: The tool's three algorithms bracket the scans: run with \<open>--algo all\<close> (a sketch of non-zero width, two or
  more Misra-Gries counters) on any input whose lines carry their time, it exits with 0; the exact
  counter alerts precisely the sources that have more events in a window than the threshold,
  Misra-Gries only such sources, the sketch at least all of them; tracing changes none of it.\<close>

theorem tool_brackets_scans:
  assumes "parse_args args default_args = Inr (Some a)" and "cl_algo a = ''all''"
    and "cl_cms_width a \<noteq> 0" and "2 \<le> cl_mg_k a"
    and "tool_lines w a = Some lines" and "list_all timed lines" and "length lines < 2 ^ 64"
  shows "\<exists>cms mg hm out. tool_main (any_ops szh szm cap) w args = Inr (0, [cms, mg, hm], out) \<and>
    set (alert_tags mg) \<subseteq> scans a (tool_events lines) \<and>
    set (alert_tags hm) = scans a (tool_events lines) \<and>
    scans a (tool_events lines) \<subseteq> set (alert_tags cms)"
proof -
  let ?run = "run_algo (any_ops szh szm cap) w a lines"
  obtain cms where cms: "?run ''cms'' = Inr cms" "scans a (tool_events lines) \<subseteq> set (alert_tags cms)"
    using run_algo_over [OF assms(6,7)] assms(3) by blast
  obtain mg where mg: "?run ''mg'' = Inr mg" "set (alert_tags mg) \<subseteq> scans a (tool_events lines)"
    using run_algo_under [OF assms(6,7)] assms(4) by blast
  obtain hm where hm: "?run ''hashmap'' = Inr hm" "scans a (tool_events lines) \<subseteq> set (alert_tags hm)"
    using run_algo_over [OF assms(6,7)] by blast
  moreover have "set (alert_tags hm) \<subseteq> scans a (tool_events lines)"
    using run_algo_under [OF assms(6,7), of "''hashmap''" a szh szm cap w] hm(1) by auto
  ultimately have eq: "set (alert_tags hm) = scans a (tool_events lines)" by blast
  have "run_algos (any_ops szh szm cap) w a lines = Inr [cms, mg, hm]"
    by (simp add: run_algos_def assms(2) cms(1) mg(1) hm(1))
  then have "\<exists>out. tool_main (any_ops szh szm cap) w args = Inr (0, [cms, mg, hm], out)"
    by (simp add: tool_main_def assms(1,5))
  with cms(2) mg(2) eq show ?thesis by blast
qed

definition demo_scan_events :: "net_event list" where
  "demo_scan_events = map (\<lambda>(s, t). \<lparr>src_ip = ntohl s, dst_ip = ntohl 9, dst_port = 80, pid = 1, timestamp_ns = t\<rparr>)
     [(7, 1000), (8, 1010), (7, 1020)]"

definition demo_tool :: tool_world where
  "demo_tool =
     \<lparr>tw_files = (\<lambda>_. None), tw_stdin = concat (map (\<lambda>e. event_json e @ [CHR 0x0A]) demo_scan_events),
      tw_writable = (\<lambda>_. True), tw_clock = (\<lambda>_ _. 0)\<rparr>"

lemma event_json_parsed:
  "parse_line (event_json evt) now =
     Inr (Some \<lparr>se_src_ip = ntohl (src_ip evt), se_dst_ip = ntohl (dst_ip evt), se_dst_port = dst_port evt,
                se_timestamp_ns = timestamp_ns evt\<rparr>)"
  by (simp add: parse_line_def parse_json_collector)

lemma demo_tool_lines: "tool_lines demo_tool (default_args\<lparr>cl_threshold := 1\<rparr>) = Some (map event_json demo_scan_events)"
proof -
  have l: "getlines CHR 0x0A (concat (map (\<lambda>e. event_json e @ [CHR 0x0A]) es)) = map event_json es" for es
    by (induction es) (simp_all add: getlines_part [OF event_json_line])
  have "filter (\<lambda>line. line \<noteq> []) (map event_json es) = map event_json es" for es
    by (induction es) (simp_all add: event_json_def)
  then show ?thesis by (simp add: tool_lines_def demo_tool_def default_args_def l)
qed

lemma demo_tool_scan: "(0, 7) \<in> scans (default_args\<lparr>cl_threshold := 1\<rparr>) (tool_events (map event_json demo_scan_events))"
proof -
  let ?es = "map (\<lambda>(s, t). \<lparr>se_src_ip = s, se_dst_ip = 9, se_dst_port = 80, se_timestamp_ns = t\<rparr>)
     [(7, 1000), (8, 1010), (7, 1020)]"
  have "ntohl (ntohl w) = w" for w by (simp only: ntohl_ntohl)
  then have "tool_events (map event_json demo_scan_events) = ?es"
    by (simp add: tool_events_def line_events_def event_json_parsed demo_scan_events_def)
  moreover have "tags 60000000000 ?es = [(0, 7), (0, 8), (0, 7)]" by code_simp
  ultimately show ?thesis by (simp add: scans_def default_args_def)
qed

lemma demo_tool_args: "parse_args [''--threshold'', ''1''] default_args = Inr (Some (default_args\<lparr>cl_threshold := 1\<rparr>))"
proof -
  have "char_of (49 :: nat) = CHR ''1''" by code_simp
  then have "to_string 1 = ''1''" by (simp add: to_string.simps digit_char_def)
  then have "stoull ''1'' = Inr 1" using sto_u64_to_string [of 1 "''stoull''"] by (simp add: stoull_def)
  then have "parse_uint ''1'' 40 = 1" by (simp add: parse_uint_def)
  then show ?thesis by (simp add: set_arg_def default_args_def)
qed

theorem tool_brackets_scans_witness:
  "\<exists>cms mg hm out. tool_main (any_ops 0 0 (\<lambda>_. 0)) demo_tool [''--threshold'', ''1''] = Inr (0, [cms, mg, hm], out) \<and>
     (0, 7) \<in> set (alert_tags hm)"
proof -
  let ?a = "default_args\<lparr>cl_threshold := 1\<rparr>"
  have a: "cl_algo ?a = ''all''" "cl_cms_width ?a \<noteq> 0" "2 \<le> cl_mg_k ?a" by (simp_all add: default_args_def)
  have t: "list_all timed (map event_json demo_scan_events)" by (auto simp: list_all_iff timed_def event_json_parsed)
  have l: "length (map event_json demo_scan_events) < 2 ^ 64" by (simp add: demo_scan_events_def)
  from tool_brackets_scans [OF demo_tool_args a demo_tool_lines t l] demo_tool_scan show ?thesis by blast
qed

lemma tool_main_ran:
  assumes "tool_main ops w args = Inr (code, ds, Some t)"
  shows "\<exists>a lines. run_algos ops w a lines = Inr ds \<and> t = alerts_text ds"
proof -
  obtain r where "parse_args args default_args = Inr r" using assms by (cases "parse_args args default_args") (auto simp: tool_main_def)
  moreover obtain a where "r = Some a" using assms calculation by (cases r) (auto simp: tool_main_def)
  moreover obtain lines where "tool_lines w a = Some lines"
    using assms calculation by (cases "tool_lines w a") (auto simp: tool_main_def)
  ultimately have "run_algos ops w a lines = Inr ds" "t = alerts_text ds"
    using assms by (auto simp: tool_main_def bind_res_eq_Inr split: if_splits)
  then show ?thesis by blast
qed

text \<open>C36: Whatever it ran on, the alert file the tool writes is a JSON array over several lines: the brackets on lines of
  their own, and between them one object per alert of every detector, in order.\<close>

theorem tool_alert_file_is_json:
  assumes "tool_main ops w args = Inr (code, ds, Some t)"
  shows "\<exists>rows. getlines CHR 0x0A t = ''['' # row_lines rows @ ['']''] \<and>
    list_all2 json_text rows (map scan_alert_object (concat (map alerts ds)))"
proof -
  let ?als = "concat (map alerts ds)"
  obtain a lines where "run_algos ops w a lines = Inr ds" and t: "t = alerts_text ds"
    using tool_main_ran [OF assms] by blast
  note named = run_algos_named [OF this(1)]
  have nm: "sa_algo al \<in> {''cms'', ''mg'', ''hashmap''}" if al: "al \<in> set ?als" for al
  proof -
    obtain d where "d \<in> set ds" "al \<in> set (alerts d)" using al by auto
    with named [of d] show ?thesis by (simp add: algo_named_def)
  qed
  have u: "unescaped (sa_algo al)" if "al \<in> set ?als" for al
    using nm [OF that] by (elim insertE emptyE) (simp_all add: escape_char_def)
  have "printable (sa_algo al)" if "al \<in> set ?als" for al
    using nm [OF that] by (elim insertE emptyE) simp_all
  then have "\<forall>al \<in> set ?als. CHR 0x0A \<notin> set (alert_row al)"
    by (intro ballI printable_no_newline printable_row)
  from getlines_rows [OF this, of "'']'' @ [CHR 0x0A]"]
  have "getlines CHR 0x0A (alert_rows True ?als @ CHR 0x0A # '']'' @ [CHR 0x0A]) = row_lines (map alert_row ?als) @ ['']'']"
    using getlines_line [of "'']''" "[]"] by simp
  moreover have "getlines CHR 0x0A t = ''['' # getlines CHR 0x0A (alert_rows True ?als @ CHR 0x0A # '']'' @ [CHR 0x0A])"
    unfolding t alerts_text_def by (subst getlines_line [symmetric]) simp_all
  moreover have "list_all2 json_text (map alert_row ?als) (map scan_alert_object ?als)"
    unfolding list_all2_conv_all_nth using alert_row_json [OF u [OF nth_mem]] by simp
  ultimately show ?thesis by (intro exI [of _ "map alert_row ?als"] conjI) (simp_all only:)
qed

theorem tool_alert_file_is_json_witness:
  "\<exists>rows. getlines CHR 0x0A ([CHR ''['', CHR 0x0A, CHR 0x0A, CHR '']'', CHR 0x0A]) = ''['' # row_lines rows @ ['']'']"
proof -
  let ?w = "\<lparr>tw_files = (\<lambda>_. None), tw_stdin = '''', tw_writable = (\<lambda>_. True), tw_clock = (\<lambda>_ _. 0)\<rparr>"
  have "tool_main (any_ops 0 0 (\<lambda>_. 0)) ?w [''--algo'', ''hashmap'', ''--alerts'', ''a''] =
    Inr (0, [fresh_detector (any_ops 0 0 (\<lambda>_. 0)) (make_cfg (default_args\<lparr>cl_algo := ''hashmap'', cl_alerts_path := ''a''\<rparr>) ''hashmap'')
        (AnyHashMap hm_new)], Some ([CHR ''['', CHR 0x0A, CHR 0x0A, CHR '']'', CHR 0x0A]))"
    by (simp add: tool_main_def set_arg_def default_args_def tool_lines_def run_algos_def run_algo_def new_detector_def
        make_estimator_def make_cfg_def scan_lines_def register_trace_def alerts_text_def fresh_detector_def)
  from tool_alert_file_is_json [OF this] show ?thesis by blast
qed

text \<open>A sketch width that cannot be read is taken for 0: the program starts, and the first event of the input ends it
  with a division by zero.\<close>

theorem unreadable_width_traps:
  assumes "stoull v = Inl err"
    and "filter (\<lambda>line. line \<noteq> []) (getlines CHR 0x0A (tw_stdin w)) = l # ls"
    and "parse_line l (tw_clock w ''cms'' 0) = Inr (Some evt)"
  shows "tool_main (any_ops szh szm cap) w [''--algo'', ''cms'', ''--cms-width'', v] = Inl DivideByZero"
proof -
  let ?a = "default_args\<lparr>cl_algo := ''cms'', cl_cms_width := 0\<rparr>"
  have a: "parse_args [''--algo'', ''cms'', ''--cms-width'', v] default_args = Inr (Some ?a)"
    by (simp add: set_arg_def parse_uint_def assms(1))
  have l: "tool_lines w ?a = Some (l # ls)" by (simp add: tool_lines_def default_args_def assms(2))
  have n: "new_detector (any_ops szh szm cap) (make_cfg ?a ''cms'') =
      Inr (fresh_detector (any_ops szh szm cap) (make_cfg ?a ''cms'') (AnyCMS (cms_new 0 5)))"
    by (simp add: new_detector_def make_estimator_def make_cfg_def default_args_def)
  have five: "(5 :: u32) \<noteq> 0" by simp
  have "process (any_ops szh szm cap) evt d = Inl DivideByZero" if "estimator d = AnyCMS (cms_new 0 5)" "window_start_ns d = 0" for d
    using that cms_zero_width [OF five]
    by (simp add: process_def Let_def maybe_reset_window_def record_u32_def any_ops_def cms_ops_def)
  then have "run_algo (any_ops szh szm cap) w ?a (l # ls) ''cms'' = Inl DivideByZero"
    unfolding run_algo_def n
    by (simp add: scan_lines_def assms(3) register_trace_def fresh_detector_def default_args_def)
  then have "run_algos (any_ops szh szm cap) w ?a (l # ls) = Inl DivideByZero"
    by (simp add: run_algos_def default_args_def)
  then show ?thesis unfolding tool_main_def a by (simp add: l)
qed

theorem unreadable_width_traps_witness:
  "tool_main (any_ops 0 0 (\<lambda>_. 0)) demo_tool [''--algo'', ''cms'', ''--cms-width'', ''wide''] = Inl DivideByZero"
proof -
  have v: "stoull ''wide'' = Inl (InvalidArgument ''stoull'')"
    by (simp add: stoull_def sto_u64_def scan_number_def is_space_def is_digit_def)
  have "filter (\<lambda>line. line \<noteq> []) (getlines CHR 0x0A (tw_stdin demo_tool)) = map event_json demo_scan_events"
    using demo_tool_lines by (simp add: tool_lines_def default_args_def)
  also have "map event_json demo_scan_events =
      event_json (hd demo_scan_events) # map event_json (tl demo_scan_events)"
    by (simp add: demo_scan_events_def)
  finally show ?thesis by (rule unreadable_width_traps [OF v _ event_json_parsed])
qed

end
