(* ===== verification/Snapshot.thy ===== *)
theory Snapshot
  imports ScanTool "HOL-Library.Multiset"
begin

text \<open>
  The files the port-scan tool writes besides its alerts: the snapshots of a detector's estimator
  (\<open>tools/portscan-pipeline/detector.cpp\<close>), which \<open>maybe_emit_trace\<close> prints at the events asked for, and the
  table that compares the algorithms (\<open>main.cpp\<close>).

  A snapshot is rendered here from what the detector recorded of it, the estimator included. \<open>std::sort\<close> is
  not stable, so the order of equal counts is its own: it is the parameter \<open>srt\<close>. The texts of the two
  floating-point columns of the table are parameters too.
\<close>

section \<open>The watch list\<close>

definition watchlist :: "(string \<times> string) list" where
  "watchlist =
     [(''10.0.5.99'', ''attacker        ''), (''10.0.1.10'', ''frontend-1      ''),
      (''10.0.1.11'', ''frontend-2      ''), (''10.0.2.10'', ''backend-1       ''),
      (''10.0.2.11'', ''backend-2       ''), (''10.0.3.10'', ''postgres        ''),
      (''10.0.3.11'', ''redis           ''), (''10.0.4.10'', ''prometheus      '')]"

text \<open>The loop of \<open>parse_watch_ip\<close>: the octets so far, the index of the next and the characters of the current
  one. Its index is checked at the end of the text only.\<close>

fun watch_ip_loop :: "string \<Rightarrow> u32 list \<Rightarrow> nat \<Rightarrow> string \<Rightarrow> u32 list res" where
  "watch_ip_loop [] os i cur =
     (if cur \<noteq> [] \<and> i < 4 then bind_res (stoul cur) (\<lambda>v. Inr (os[i := ucast v])) else Inr os)"
| "watch_ip_loop (c # s) os i cur =
     (if c = CHR ''.''
      then bind_res (stoul cur) (\<lambda>v. if i < 4 then watch_ip_loop s (os[i := ucast v]) (i + 1) '''' else Inl Undefined)
      else watch_ip_loop s os i (cur @ [c]))"

definition parse_watch_ip :: "string \<Rightarrow> u32 res" where
  "parse_watch_ip s =
     bind_res (watch_ip_loop s [0, 0, 0, 0] 0 '''') (\<lambda>os.
       Inr (push_bit 24 (os ! 0) OR push_bit 16 (os ! 1) OR push_bit 8 (os ! 2) OR os ! 3))"

definition watch_row :: "string \<Rightarrow> string \<Rightarrow> u64 \<Rightarrow> string" where
  "watch_row ip who f = ''    '' @ ip @ ''  '' @ who @ ''  est='' @ num f @ [CHR 0x0A]"

definition write_watchlist :: "'e estimator_ops \<Rightarrow> 'e \<Rightarrow> string res" where
  "write_watchlist ops est =
     fold_res (\<lambda>(ip, who) out.
         bind_res (parse_watch_ip ip) (\<lambda>key.
         bind_res (estimate_u32 ops est key) (\<lambda>f. Inr (out @ watch_row ip who f))))
       watchlist (''  watchlist (estimated frequency from current estimator):'' @ [CHR 0x0A])"

section \<open>The writers\<close>

definition write_cms_snapshot :: "any_estimator estimator_ops \<Rightarrow> any_estimator \<Rightarrow> string res" where
  "write_cms_snapshot ops est =
     bind_res (write_watchlist ops est) (\<lambda>watch.
       Inr ((case est of
               AnyCMS c \<Rightarrow> ''  cms_width     : '' @ num32 (cms_width c) @ [CHR 0x0A] @
                 ''  cms_depth     : '' @ num32 (cms_depth c) @ [CHR 0x0A]
             | _ \<Rightarrow> '''') @ watch))"

definition slot_ip :: "bytes \<Rightarrow> string" where
  "slot_ip k =
     (if length k = 4
      then to_string (unat (k ! 3)) @ ''.'' @ to_string (unat (k ! 2)) @ ''.'' @
        to_string (unat (k ! 1)) @ ''.'' @ to_string (unat (k ! 0))
      else ''?'')"

definition slot_row :: "bytes \<times> u64 \<Rightarrow> string" where
  "slot_row = (\<lambda>(k, v). ''    '' @ pad_right 15 (slot_ip k) @ ''  count='' @ num v @ [CHR 0x0A])"

type_synonym sorter = "(bytes \<times> u64) list \<Rightarrow> (bytes \<times> u64) list"

definition write_mg_snapshot :: "sorter \<Rightarrow> any_estimator estimator_ops \<Rightarrow> any_estimator \<Rightarrow> string res" where
  "write_mg_snapshot srt ops est =
     bind_res (write_watchlist ops est) (\<lambda>watch.
       Inr ((case est of
               AnyHeavy m \<Rightarrow>
                 (let sorted = srt (mg_counters m); shown = min (length sorted) 8 in
                  ''  mg_k          : '' @ num32 (mg_k m) @ [CHR 0x0A] @
                  ''  active_slots  : '' @ to_string (length (mg_counters m)) @ [CHR 0x0A] @
                  ''  stream_length : '' @ num (mg_n m) @ [CHR 0x0A] @
                  ''  top slots (decoded as IPv4 little-endian uint32):'' @ [CHR 0x0A] @
                  concat (map (\<lambda>i. slot_row (sorted ! i)) [0..<shown]))
             | _ \<Rightarrow> '''') @ watch))"

definition write_hashmap_snapshot :: "any_estimator estimator_ops \<Rightarrow> any_estimator \<Rightarrow> string res" where
  "write_hashmap_snapshot ops est = write_watchlist ops est"

text \<open>The writer that \<open>register_trace\<close> chooses, and the text of a snapshot.\<close>

definition trace_writer ::
  "sorter \<Rightarrow> any_estimator estimator_ops \<Rightarrow> string \<Rightarrow> any_estimator \<Rightarrow> string res" where
  "trace_writer srt ops algo =
     (if algo = ''cms'' then write_cms_snapshot ops
      else if algo = ''mg'' then write_mg_snapshot srt ops
      else write_hashmap_snapshot ops)"

definition snapshot_head :: "u64 \<Rightarrow> u64 \<Rightarrow> u64 \<Rightarrow> string \<Rightarrow> u64 \<Rightarrow> nat \<Rightarrow> string" where
  "snapshot_head n window t name mem alerted =
     ''=== Snapshot at event #'' @ num n @ '' (window '' @ num window @ '', t='' @ num t @ '' ns) ==='' @ [CHR 0x0A] @
     ''  algorithm     : '' @ name @ [CHR 0x0A] @
     ''  memory_usage  : '' @ num mem @ '' bytes'' @ [CHR 0x0A] @
     ''  total_events  : '' @ num n @ [CHR 0x0A] @
     ''  alerted_in_w  : '' @ to_string alerted @ [CHR 0x0A]"

fun snapshot_text :: "(any_estimator \<Rightarrow> string res) \<Rightarrow> any_estimator snapshot \<Rightarrow> string res" where
  "snapshot_text writer (n, window, t, name, mem, alerted, est) =
     bind_res (writer est) (\<lambda>body. Inr (snapshot_head n window t name mem alerted @ body @ [CHR 0x0A]))"

definition trace_text ::
  "sorter \<Rightarrow> any_estimator estimator_ops \<Rightarrow> cli_args \<Rightarrow> string \<Rightarrow> any_estimator detector \<Rightarrow> string res" where
  "trace_text srt ops a algo d =
     fold_res (\<lambda>s out. bind_res (snapshot_text (trace_writer srt ops algo) s) (\<lambda>t. Inr (out @ t)))
       (trace_out d) (trace_header algo (cl_trace_at a))"

section \<open>The comparison\<close>

text \<open>\<open>kb\<close>, \<open>eps\<close>: the texts of \<open>peak_memory / 1024.0\<close> and of the throughput of the detector at an index.\<close>

definition csv_row :: "(u64 \<Rightarrow> string) \<Rightarrow> string \<Rightarrow> 'e detector \<Rightarrow> string" where
  "csv_row kb eps d =
     (case comparison_row d of (algo, events, n, tp, fp) \<Rightarrow>
        algo @ '','' @ num events @ '','' @ to_string n @ '','' @ to_string tp @ '','' @ to_string fp @ '','' @
        kb (peak_memory d) @ '','' @ eps @ [CHR 0x0A])"

definition comparison_csv :: "(u64 \<Rightarrow> string) \<Rightarrow> (nat \<Rightarrow> string) \<Rightarrow> 'e detector list \<Rightarrow> string" where
  "comparison_csv kb eps ds =
     ''algo,total_events,alerts,true_positives,false_positives,peak_memory_kb,throughput_eps'' @ [CHR 0x0A] @
     concat (map (\<lambda>(i, d). csv_row kb (eps i) d) (enumerate 0 ds))"

section \<open>Addresses\<close>

lemma watch_ip_loop_part:
  "CHR ''.'' \<notin> set p \<Longrightarrow> watch_ip_loop (p @ s) os i cur = watch_ip_loop s os i (cur @ p)"
  by (induction p arbitrary: cur) auto

text \<open>The list's own parser reads a printed address.\<close>

lemma parse_watch_ip_to_string: "parse_watch_ip (ip_to_string ip) = Inr ip"
proof -
  have dot: "CHR ''.'' \<notin> set (to_string n)" for n
    using to_string_digits is_digit_not by blast
  have o: "unat (octet s ip) < 2 ^ 64" for s using unat_octet [of s ip] by simp
  have c: "(ucast (ucast (octet s ip) :: u64) :: u32) = octet s ip" for s
    by (rule bit_word_eqI) (auto simp: octet_take_bit bit_simps)
  have end4: "watch_ip_loop (to_string n) os i '''' = watch_ip_loop [] os i (to_string n)" for n os i
    using watch_ip_loop_part [OF dot, of n "[]" os i "''''"] by simp
  have "parse_watch_ip (ip_to_string ip) =
      Inr (push_bit 24 (octet 24 ip) OR push_bit 16 (octet 16 ip) OR push_bit 8 (octet 8 ip) OR octet 0 ip)"
    by (simp add: parse_watch_ip_def ip_to_string_def dotted_def watch_ip_loop_part [OF dot] end4
        stoul_def sto_u64_to_string [OF o] c)
  then show ?thesis by (simp only: octets_join)
qed

definition watched :: "u32 list" where
  "watched = [0x0A000563, 0x0A00010A, 0x0A00010B, 0x0A00020A, 0x0A00020B, 0x0A00030A, 0x0A00030B, 0x0A00040A]"

lemma watchlist_addresses: "map fst watchlist = map ip_to_string watched"
  by code_simp

section \<open>What the detector records\<close>

text \<open>The events at which a detector takes a snapshot, and a snapshot that is right for the event \<open>n\<close>: it holds the
  number of the event, of its window, its time, and an estimator that has seen the window's events so far.\<close>

definition trace_points :: "'e detector \<Rightarrow> scan_event list \<Rightarrow> nat list" where
  "trace_points d es = (if tracing d then filter (\<lambda>n. of_nat n \<in> trace_at d) [1..<Suc (length es)] else [])"

definition snap_ok ::
  "('e \<Rightarrow> bytes list \<Rightarrow> bool) \<Rightarrow> 'e estimator_ops \<Rightarrow> u64 \<Rightarrow> scan_event list \<Rightarrow> nat \<Rightarrow> 'e snapshot \<Rightarrow> bool" where
  "snap_ok Inv ops w es n = (\<lambda>(events, window, t, name, mem, alerted, e).
     events = of_nat n \<and> window = of_nat (snd (windows_end w (take n es))) \<and> t = se_timestamp_ns (es ! (n - 1)) \<and>
     name = op_name ops e \<and> Inv e (map bytes_of_u32 (window_stream w (take n es))))"

definition traced ::
  "('e \<Rightarrow> bytes list \<Rightarrow> bool) \<Rightarrow> 'e estimator_ops \<Rightarrow> u64 \<Rightarrow> scan_event list \<Rightarrow> 'e detector \<Rightarrow> bool" where
  "traced Inv ops w es d \<longleftrightarrow> list_all2 (snap_ok Inv ops w es) (trace_points d es) (trace_out d)"

lemma snap_ok_later:
  "1 \<le> n \<Longrightarrow> n \<le> length es \<Longrightarrow> snap_ok Inv ops w es n s \<Longrightarrow> snap_ok Inv ops w (es @ [e]) n s"
  by (auto simp: snap_ok_def nth_append)

lemma trace_points_snoc:
  "trace_points d (es @ [e]) =
     trace_points d es @ (if tracing d \<and> of_nat (Suc (length es)) \<in> trace_at d then [Suc (length es)] else [])"
  by (simp add: trace_points_def)

lemma trace_points_cong:
  "tracing d' = tracing d \<Longrightarrow> trace_at d' = trace_at d \<Longrightarrow> trace_points d' es = trace_points d es"
  by (simp add: trace_points_def)

text \<open>An event ends with \<open>maybe_emit_trace\<close>; nothing before it touches the trace.\<close>

lemma process_emits:
  assumes "process ops e d = Inr (d', em)"
  obtains d2 where "d' = maybe_emit_trace ops e d2" "trace_out d2 = trace_out d" "tracing d2 = tracing d"
    "trace_at d2 = trace_at d"
proof -
  let ?d = "maybe_reset_window ops (se_timestamp_ns e) d"
  have k: "trace_out ?d = trace_out d" "tracing ?d = tracing d" "trace_at ?d = trace_at d"
    by (simp_all add: maybe_reset_window_def)
  from assms obtain x freq where
    "record_u32 ops (estimator ?d) (se_src_ip e) = Inr x" "estimate_u32 ops x (se_src_ip e) = Inr freq"
    by (auto simp: process_def Let_def bind_res_eq_Inr)
  note x = this
  let ?d1 = "?d\<lparr>estimator := x, total_events := total_events ?d + 1,
    peak_memory := max (peak_memory ?d) (op_memory_usage ops x)\<rparr>"
  let ?d2 = "if em then raise_alert e freq ?d1 else ?d1"
  have "d' = maybe_emit_trace ops e ?d2" using assms x by (auto simp: process_def Let_def)
  then show thesis by (rule that) (simp_all add: k raise_alert_def)
qed

lemma emit_keeps:
  "tracing (maybe_emit_trace ops e d) = tracing d" "trace_at (maybe_emit_trace ops e d) = trace_at d"
  "det_inv Inv c es (maybe_emit_trace ops e d) \<longleftrightarrow> det_inv Inv c es d"
  by (simp_all add: maybe_emit_trace_def det_inv_def)

lemma traced_step:
  assumes "traced Inv ops (dc_window_ns c) es d" and "process ops e d = Inr (d', em)" and "det_inv Inv c (es @ [e]) d'"
  shows "traced Inv ops (dc_window_ns c) (es @ [e]) d' \<and> tracing d' = tracing d \<and> trace_at d' = trace_at d"
proof -
  let ?w = "dc_window_ns c"
  obtain d2 where d2: "d' = maybe_emit_trace ops e d2" "trace_out d2 = trace_out d" "tracing d2 = tracing d"
    "trace_at d2 = trace_at d" by (rule process_emits [OF assms(2)])
  have inv: "det_inv Inv c (es @ [e]) d2" using assms(3) unfolding d2(1) emit_keeps .
  have "list_all2 (snap_ok Inv ops ?w es) (trace_points d es) (trace_out d)" using assms(1) by (simp add: traced_def)
  then have old: "list_all2 (snap_ok Inv ops ?w (es @ [e])) (trace_points d es) (trace_out d)"
    by (rule list.rel_mono_strong) (auto simp: trace_points_def snap_ok_later split: if_splits)
  have new: "snap_ok Inv ops ?w (es @ [e]) (Suc (length es))
      (total_events d2, window_id d2, se_timestamp_ns e, op_name ops (estimator d2),
        op_memory_usage ops (estimator d2), card (alerted_in_window d2), estimator d2)"
    using inv by (simp add: snap_ok_def det_inv_def)
  have n: "total_events d2 = of_nat (Suc (length es))" using inv by (simp add: det_inv_def)
  have "trace_points d' (es @ [e]) = trace_points d (es @ [e])"
    by (rule trace_points_cong) (simp_all add: d2 emit_keeps)
  then show ?thesis
    using old new n d2(3,4) unfolding traced_def d2(1) emit_keeps trace_points_snoc
    by (auto simp: maybe_emit_trace_def d2(2) intro: list_all2_appendI)
qed

context estimator
begin

lemma traced_run:
  assumes "det_inv Inv c [] d0" and "trace_out d0 = []"
  shows "length es < 2 ^ 64 \<Longrightarrow> \<exists>d. process_all ops es d0 = Inr d \<and> det_inv Inv c es d \<and>
    traced Inv ops (dc_window_ns c) es d \<and> tracing d = tracing d0 \<and> trace_at d = trace_at d0"
proof (induction es rule: rev_induct)
  case Nil
  then show ?case using assms by (simp add: process_all_def traced_def trace_points_def)
next
  case (snoc e es)
  then obtain d where d: "process_all ops es d0 = Inr d" "det_inv Inv c es d" "traced Inv ops (dc_window_ns c) es d"
    "tracing d = tracing d0" "trace_at d = trace_at d0" by auto
  have len: "Suc (length es) < 2 ^ 64" using snoc.prems by simp
  obtain d' em where p: "process ops e d = Inr (d', em)" "det_inv Inv c (es @ [e]) d'"
    by (rule process_step [OF d(2) len])
  from traced_step [OF d(3) p] d p show ?case by (simp add: process_all_snoc)
qed

end

section \<open>The texts\<close>

definition watch_text :: "(u32 \<Rightarrow> u64) \<Rightarrow> string" where
  "watch_text f =
     ''  watchlist (estimated frequency from current estimator):'' @ [CHR 0x0A] @
     concat (map (\<lambda>(ip, who). watch_row (ip_to_string ip) who (f ip)) (zip watched (map snd watchlist)))"

lemma write_watchlist_text:
  assumes "\<And>ip. estimate_u32 ops est ip = Inr (f ip)"
  shows "write_watchlist ops est = Inr (watch_text f)"
proof -
  have "fold_res (\<lambda>(ip, who) out.
         bind_res (parse_watch_ip ip) (\<lambda>key.
         bind_res (estimate_u32 ops est key) (\<lambda>f. Inr (out @ watch_row ip who f))))
       (zip (map ip_to_string ips) ws) out =
     Inr (out @ concat (map (\<lambda>(ip, who). watch_row (ip_to_string ip) who (f ip)) (zip ips ws)))" for ips ws out
  proof (induction ips arbitrary: ws out)
    case (Cons ip ips)
    then show ?case by (cases ws) (simp_all add: parse_watch_ip_to_string assms)
  qed simp
  from this [of watched "map snd watchlist"]
  show ?thesis by (simp add: write_watchlist_def watch_text_def zip_map_fst_snd flip: watchlist_addresses)
qed

text \<open>The estimator an algorithm uses, with the stream it has seen.\<close>

fun of_algo :: "string \<Rightarrow> any_estimator \<Rightarrow> bytes list \<Rightarrow> bool" where
  "of_algo algo (AnyCMS c) xs \<longleftrightarrow> algo = ''cms'' \<and> cms_inv c xs"
| "of_algo algo (AnyHashMap h) xs \<longleftrightarrow> algo = ''hashmap'' \<and> hm_inv h xs"
| "of_algo algo (AnyHeavy m) xs \<longleftrightarrow> algo = ''mg'' \<and> mg_inv m xs"

lemma map_sum_Inr: "map_sum id g q = Inr y \<longleftrightarrow> (\<exists>x. q = Inr x \<and> y = g x)"
  by (cases q) auto

interpretation of_algo: estimator "any_ops szh szm cap" "of_algo algo" for szh szm cap algo
proof unfold_locales
  fix e xs k
  assume i: "of_algo algo e xs"
  then have a: "any_inv e xs" by (cases e) simp_all
  show "\<exists>e'. op_record (any_ops szh szm cap) e k = Inr e' \<and> of_algo algo e' (xs @ [k])"
    using any.record_ok [OF a, of szh szm cap k] i
    by (cases e) (auto simp: any_ops_def cms_ops_def hm_ops_def mg_ops_def map_sum_Inr)
  show "\<exists>n. op_estimate (any_ops szh szm cap) e k = Inr n" by (rule any.estimate_ok [OF a])
  show "of_algo algo (op_reset (any_ops szh szm cap) e) []"
    using any.reset_ok [OF a, of szh szm cap] i by (cases e) (auto simp: any_ops_def)
qed

lemma of_algo_bounds:
  assumes "of_algo algo e (map bytes_of_u32 ips)" and "length ips < 2 ^ 64"
    and "estimate_u32 (any_ops szh szm cap) e ip = Inr n"
  shows "algo \<noteq> ''mg'' \<Longrightarrow> count_list ips ip \<le> unat n" and "algo \<noteq> ''cms'' \<Longrightarrow> unat n \<le> count_list ips ip"
proof -
  let ?xs = "map bytes_of_u32 ips" and ?k = "bytes_of_u32 ip"
  have l: "length ?xs < 2 ^ 64" using assms(2) by simp
  have e: "op_estimate (any_ops szh szm cap) e ?k = Inr n" using assms(3) by (simp add: estimate_u32_def)
  have c: "count_list ?xs ?k = count_list ips ip" by (rule count_list_map_inj [OF inj_bytes_of_u32])
  have "algo \<noteq> ''mg'' \<Longrightarrow> any_over e ?xs" "algo \<noteq> ''cms'' \<Longrightarrow> any_under e ?xs"
    using assms(1) by (cases e; simp)+
  with any_over.over [OF _ l e] any_under.under [OF _ l e]
  show "algo \<noteq> ''mg'' \<Longrightarrow> count_list ips ip \<le> unat n" and "algo \<noteq> ''cms'' \<Longrightarrow> unat n \<le> count_list ips ip"
    by (simp_all add: c)
qed

lemma trace_writer_watches:
  assumes "\<And>ip. estimate_u32 ops est ip = Inr (f ip)"
  shows "\<exists>body. trace_writer srt ops algo est = Inr (body @ watch_text f)"
proof -
  note w = write_watchlist_text [of ops est f, OF assms]
  have "\<exists>body. write_cms_snapshot ops est = Inr (body @ watch_text f)"
    unfolding write_cms_snapshot_def w bind_res.simps by (rule exI) (rule refl)
  moreover have "\<exists>body. write_mg_snapshot srt ops est = Inr (body @ watch_text f)"
    unfolding write_mg_snapshot_def w bind_res.simps by (rule exI) (rule refl)
  moreover have "\<exists>body. write_hashmap_snapshot ops est = Inr (body @ watch_text f)"
    unfolding write_hashmap_snapshot_def w by (rule exI [of _ "[]"]) simp
  moreover have "trace_writer srt ops algo \<in> {write_cms_snapshot ops, write_mg_snapshot srt ops, write_hashmap_snapshot ops}"
    by (simp add: trace_writer_def)
  ultimately show ?thesis by (elim insertE emptyE) (simp_all only:)
qed

text \<open>The text of a snapshot that says of the event \<open>n\<close> what is true of it.\<close>

definition shows_window :: "string \<Rightarrow> u64 \<Rightarrow> scan_event list \<Rightarrow> nat \<Rightarrow> string \<Rightarrow> bool" where
  "shows_window algo w es n t \<longleftrightarrow>
     (\<exists>mem alerted body f.
        t = snapshot_head (of_nat n) (of_nat (snd (windows_end w (take n es)))) (se_timestamp_ns (es ! (n - 1)))
          (if algo = ''cms'' then ''count_min_sketch'' else if algo = ''mg'' then ''heavy_hitters'' else ''hash_map_exact'')
          mem alerted @ body @ watch_text f @ [CHR 0x0A] \<and>
        (\<forall>ip. let m = count_list (window_stream w (take n es)) ip
              in (algo \<noteq> ''mg'' \<longrightarrow> m \<le> unat (f ip)) \<and> (algo \<noteq> ''cms'' \<longrightarrow> unat (f ip) \<le> m)))"

lemma snapshot_text_ok:
  assumes "snap_ok (of_algo algo) (any_ops szh szm cap) w es n s" and "length es < 2 ^ 64"
  shows "\<exists>t. snapshot_text (trace_writer srt (any_ops szh szm cap) algo) s = Inr t \<and> shows_window algo w es n t"
proof -
  let ?ops = "any_ops szh szm cap" and ?ips = "window_stream w (take n es)"
  obtain mem alerted e where s: "s = (of_nat n, of_nat (snd (windows_end w (take n es))), se_timestamp_ns (es ! (n - 1)),
      op_name ?ops e, mem, alerted, e)" and e: "of_algo algo e (map bytes_of_u32 ?ips)"
    using assms(1) by (cases s) (auto simp: snap_ok_def)
  have "\<exists>f. estimate_u32 ?ops e ip = Inr f" for ip using of_algo.estimate_ok [OF e] by (simp add: estimate_u32_def)
  then obtain f where f: "estimate_u32 ?ops e ip = Inr (f ip)" for ip by metis
  have "length ?ips < 2 ^ 64" using length_window_stream [of w "take n es"] assms(2) by simp
  note b = of_algo_bounds [OF e this f]
  have nm: "op_name ?ops e =
      (if algo = ''cms'' then ''count_min_sketch'' else if algo = ''mg'' then ''heavy_hitters'' else ''hash_map_exact'')"
    using e by (cases e) (simp_all add: any_ops_def cms_ops_def cms_name_def hm_ops_def hm_name_def mg_ops_def mg_name_def)
  obtain body where body: "trace_writer srt ?ops algo e = Inr (body @ watch_text f)"
    using trace_writer_watches [OF f] by metis
  show ?thesis
  proof (rule exI, rule conjI)
    show "snapshot_text (trace_writer srt ?ops algo) s = Inr (snapshot_head (of_nat n) (of_nat (snd (windows_end w (take n es))))
        (se_timestamp_ns (es ! (n - 1))) (op_name ?ops e) mem alerted @ body @ watch_text f @ [CHR 0x0A])"
      by (simp add: s body)
    show "shows_window algo w es n (snapshot_head (of_nat n) (of_nat (snd (windows_end w (take n es))))
        (se_timestamp_ns (es ! (n - 1))) (op_name ?ops e) mem alerted @ body @ watch_text f @ [CHR 0x0A])"
      unfolding shows_window_def nm Let_def
      by (rule exI [of _ mem], rule exI [of _ alerted], rule exI [of _ body], rule exI [of _ f]) (use b in blast)
  qed
qed

lemma trace_text_parts:
  assumes "list_all2 (\<lambda>n s. \<exists>t. snapshot_text (trace_writer srt ops algo) s = Inr t \<and> Q n t) ns (trace_out d)"
  shows "\<exists>ts. trace_text srt ops a algo d = Inr (trace_header algo (cl_trace_at a) @ concat ts) \<and> list_all2 Q ns ts"
proof -
  have "\<exists>ts. fold_res (\<lambda>s out. bind_res (snapshot_text (trace_writer srt ops algo) s) (\<lambda>t. Inr (out @ t))) ss out =
      Inr (out @ concat ts) \<and> list_all2 Q ns ts"
    if "list_all2 (\<lambda>n s. \<exists>t. snapshot_text (trace_writer srt ops algo) s = Inr t \<and> Q n t) ns ss" for ss out
    using that
  proof (induction arbitrary: out rule: list_all2_induct)
    case (Cons n ns s ss)
    then obtain t where t: "snapshot_text (trace_writer srt ops algo) s = Inr t" "Q n t" by blast
    from Cons.IH [of "out @ t"] obtain ts where
      "fold_res (\<lambda>s out. bind_res (snapshot_text (trace_writer srt ops algo) s) (\<lambda>t. Inr (out @ t))) ss (out @ t) =
        Inr (out @ t @ concat ts)" "list_all2 Q ns ts" by auto
    with t show ?case by (intro exI [of _ "t # ts"]) simp
  qed simp
  from this [OF assms] show ?thesis by (simp add: trace_text_def)
qed

lemma make_estimator_of_algo:
  assumes "make_estimator c = Inr e" and "dc_algo c = ''cms'' \<Longrightarrow> dc_cms_width c \<noteq> 0"
  shows "of_algo (dc_algo c) e []"
  using make_estimator_inv(1) [OF assms] assms(1)
  by (cases "mg_new (dc_mg_k c)") (auto simp: make_estimator_def split: if_splits)

section \<open>The slots of Misra-Gries\<close>

definition sorts_descending :: "sorter \<Rightarrow> bool" where
  "sorts_descending srt \<longleftrightarrow>
     (\<forall>cs. mset (srt cs) = mset cs \<and> sorted_wrt (\<lambda>p q. snd q \<le> snd p) (srt cs))"

lemma slot_ip_u32: "slot_ip (bytes_of_u32 ip) = ip_to_string ip"
proof -
  have b: "unat (byte_at i ip) = unat (octet (8 * i) ip)" for i
  proof -
    have "octet (8 * i) ip = ucast (byte_at i ip)"
      by (rule bit_word_eqI) (auto simp: octet_take_bit byte_at_def bit_simps)
    then show ?thesis using unat_u8 [of "byte_at i ip"] by (simp add: unsigned_ucast_eq take_bit_nat_eq_self)
  qed
  from b [of 0] b [of 1] b [of 2] b [of 3] show ?thesis
    by (simp add: slot_ip_def bytes_of_u32_def ip_to_string_def dotted_def numeral_2_eq_2)
qed

lemma shown_rows: "concat (map (\<lambda>i. slot_row (cs ! i)) [0..<min (length cs) n]) = concat (map slot_row (take n cs))"
proof -
  have "map (\<lambda>i. cs ! i) [0..<min (length cs) n] = take n cs"
    by (rule nth_equalityI) simp_all
  then have "map slot_row (map (\<lambda>i. cs ! i) [0..<min (length cs) n]) = map slot_row (take n cs)" by simp
  then show ?thesis by (simp add: comp_def)
qed

text \<open>A slot's key is an address that occurred, no less often than it counts.\<close>

lemma mg_slots:
  assumes "mg_inv m (map bytes_of_u32 ips)" and "length ips < 2 ^ 64" and "(k, v) \<in> set (mg_counters m)"
  shows "\<exists>ip. k = bytes_of_u32 ip \<and> v \<noteq> 0 \<and> v = mg_estimate m k \<and> unat v \<le> count_list ips ip"
proof -
  have l: "length (map bytes_of_u32 ips) < 2 ^ 64" using assms(2) by simp
  then obtain dd where d: "distinct (map fst (mg_counters m))" "mg_tracks m (map bytes_of_u32 ips) dd"
    using assms(1) by (auto simp: mg_inv_def mg_shape_def)
  have e: "mg_estimate m k = v" using assms(3) d(1) by (simp add: mg_estimate_def)
  have v: "v \<noteq> 0" using d(2) assms(3) by (auto simp: mg_tracks_def mg_positive_def)
  have le: "unat v \<le> count_list (map bytes_of_u32 ips) k" using d(2) e by (auto simp: mg_tracks_def)
  have "0 < unat v" using v by (simp add: unat_gt_0)
  then have "count_list (map bytes_of_u32 ips) k \<noteq> 0" using le by linarith
  then obtain ip where ip: "k = bytes_of_u32 ip" by (auto simp: count_list_0_iff)
  have "count_list (map bytes_of_u32 ips) k = count_list ips ip"
    unfolding ip by (rule count_list_map_inj [OF inj_bytes_of_u32])
  with ip v e le show ?thesis by auto
qed

text \<open>The first \<open>n\<close> entries of a list in descending order: none of the others is larger.\<close>

lemma first_largest:
  assumes "sorts_descending srt" and "q \<in> set cs" and "q \<notin> set (take n (srt cs))"
  shows "n \<le> length cs \<and> (\<forall>p \<in> set (take n (srt cs)). snd q \<le> snd p)"
proof -
  let ?s = "srt cs"
  have ms: "mset ?s = mset cs" and so: "sorted_wrt (\<lambda>p q. snd q \<le> snd p) (take n ?s @ drop n ?s)"
    using assms(1) by (simp_all add: sorts_descending_def)
  have "q \<in> set (take n ?s @ drop n ?s)" using assms(2) mset_eq_setD [OF ms] by simp
  then have d: "q \<in> set (drop n ?s)" using assms(3) by (simp only: set_append Un_iff simp_thms)
  then have "n < length ?s" by (cases "n < length ?s") simp_all
  then show ?thesis using so [unfolded sorted_wrt_append] d mset_eq_length [OF ms] by auto
qed

text \<open>The slots as addresses.\<close>

definition decoded :: "(bytes \<times> u64) list \<Rightarrow> (u32 \<times> u64) list" where
  "decoded cs = map (\<lambda>(k, v). (inv bytes_of_u32 k, v)) cs"

lemma decoded_slots:
  assumes "fst ` set cs \<subseteq> range bytes_of_u32"
  shows "(ip, v) \<in> set (decoded cs) \<longleftrightarrow> (bytes_of_u32 ip, v) \<in> set cs"
    and "concat (map slot_row cs) =
      concat (map (\<lambda>(ip, v). ''    '' @ pad_right 15 (ip_to_string ip) @ ''  count='' @ num v @ [CHR 0x0A]) (decoded cs))"
    and "distinct (map fst cs) \<Longrightarrow> distinct (map fst (decoded cs))"
proof -
  have k: "bytes_of_u32 (inv bytes_of_u32 k) = k" if "(k, v) \<in> set cs" for k v
    using assms that by (intro f_inv_into_f) force
  show "(ip, v) \<in> set (decoded cs) \<longleftrightarrow> (bytes_of_u32 ip, v) \<in> set cs"
  proof
    assume "(ip, v) \<in> set (decoded cs)"
    then obtain k' where "(k', v) \<in> set cs" "ip = inv bytes_of_u32 k'" by (auto simp: decoded_def)
    with k show "(bytes_of_u32 ip, v) \<in> set cs" by force
  qed (force simp: decoded_def inv_f_f [OF inj_bytes_of_u32])
  have "slot_row p = (case p of (k', v) \<Rightarrow> ''    '' @ pad_right 15 (ip_to_string (inv bytes_of_u32 k')) @
        ''  count='' @ num v @ [CHR 0x0A])" if "p \<in> set cs" for p
    using k that slot_ip_u32 [of "inv bytes_of_u32 (fst p)"] by (cases p) (force simp: slot_row_def)
  then show "concat (map slot_row cs) =
      concat (map (\<lambda>(ip, v). ''    '' @ pad_right 15 (ip_to_string ip) @ ''  count='' @ num v @ [CHR 0x0A]) (decoded cs))"
    by (simp add: decoded_def comp_def case_prod_unfold cong: map_cong)
  have "map bytes_of_u32 (map fst (decoded cs)) = map fst cs" using k by (force simp: decoded_def)
  then show "distinct (map fst (decoded cs))" if "distinct (map fst cs)" using that by (metis distinct_map)
qed

section \<open>Properties\<close>

text \<open>C29: What a trace file shows is true of the stream: with tracing on, any of the three algorithms and any input whose
  lines carry their time, the file is the header followed by one snapshot for each of the events asked
  for, in order; each names the event, its window and its time, and the watch list gives for each
  address an estimate that is not below (Misra-Gries excepted) and not above (the sketch excepted) the
  number of its events in the window so far.\<close>

theorem trace_file_shows_windows:
  assumes "make_estimator (make_cfg a algo) = Inr e" and "algo = ''cms'' \<longrightarrow> cl_cms_width a \<noteq> 0"
    and "cl_trace_dir a \<noteq> []" and "tw_writable w (trace_path a algo)"
    and "list_all timed lines" and "length lines < 2 ^ 64"
  shows "let es = tool_events lines; W = cl_window_s a * 1000000000 in
    \<exists>d ts. run_algo (any_ops szh szm cap) w a lines algo = Inr d \<and>
      trace_text srt (any_ops szh szm cap) a algo d = Inr (trace_header algo (cl_trace_at a) @ concat ts) \<and>
      list_all2 (shows_window algo W es)
        (filter (\<lambda>n. of_nat n \<in> set (cl_trace_at a)) [1..<Suc (length es)]) ts"
proof -
  let ?ops = "any_ops szh szm cap" and ?c = "make_cfg a algo" and ?es = "tool_events lines"
  let ?d0 = "register_trace w a algo (fresh_detector ?ops ?c e)"
  have c: "dc_algo ?c = algo" "dc_cms_width ?c = cl_cms_width a" "dc_window_ns ?c = cl_window_s a * 1000000000"
    by (simp_all add: make_cfg_def)
  have d0: "tracing ?d0" "trace_at ?d0 = set (cl_trace_at a)" "trace_out ?d0 = []"
    "\<And>Inv es. det_inv Inv ?c es ?d0 \<longleftrightarrow> det_inv Inv ?c es (fresh_detector ?ops ?c e)"
    using assms(3,4) by (simp_all add: register_trace_def fresh_detector_def det_inv_def)
  have "of_algo algo e []" using make_estimator_of_algo [OF assms(1), unfolded c] assms(2) by blast
  then have "det_inv (of_algo algo) ?c [] ?d0" unfolding d0(4) by (rule det_inv_fresh)
  moreover have len: "length ?es < 2 ^ 64" using length_tool_events [of lines] assms(6) by simp
  ultimately obtain d where d: "process_all ?ops ?es ?d0 = Inr d"
    "traced (of_algo algo) ?ops (cl_window_s a * 1000000000) ?es d" "tracing d" "trace_at d = set (cl_trace_at a)"
    using of_algo.traced_run [of algo ?c ?d0 ?es szh szm cap] d0 c by auto
  have run: "run_algo ?ops w a lines algo = Inr d"
    by (simp add: run_algo_def new_detector_def assms(1) scan_lines_process [OF assms(5)] d(1))
  have "list_all2 (snap_ok (of_algo algo) ?ops (cl_window_s a * 1000000000) ?es)
      (filter (\<lambda>n. of_nat n \<in> set (cl_trace_at a)) [1..<Suc (length ?es)]) (trace_out d)"
    using d(2-4) by (simp add: traced_def trace_points_def)
  then have "list_all2 (\<lambda>n s. \<exists>t. snapshot_text (trace_writer srt ?ops algo) s = Inr t \<and>
        shows_window algo (cl_window_s a * 1000000000) ?es n t)
      (filter (\<lambda>n. of_nat n \<in> set (cl_trace_at a)) [1..<Suc (length ?es)]) (trace_out d)"
    by (rule list_all2_mono) (rule snapshot_text_ok [OF _ len])
  from trace_text_parts [OF this, of a] run show ?thesis unfolding Let_def by blast
qed

text \<open>C30: A Misra-Gries snapshot lists the largest counters: on any stream of addresses it shows the eight largest, or all
  when there are fewer, in descending order; each row is the address the counter stands for, with a
  count that is not zero, not above the address's true count, and below it by at most \<open>m/k\<close>; no address
  without a row has a larger counter, and with fewer than eight rows none has a counter at all.\<close>

theorem mg_snapshot_lists_top_slots:
  assumes "mg_new k = Inr h0" and "length ips < 2 ^ 64" and "sorts_descending srt"
    and "m = fold (\<lambda>x h. mg_record h x) (map bytes_of_u32 ips) h0"
  shows "\<exists>ps f. write_mg_snapshot srt (any_ops szh szm cap) (AnyHeavy m) =
      Inr (''  mg_k          : '' @ num32 k @ [CHR 0x0A] @
           ''  active_slots  : '' @ to_string (length (mg_counters m)) @ [CHR 0x0A] @
           ''  stream_length : '' @ to_string (length ips) @ [CHR 0x0A] @
           ''  top slots (decoded as IPv4 little-endian uint32):'' @ [CHR 0x0A] @
           concat (map (\<lambda>(ip, v). ''    '' @ pad_right 15 (ip_to_string ip) @ ''  count='' @ num v @ [CHR 0x0A]) ps) @
           watch_text f) \<and>
    distinct (map fst ps) \<and> sorted_wrt (\<lambda>p q. snd q \<le> snd p) ps \<and> length ps = min (length (mg_counters m)) 8 \<and>
    (\<forall>(ip, v) \<in> set ps. v = f ip \<and> v \<noteq> 0 \<and> unat v \<le> count_list ips ip \<and>
       unat k * (count_list ips ip - unat v) \<le> length ips) \<and>
    (\<forall>ip. ip \<notin> fst ` set ps \<longrightarrow> (length ps < 8 \<longrightarrow> f ip = 0) \<and> (\<forall>(_, v) \<in> set ps. f ip \<le> v))"
proof -
  let ?xs = "map bytes_of_u32 ips" and ?cs = "mg_counters m" let ?s = "take 8 (srt ?cs)"
  define f where "f = (\<lambda>ip. mg_estimate m (bytes_of_u32 ip))"
  have l: "length ?xs < 2 ^ 64" using assms(2) by simp
  have inv: "mg_inv m ?xs" using mg_stream_inv [OF mg_new_inv [OF assms(1)]] assms(4) by simp
  have mk: "mg_k m = k" using assms(1,4) by (auto simp: mg_stream_k mg_new_def split: if_splits)
  note b = mg_stream_bounds [OF assms(1) l assms(4)] and slot = mg_slots [OF inv assms(2)]
  have ms: "mset (srt ?cs) = mset ?cs" and so: "sorted_wrt (\<lambda>p q. snd q \<le> snd p) (srt ?cs)"
    using assms(3) by (simp_all add: sorts_descending_def)
  have sub: "set ?s \<subseteq> set ?cs" using set_take_subset [of 8 "srt ?cs"] mset_eq_setD [OF ms] by blast
  have "fst ` set ?s \<subseteq> range bytes_of_u32" using slot sub by fastforce
  note dec = decoded_slots [OF this]
  have out: "write_mg_snapshot srt (any_ops szh szm cap) (AnyHeavy m) =
      Inr (''  mg_k          : '' @ num32 k @ [CHR 0x0A] @
           ''  active_slots  : '' @ to_string (length ?cs) @ [CHR 0x0A] @
           ''  stream_length : '' @ to_string (length ips) @ [CHR 0x0A] @
           ''  top slots (decoded as IPv4 little-endian uint32):'' @ [CHR 0x0A] @
           concat (map (\<lambda>(ip, v). ''    '' @ pad_right 15 (ip_to_string ip) @ ''  count='' @ num v @ [CHR 0x0A])
             (decoded ?s)) @
           watch_text f)"
  proof -
    have "estimate_u32 (any_ops szh szm cap) (AnyHeavy m) ip = Inr (f ip)" for ip
      by (simp add: estimate_u32_def any_ops_def mg_ops_def f_def)
    note w = write_watchlist_text [of "any_ops szh szm cap" "AnyHeavy m" f, OF this]
    have "num (mg_n m) = to_string (length ips)" using b by (simp add: num_def)
    then show ?thesis
      by (simp only: write_mg_snapshot_def w bind_res.simps any_estimator.case Let_def mk shown_rows dec(2) append_assoc)
  qed
  have "distinct (map fst (srt ?cs))"
    using inv mset_eq_imp_distinct_iff [of "map fst (srt ?cs)" "map fst ?cs"] ms by (simp add: mg_inv_def mg_shape_def)
  then have dist: "distinct (map fst (decoded ?s))" by (intro dec(3)) (simp add: distinct_take flip: take_map)
  have "sorted_wrt (\<lambda>p q. snd q \<le> snd p) ?s" using so by (rule sorted_wrt_take)
  then have sorted: "sorted_wrt (\<lambda>p q. snd q \<le> snd p) (decoded ?s)"
    by (simp add: decoded_def sorted_wrt_map case_prod_unfold)
  have each: "v = f ip \<and> v \<noteq> 0 \<and> unat v \<le> count_list ips ip \<and> unat k * (count_list ips ip - unat v) \<le> length ips"
    if "(ip, v) \<in> set (decoded ?s)" for ip v
  proof -
    have "(bytes_of_u32 ip, v) \<in> set ?cs" using that dec(1) sub by blast
    from slot [OF this] b [of "bytes_of_u32 ip"] show ?thesis
      by (auto simp: f_def count_list_map_inj [OF inj_bytes_of_u32])
  qed
  have len: "length (decoded ?s) = min (length ?cs) 8" using mset_eq_length [OF ms] by (simp add: decoded_def min.commute)
  have rest: "(length (decoded ?s) < 8 \<longrightarrow> f ip = 0) \<and> (\<forall>(_, v) \<in> set (decoded ?s). f ip \<le> v)"
    if ip: "ip \<notin> fst ` set (decoded ?s)" for ip
  proof (cases "f ip = 0")
    case False
    then have "(bytes_of_u32 ip, f ip) \<in> set ?cs"
      by (auto simp: f_def mg_estimate_def split: option.splits dest: map_of_SomeD)
    moreover have "(bytes_of_u32 ip, f ip) \<notin> set ?s"
    proof
      assume "(bytes_of_u32 ip, f ip) \<in> set ?s"
      then have "(ip, f ip) \<in> set (decoded ?s)" by (simp only: dec(1))
      then have "fst (ip, f ip) \<in> fst ` set (decoded ?s)" by (rule imageI)
      with ip show False by simp
    qed
    ultimately have large: "8 \<le> length ?cs" "\<forall>p \<in> set ?s. f ip \<le> snd p"
      using first_largest [OF assms(3)] by (metis snd_conv)+
    have "f ip \<le> v" if "(ip', v) \<in> set (decoded ?s)" for ip' v
      using bspec [OF large(2), of "(bytes_of_u32 ip', v)"] that dec(1) by simp
    then show ?thesis using large(1) len by auto
  qed auto
  show ?thesis
  proof (intro exI conjI)
    show "\<forall>(ip, v) \<in> set (decoded ?s). v = f ip \<and> v \<noteq> 0 \<and> unat v \<le> count_list ips ip \<and>
       unat k * (count_list ips ip - unat v) \<le> length ips" using each by blast
    show "\<forall>ip. ip \<notin> fst ` set (decoded ?s) \<longrightarrow>
       (length (decoded ?s) < 8 \<longrightarrow> f ip = 0) \<and> (\<forall>(_, v) \<in> set (decoded ?s). f ip \<le> v)" using rest by blast
  qed (rule out dist sorted len)+
qed

definition demo_ips :: "u32 list" where
  "demo_ips = [7, 8, 7, 9]"

theorem mg_snapshot_lists_top_slots_witness:
  "\<exists>ps f. distinct (map fst ps) \<and> (\<forall>(ip, v) \<in> set ps. v = f ip \<and> 3 * (count_list demo_ips ip - unat (v :: u64)) \<le> 4)"
proof -
  have n: "mg_new 3 = Inr \<lparr>mg_k = 3, mg_n = 0, mg_counters = []\<rparr>" by (simp add: mg_new_def)
  have l: "length demo_ips < 2 ^ 64" "length demo_ips = 4" by (simp_all add: demo_ips_def)
  have "sorted_wrt (\<lambda>p q. snd p \<le> snd q) (sort_key snd cs)" for cs :: "(bytes \<times> u64) list"
    using sorted_sort_key [of snd cs] unfolding sorted_map .
  then have "sorts_descending (\<lambda>cs. rev (sort_key snd cs))"
    by (simp add: sorts_descending_def sorted_wrt_rev)
  from mg_snapshot_lists_top_slots [OF n l(1) this refl, of 0 0 "\<lambda>_. 0"] obtain ps f where
    "distinct (map fst ps)" "\<forall>(ip, v :: u64) \<in> set ps. v = f ip \<and> v \<noteq> 0 \<and> unat v \<le> count_list demo_ips ip \<and>
       unat (3 :: u32) * (count_list demo_ips ip - unat v) \<le> length demo_ips"
    by blast
  moreover from this(2) have "\<forall>(ip, v) \<in> set ps. v = f ip \<and> 3 * (count_list demo_ips ip - unat v) \<le> 4"
    by (auto simp: l(2))
  ultimately show ?thesis by (intro exI [of _ ps] exI [of _ f] conjI)
qed

theorem trace_file_shows_windows_witness:
  "let a = default_args\<lparr>cl_algo := ''hashmap'', cl_trace_dir := ''t'', cl_trace_at := [2]\<rparr>;
       es = tool_events (map event_json demo_scan_events)
   in \<exists>d t. run_algo (any_ops 0 0 (\<lambda>_. 0)) demo_tool a (map event_json demo_scan_events) ''hashmap'' = Inr d \<and>
        trace_text id (any_ops 0 0 (\<lambda>_. 0)) a ''hashmap'' d = Inr (trace_header ''hashmap'' [2] @ t) \<and>
        shows_window ''hashmap'' 60000000000 es 2 t"
proof -
  let ?a = "default_args\<lparr>cl_algo := ''hashmap'', cl_trace_dir := ''t'', cl_trace_at := [2]\<rparr>"
  let ?ls = "map event_json demo_scan_events"
  have e: "make_estimator (make_cfg ?a ''hashmap'') = Inr (AnyHashMap hm_new)"
    by (simp add: make_estimator_def make_cfg_def)
  have w: "''hashmap'' = ''cms'' \<longrightarrow> cl_cms_width ?a \<noteq> 0" "cl_trace_dir ?a \<noteq> []"
    "tw_writable demo_tool (trace_path ?a ''hashmap'')"
    by (simp_all add: demo_tool_def)
  have t: "list_all timed ?ls" by (auto simp: list_all_iff timed_def event_json_parsed)
  have l: "length ?ls < 2 ^ 64" by (simp add: demo_scan_events_def)
  have "length (tool_events ?ls) = 3"
    by (simp add: tool_events_def line_events_def event_json_parsed demo_scan_events_def)
  then have p: "filter (\<lambda>n. of_nat n \<in> set (cl_trace_at ?a)) [1..<Suc (length (tool_events ?ls))] = [2]"
    by (simp add: upt_rec)
  have W: "cl_window_s ?a * 1000000000 = 60000000000" "cl_trace_at ?a = [2]" by (simp_all add: default_args_def)
  from trace_file_shows_windows [OF e w t l, of 0 0 "\<lambda>_. 0" id] show ?thesis
    unfolding Let_def p unfolding W by (auto simp: list_all2_Cons1)
qed

end
