(* ===== verification/ScanLog.thy ===== *)
theory ScanLog
  imports Snapshot
begin

text \<open>
  What the port-scan tool (\<open>tools/portscan-pipeline/main.cpp\<close>) writes to standard error: help and complaints about
  the command line, the result of each algorithm with its alerts, and the files it cannot open. Messages
  are in Vietnamese, in UTF-8. \<open>ScanTool\<close> has the same program without them.
\<close>

section \<open>The command line\<close>

definition mac_dinh :: string where
  "mac_dinh = ''m'' @ [CHR 0xE1, CHR 0xBA, CHR 0xB7] @ ''c '' @ [CHR 0xC4, CHR 0x91, CHR 0xE1, CHR 0xBB, CHR 0x8B] @ ''nh''"

definition tool_usage :: "string \<Rightarrow> string list" where
  "tool_usage prog =
     [''Usage: '' @ prog @ '' [options]'',
      '''',
      ''Options:'',
      ''  --algo {cms|mg|hashmap|all}  Thu'' @ [CHR 0xE1, CHR 0xBA, CHR 0xAD] @ ''t to'' @ [CHR 0xC3, CHR 0xA1] @ ''n d'' @ [CHR 0xC3, CHR 0xB9] @ ''ng ('' @ mac_dinh @ '': all)'',
      ''  --input PATH                 File JSON Lines, '' @ mac_dinh @ '' '' @ [CHR 0xC4, CHR 0x91, CHR 0xE1, CHR 0xBB, CHR 0x8D] @ ''c stdin'',
      ''  --trace-dir DIR              Ghi trace_<algo>.txt v'' @ [CHR 0xC3, CHR 0xA0] @ ''o DIR'',
      ''  --alerts PATH                Ghi alerts.json v'' @ [CHR 0xC3, CHR 0xA0] @ ''o PATH'',
      ''  --comparison PATH            Ghi comparison.csv (c'' @ [CHR 0xE1, CHR 0xBA, CHR 0xA7] @ ''n --algo all)'',
      ''  --cms-width N                CMS width  ('' @ mac_dinh @ '' 2048)'',
      ''  --cms-depth N                CMS depth  ('' @ mac_dinh @ '' 5)'',
      ''  --mg-k N                     MG slots   ('' @ mac_dinh @ '' 64)'',
      ''  --threshold N                Ng'' @ [CHR 0xC6, CHR 0xB0, CHR 0xE1, CHR 0xBB, CHR 0xA1] @ ''ng alert ('' @ mac_dinh @ '' 40)'',
      ''  --window-seconds N           C'' @ [CHR 0xE1, CHR 0xBB, CHR 0xAD] @ ''a s'' @ [CHR 0xE1, CHR 0xBB, CHR 0x95] @ '' tumbling ('' @ mac_dinh @ '' 60)'',
      ''  --trace-at LIST              CSV c'' @ [CHR 0xC3, CHR 0xA1] @ ''c event_index sinh snapshot'',
      ''                               ('' @ mac_dinh @ '' 50,100,110,120,130,140)'']"

definition value_flags :: "string list" where
  "value_flags =
     [''--algo'', ''--input'', ''--trace-dir'', ''--alerts'', ''--comparison'', ''--cms-width'', ''--cms-depth'', ''--mg-k'',
      ''--threshold'', ''--window-seconds'', ''--trace-at'']"

text \<open>A flag that takes no value: help, or one that is not known.\<close>

definition other_flag :: "string \<Rightarrow> string \<Rightarrow> string list" where
  "other_flag prog flag =
     (if flag = ''-h'' \<or> flag = ''--help'' then tool_usage prog
      else (''Tham s'' @ [CHR 0xE1, CHR 0xBB, CHR 0x91] @ '' kh'' @ [CHR 0xC3, CHR 0xB4] @ ''ng h'' @
        [CHR 0xE1, CHR 0xBB, CHR 0x97] @ '' tr'' @ [CHR 0xE1, CHR 0xBB, CHR 0xA3] @ '': '' @ flag) # tool_usage prog)"

fun args_messages :: "string \<Rightarrow> string list \<Rightarrow> cli_args \<Rightarrow> string list" where
  "args_messages prog [] a = []"
| "args_messages prog [flag] a =
     (if flag \<in> set value_flags
      then [''Thi'' @ [CHR 0xE1, CHR 0xBA, CHR 0xBF] @ ''u gi'' @ [CHR 0xC3, CHR 0xA1] @ '' tr'' @
              [CHR 0xE1, CHR 0xBB, CHR 0x8B] @ '' cho '' @ flag]
      else other_flag prog flag)"
| "args_messages prog (flag # v # args) a =
     (if flag \<in> set value_flags
      then case set_arg flag v a of Inl err \<Rightarrow> [] | Inr a' \<Rightarrow> args_messages prog args a'
      else other_flag prog flag)"

section \<open>The runs\<close>

definition cannot_open :: string where
  "cannot_open = ''Kh'' @ [CHR 0xC3, CHR 0xB4] @ ''ng m'' @ [CHR 0xE1, CHR 0xBB, CHR 0x9F] @ '' '' @
     [CHR 0xC4, CHR 0x91, CHR 0xC6, CHR 0xB0, CHR 0xE1, CHR 0xBB, CHR 0xA3] @ ''c ''"

definition cannot_write :: string where
  "cannot_write = ''Kh'' @ [CHR 0xC3, CHR 0xB4] @ ''ng ghi '' @
     [CHR 0xC4, CHR 0x91, CHR 0xC6, CHR 0xB0, CHR 0xE1, CHR 0xBB, CHR 0xA3] @ ''c ''"

definition lines_message :: "nat \<Rightarrow> string" where
  "lines_message n =
     ''[portscan-pipeline] '' @ [CHR 0xC4, CHR 0x90, CHR 0xC3, CHR 0xA3] @ '' '' @
     [CHR 0xC4, CHR 0x91, CHR 0xE1, CHR 0xBB, CHR 0x8D] @ ''c '' @ to_string n @ '' d'' @ [CHR 0xC3, CHR 0xB2] @ ''ng '' @
     [CHR 0xC4, CHR 0x91, CHR 0xE1, CHR 0xBA, CHR 0xA7] @ ''u v'' @ [CHR 0xC3, CHR 0xA0] @ ''o''"

definition trace_message :: "tool_world \<Rightarrow> cli_args \<Rightarrow> string \<Rightarrow> string list" where
  "trace_message w a algo =
     (if cl_trace_dir a = [] then []
      else if \<not> tw_writable w (trace_path a algo) then [cannot_open @ ''file trace cho '' @ algo] else [])"

text \<open>The copy of \<open>ip_to_string\<close> in \<open>portscan-pipeline/parser.cpp\<close>\<close>

definition ipv4_to_string :: "u32 \<Rightarrow> string" where
  "ipv4_to_string ip =
     to_string (unat (drop_bit 24 ip AND 0xFF)) @ ''.'' @ to_string (unat (drop_bit 16 ip AND 0xFF)) @ ''.'' @
     to_string (unat (drop_bit 8 ip AND 0xFF)) @ ''.'' @ to_string (unat (ip AND 0xFF))"

lemma ipv4_to_string: "ipv4_to_string ip = ip_to_string ip"
  by (simp add: ipv4_to_string_def ip_to_string_def dotted_def octet_def)

definition alert_message :: "string \<Rightarrow> scan_alert \<Rightarrow> string" where
  "alert_message algo al =
     ''  [ALERT '' @ algo @ ''] '' @ ipv4_to_string (sa_src_ip al) @ '' freq='' @ num (sa_freq al) @
     '' event#'' @ num (sa_event_index al)"

definition result_message :: "string \<Rightarrow> string \<Rightarrow> 'e detector \<Rightarrow> string" where
  "result_message algo eps d =
     ''['' @ algo @ ''] processed='' @ num (total_events d) @ '' alerts='' @ to_string (length (alerts d)) @
     '' peak_memory='' @ num (peak_memory d) @ '' bytes throughput='' @ eps @ '' eps''"

text \<open>\<open>eps\<close>: the text of the throughput of the run at an index. An exception in a run ends the program.\<close>

fun runs_messages ::
  "any_estimator estimator_ops \<Rightarrow> tool_world \<Rightarrow> cli_args \<Rightarrow> string list \<Rightarrow> (nat \<Rightarrow> string) \<Rightarrow> nat \<Rightarrow> string list \<Rightarrow> string list" where
  "runs_messages ops w a lines eps i [] = []"
| "runs_messages ops w a lines eps i (algo # algos) =
     (case new_detector ops (make_cfg a algo) of Inl err \<Rightarrow> [] | Inr d0 \<Rightarrow> trace_message w a algo) @
     (case run_algo ops w a lines algo of
        Inl err \<Rightarrow> []
      | Inr d \<Rightarrow>
          result_message algo (eps i) d # map (alert_message algo) (alerts d) @
          runs_messages ops w a lines eps (i + 1) algos)"

definition file_message :: "tool_world \<Rightarrow> string \<Rightarrow> string list" where
  "file_message w path = (if path \<noteq> [] \<and> \<not> tw_writable w path then [cannot_write @ path] else [])"

definition chosen_algos :: "cli_args \<Rightarrow> string list" where
  "chosen_algos a = (if cl_algo a = ''all'' then [''cms'', ''mg'', ''hashmap''] else [cl_algo a])"

definition tool_messages ::
  "any_estimator estimator_ops \<Rightarrow> tool_world \<Rightarrow> (nat \<Rightarrow> string) \<Rightarrow> string \<Rightarrow> string list \<Rightarrow> string list" where
  "tool_messages ops w eps prog args =
     args_messages prog args default_args @
     (case parse_args args default_args of
        Inl err \<Rightarrow> []
      | Inr None \<Rightarrow> []
      | Inr (Some a) \<Rightarrow>
          (case tool_lines w a of
             None \<Rightarrow> [cannot_open @ cl_input a]
           | Some lines \<Rightarrow>
               lines_message (length lines) # runs_messages ops w a lines eps 0 (chosen_algos a) @
               (case run_algos ops w a lines of
                  Inl err \<Rightarrow> []
                | Inr ds \<Rightarrow> file_message w (cl_alerts_path a) @ file_message w (cl_comparison_path a))))"

section \<open>The alerts on the console\<close>

definition is_alert_message :: "string \<Rightarrow> bool" where
  "is_alert_message m \<longleftrightarrow> take 9 m = ''  [ALERT ''"

lemma alert_message_shape [simp]: "is_alert_message (alert_message algo al)"
  by (simp add: is_alert_message_def alert_message_def)

lemma other_messages [simp]:
  "\<not> is_alert_message (result_message algo eps d)" "\<not> is_alert_message (lines_message n)"
  "filter is_alert_message (trace_message w a algo) = []" "filter is_alert_message (file_message w path) = []"
  by (simp_all add: is_alert_message_def result_message_def lines_message_def trace_message_def file_message_def
      cannot_open_def cannot_write_def)

lemma accepted_args_quiet: "parse_args args a = Inr (Some b) \<Longrightarrow> args_messages prog args a = []"
  by (induction prog args a rule: args_messages.induct) (auto simp: value_flags_def bind_res_eq_Inr split: if_splits)

lemma other_flag_answered [simp]: "other_flag prog flag \<noteq> []"
  by (simp add: other_flag_def) (simp only: tool_usage_def list.distinct not_False_eq_True simp_thms)

text \<open>A command line that is not accepted is answered, whatever is wrong with it.\<close>

lemma refused_args_answered: "parse_args args a = Inr None \<Longrightarrow> args_messages prog args a \<noteq> []"
  by (induction prog args a rule: args_messages.induct)
    (auto simp: value_flags_def bind_res_eq_Inr split: if_splits)

lemma runs_messages_alerts:
  assumes "fold_res (\<lambda>algo ds. bind_res (run_algo ops w a lines algo) (\<lambda>d. Inr (ds @ [d]))) algos ds0 = Inr ds"
  shows "\<exists>new. ds = ds0 @ new \<and> length new = length algos \<and>
    filter is_alert_message (runs_messages ops w a lines eps i algos) =
      concat (map (\<lambda>(algo, d). map (alert_message algo) (alerts d)) (zip algos new))"
  using assms
proof (induction algos arbitrary: ds0 i)
  case (Cons algo algos)
  then obtain d where d: "run_algo ops w a lines algo = Inr d"
    "fold_res (\<lambda>algo ds. bind_res (run_algo ops w a lines algo) (\<lambda>d. Inr (ds @ [d]))) algos (ds0 @ [d]) = Inr ds"
    by (auto simp: bind_res_eq_Inr)
  then obtain d0 where "new_detector ops (make_cfg a algo) = Inr d0" by (auto simp: run_algo_def bind_res_eq_Inr)
  moreover obtain new where "ds = (ds0 @ [d]) @ new" "length new = length algos"
    "filter is_alert_message (runs_messages ops w a lines eps (i + 1) algos) =
      concat (map (\<lambda>(algo, d). map (alert_message algo) (alerts d)) (zip algos new))"
    using Cons.IH [OF d(2)] by blast
  moreover have "filter is_alert_message (map (alert_message algo) als) = map (alert_message algo) als" for als
    by (induction als) simp_all
  ultimately show ?case using d(1) by (intro exI [of _ "d # new"]) simp
qed simp

text \<open>A run to the end lists on the console each alert of each algorithm it ran, in order, and a refused command line is
  never silent.\<close>

lemma console_lists_alerts:
  assumes "tool_main ops w args = Inr (code, ds, alert_file)"
  shows "code = 2 \<longrightarrow> tool_messages ops w eps prog args \<noteq> []"
    and "code = 0 \<longrightarrow> (\<exists>a. parse_args args default_args = Inr (Some a) \<and> length ds = length (chosen_algos a) \<and>
      filter is_alert_message (tool_messages ops w eps prog args) =
        concat (map (\<lambda>(algo, d). map (alert_message algo) (alerts d)) (zip (chosen_algos a) ds)))"
proof -
  obtain r where r: "parse_args args default_args = Inr r" using assms by (cases "parse_args args default_args") (auto simp: tool_main_def)
  show "code = 2 \<longrightarrow> tool_messages ops w eps prog args \<noteq> []"
  proof (cases r)
    case None
    then show ?thesis using refused_args_answered [of args default_args prog] r by (simp add: tool_messages_def)
  next
    case (Some a)
    then show ?thesis using assms r by (auto simp: tool_main_def bind_res_eq_Inr split: option.splits)
  qed
  show "code = 0 \<longrightarrow> (\<exists>a. parse_args args default_args = Inr (Some a) \<and> length ds = length (chosen_algos a) \<and>
      filter is_alert_message (tool_messages ops w eps prog args) =
        concat (map (\<lambda>(algo, d). map (alert_message algo) (alerts d)) (zip (chosen_algos a) ds)))"
  proof
    assume "code = 0"
    then obtain a lines where a: "r = Some a" "tool_lines w a = Some lines" "run_algos ops w a lines = Inr ds"
      using assms r by (auto simp: tool_main_def bind_res_eq_Inr split: option.splits)
    from runs_messages_alerts [OF a(3) [unfolded run_algos_def, folded chosen_algos_def], of eps 0]
    have "length ds = length (chosen_algos a)"
      "filter is_alert_message (runs_messages ops w a lines eps 0 (chosen_algos a)) =
        concat (map (\<lambda>(algo, d). map (alert_message algo) (alerts d)) (zip (chosen_algos a) ds))" by auto
    then show "\<exists>a. parse_args args default_args = Inr (Some a) \<and> length ds = length (chosen_algos a) \<and>
      filter is_alert_message (tool_messages ops w eps prog args) =
        concat (map (\<lambda>(algo, d). map (alert_message algo) (alerts d)) (zip (chosen_algos a) ds))"
      using r a accepted_args_quiet [of args default_args a prog] by (intro exI [of _ a]) (simp add: tool_messages_def)
  qed
qed

end
