(* ===== verification/TraceTool.thy ===== *)
theory TraceTool
  imports Registry AlertText "HOL-Library.List_Lexorder" "HOL-Library.Char_ord"
begin

text \<open>
  The tool that prints the estimators' steps (\<open>tools/trace_algorithms.cpp\<close>): its own copy of the sketch
  (\<open>CMSDirect\<close>), its Misra-Gries loop over an ordered map, and the comparison table. The copies are related
  to the library's classes, so that what the report shows is what the pipeline computes.

  A \<open>std::map\<close> is the list of its entries in key order. The two numbers that the header of the sketch's
  trace prints as \<open>double\<close>s are parameters (\<open>eps\<close>, \<open>delta\<close>: their text).
\<close>

section \<open>Keys\<close>

definition key_bytes :: "string \<Rightarrow> bytes" where
  "key_bytes s = map (\<lambda>c. of_nat (of_char c)) s"

section \<open>The copy of the sketch\<close>

record cms_direct =
  cd_width :: u32
  cd_depth :: u32
  cd_seeds :: "u32 list"
  cd_table :: "u64 list list"

definition cd_new :: "u32 \<Rightarrow> u32 \<Rightarrow> cms_direct" where
  "cd_new width depth =
     \<lparr>cd_width = width, cd_depth = depth, cd_seeds = map (\<lambda>i. 0x9e3779b9 + of_nat i * 0x517cc1b7) [0..<unat depth],
      cd_table = replicate (unat depth) (replicate (unat width) 0)\<rparr>"

text \<open>The hash, by position in the key.\<close>

definition murmur_block :: "bytes \<Rightarrow> nat \<Rightarrow> u32 \<Rightarrow> u32" where
  "murmur_block key i h =
     (let k = load32 (key ! (i * 4)) (key ! (i * 4 + 1)) (key ! (i * 4 + 2)) (key ! (i * 4 + 3));
          k = k * 0xcc9e2d51;
          k = push_bit 15 k OR drop_bit 17 k;
          k = k * 0x1b873593;
          h = h XOR k;
          h = push_bit 13 h OR drop_bit 19 h
      in h * 5 + 0xe6546b64)"

definition murmur_tail :: "bytes \<Rightarrow> u32 \<Rightarrow> u32" where
  "murmur_tail key h =
     (let t = length key div 4 * 4; n = length key mod 4; k = 0;
          k = (if n = 3 then k XOR push_bit 16 (ucast (key ! (t + 2))) else k);
          k = (if n = 3 \<or> n = 2 then k XOR push_bit 8 (ucast (key ! (t + 1))) else k)
      in if n = 0 then h
         else
           let k = k XOR ucast (key ! t);
               k = k * 0xcc9e2d51;
               k = push_bit 15 k OR drop_bit 17 k;
               k = k * 0x1b873593
           in h XOR k)"

definition murmur3_32 :: "bytes \<Rightarrow> u32 \<Rightarrow> u32" where
  "murmur3_32 key seed =
     (let h = fold (murmur_block key) [0..<length key div 4] seed;
          h = murmur_tail key h;
          h = h XOR of_nat (length key);
          h = h XOR drop_bit 16 h;
          h = h * 0x85ebca6b;
          h = h XOR drop_bit 13 h;
          h = h * 0xc2b2ae35
      in h XOR drop_bit 16 h)"

definition columns_for :: "cms_direct \<Rightarrow> string \<Rightarrow> u32 list res" where
  "columns_for c key =
     fold_res (\<lambda>r cols.
         if cd_width c = 0 then Inl DivideByZero
         else Inr (cols[r := murmur3_32 (key_bytes key) (cd_seeds c ! r) mod cd_width c]))
       [0..<unat (cd_depth c)] (replicate (unat (cd_depth c)) 0)"

definition cd_insert :: "cms_direct \<Rightarrow> string \<Rightarrow> cms_direct res" where
  "cd_insert c key =
     bind_res (columns_for c key) (\<lambda>cols.
       Inr (c\<lparr>cd_table :=
         fold (\<lambda>r t. t[r := (t ! r)[unat (cols ! r) := t ! r ! unat (cols ! r) + 1]])
           [0..<unat (cd_depth c)] (cd_table c)\<rparr>))"

definition cd_query :: "cms_direct \<Rightarrow> string \<Rightarrow> u64 res" where
  "cd_query c key =
     bind_res (columns_for c key) (\<lambda>cols.
       Inr (fold (\<lambda>r m. min m (cd_table c ! r ! unat (cols ! r))) [0..<unat (cd_depth c)] (-1)))"

section \<open>The Misra-Gries loop\<close>

fun map_put :: "string \<Rightarrow> u64 \<Rightarrow> (string \<times> u64) list \<Rightarrow> (string \<times> u64) list" where
  "map_put x n [] = [(x, n)]"
| "map_put x n ((y, m) # T) =
     (if x = y then (x, n) # T else if x < y then (x, n) # (y, m) # T else (y, m) # map_put x n T)"

fun misra_decrement :: "(string \<times> u64) list \<Rightarrow> (string \<times> u64) list" where
  "misra_decrement [] = []"
| "misra_decrement ((x, n) # T) = (if n - 1 = 0 then misra_decrement T else (x, n - 1) # misra_decrement T)"

definition misra_step :: "u32 \<Rightarrow> string \<Rightarrow> (string \<times> u64) list \<Rightarrow> (string \<times> u64) list" where
  "misra_step k x T =
     (case map_of T x of
        Some n \<Rightarrow> map_put x (n + 1) T
      | None \<Rightarrow> if length T + 1 < unat k then map_put x 1 T else misra_decrement T)"

definition misra_run :: "u32 \<Rightarrow> string list \<Rightarrow> (string \<times> u64) list" where
  "misra_run k xs = fold (misra_step k) xs []"

definition misra_estimate :: "(string \<times> u64) list \<Rightarrow> string \<Rightarrow> u64" where
  "misra_estimate T q = (case map_of T q of None \<Rightarrow> 0 | Some n \<Rightarrow> n)"

text \<open>\<open>exact_counts\<close>\<close>

definition exact_counts :: "string list \<Rightarrow> (string \<times> u64) list" where
  "exact_counts xs = fold (\<lambda>x out. map_put x ((case map_of out x of None \<Rightarrow> 0 | Some n \<Rightarrow> n) + 1) out) xs []"

section \<open>The text\<close>

fun comma_list :: "string list \<Rightarrow> string" where
  "comma_list [] = ''''"
| "comma_list [s] = s"
| "comma_list (s # ss) = s @ '', '' @ comma_list ss"

text \<open>A row of the Misra-Gries queries and a row of the comparison.\<close>

definition misra_row :: "u32 \<Rightarrow> string list \<Rightarrow> string \<Rightarrow> string" where
  "misra_row k xs q =
     (let f = misra_estimate (exact_counts xs) q; est = misra_estimate (misra_run k xs) q;
          gap = (if f \<ge> est then f - est else 0);
          ok = (if gap \<le> of_nat (length xs) div ucast k then ''yes'' else ''no '')
      in ''    '' @ pad_right 8 (qu q) @ pad_left 6 (num f) @ pad_left 12 (num est) @ pad_left 14 (num gap) @
         pad_left 10 ok @ [CHR 0x0A])"

definition compare_row :: "string \<Rightarrow> u64 \<Rightarrow> u64 \<Rightarrow> u64 \<Rightarrow> string" where
  "compare_row q f c m =
     ''    '' @ pad_right 8 (qu q) @ pad_left 8 (num f) @ pad_left 8 (num c) @ pad_left 10 (num m) @
     pad_left 14 (if c \<ge> f then ''yes'' else ''NO '') @ pad_left 14 (if m \<le> f then ''yes'' else ''NO '') @ [CHR 0x0A]"

text \<open>The table of \<open>trace_compare\<close>: the sketch, the heavy hitters and the exact counter on one stream.\<close>

definition compare_rows :: "string list \<Rightarrow> string list \<Rightarrow> u32 \<Rightarrow> u32 \<Rightarrow> u32 \<Rightarrow> string list res" where
  "compare_rows xs qs w d k =
     bind_res (mg_new k) (\<lambda>mg.
     bind_res (fold_res (\<lambda>x (sk, mg, ex).
           bind_res (cd_insert sk x) (\<lambda>sk. Inr (sk, mg_record mg (key_bytes x), hm_record ex (key_bytes x))))
         xs (cd_new w d, mg, hm_new)) (\<lambda>(sk, mg, ex).
       fold_res (\<lambda>q rows. bind_res (cd_query sk q) (\<lambda>c.
           Inr (rows @ [compare_row q (hm_estimate ex (key_bytes q)) c (mg_estimate mg (key_bytes q))])))
         qs []))"

text \<open>The stream and the queries of the report, and its parameters: \<open>w = 4\<close>, \<open>d = 2\<close>, \<open>k = 3\<close>.\<close>

definition demo_stream :: "string list" where
  "demo_stream = [''a'', ''b'', ''a'', ''c'', ''a'', ''b'', ''d'', ''a'']"

definition demo_queries :: "string list" where
  "demo_queries = [''a'', ''b'', ''c'', ''d'', ''e'']"

section \<open>The programs' output\<close>

definition print_header :: "string \<Rightarrow> string" where
  "print_header title =
     (let bar = replicate 63 CHR ''='' @ [CHR 0x0A] in bar @ ''  '' @ title @ [CHR 0x0A] @ bar)"

definition print_stream :: "string list \<Rightarrow> string" where
  "print_stream xs =
     ''Stream S = [ '' @ comma_list xs @ '' ]'' @ [CHR 0x0A] @
     ''Length m = '' @ to_string (length xs) @ [CHR 0x0A, CHR 0x0A]"

text \<open>\<open>trace_cms\<close>: the steps, then the queries.\<close>

definition print_matrix :: "cms_direct \<Rightarrow> string" where
  "print_matrix c =
     concat (map (\<lambda>r. ''    Row '' @ to_string r @ '': ['' @
         concat (map (\<lambda>j. '' '' @ pad_left 2 (num (cd_table c ! r ! j))) [0..<unat (cd_width c)]) @ '' ]'' @ [CHR 0x0A])
       [0..<unat (cd_depth c)])"

definition cms_step_text :: "nat \<Rightarrow> string \<Rightarrow> cms_direct \<Rightarrow> (string \<times> cms_direct) res" where
  "cms_step_text step key sk =
     bind_res (columns_for sk key) (\<lambda>cols.
     bind_res (cd_insert sk key) (\<lambda>sk'.
       Inr (''Step '' @ to_string (step + 1) @ '': INSERT '' @ qu key @ [CHR 0x0A] @
            concat (map (\<lambda>r. ''    h'' @ to_string r @ ''('' @ qu key @ '') mod '' @ num32 (cd_width sk) @ '' = '' @
                num32 (cols ! r) @ ''   -> table['' @ to_string r @ '']['' @ num32 (cols ! r) @ ''] += 1'' @ [CHR 0x0A])
              [0..<unat (cd_depth sk)]) @
            ''    Matrix after step '' @ to_string (step + 1) @ '':'' @ [CHR 0x0A] @ print_matrix sk' @ [CHR 0x0A], sk')))"

definition cms_query_row :: "string list \<Rightarrow> cms_direct \<Rightarrow> string \<Rightarrow> string res" where
  "cms_query_row xs sk q =
     bind_res (columns_for sk q) (\<lambda>cols.
     bind_res (cd_query sk q) (\<lambda>est.
       Inr (''    '' @ pad_right 8 (qu q) @ pad_left 6 (num (misra_estimate (exact_counts xs) q)) @
            pad_left 12 (num est) @ ''  {'' @
            commas (map (\<lambda>r. ''('' @ to_string r @ '','' @ num32 (cols ! r) @ '')'') [0..<unat (cd_depth sk)]) @
            ''}'' @ [CHR 0x0A])))"

definition trace_cms :: "string \<Rightarrow> string \<Rightarrow> string list \<Rightarrow> string list \<Rightarrow> u32 \<Rightarrow> u32 \<Rightarrow> string res" where
  "trace_cms eps delta xs qs w d =
     bind_res (fold_res (\<lambda>(i, x) (out, sk). bind_res (cms_step_text i x sk) (\<lambda>(t, sk). Inr (out @ t, sk)))
         (enumerate 0 xs) ('''', cd_new w d)) (\<lambda>(steps, sk).
     bind_res (fold_res (\<lambda>q out. bind_res (cms_query_row xs sk q) (\<lambda>t. Inr (out @ t))) qs '''') (\<lambda>rows.
       Inr (print_header (''COUNT-MIN SKETCH  '' @ dash @ ''  step-by-step trace'') @
         ''Parameters : width w = '' @ num32 w @ '' , depth d = '' @ num32 d @ [CHR 0x0A] @
         ''Guarantee  : f_hat(x) >= f(x)   (one-sided error, overestimate)'' @ [CHR 0x0A] @
         ''Bound      : P[ f_hat(x) - f(x) > eps * m ] <= delta'' @ [CHR 0x0A] @
         ''             with eps = e/w ~ '' @ eps @ [CHR 0x0A] @
         ''             and delta = e^(-d) ~ '' @ delta @ [CHR 0x0A, CHR 0x0A] @
         print_stream xs @ steps @ ''--- QUERIES ---'' @ [CHR 0x0A] @
         ''    '' @ pad_right 8 ''key'' @ pad_left 6 ''f(x)'' @ pad_left 12 ''f_hat(x)'' @ ''  cells(min)'' @ [CHR 0x0A] @
         rows @
         [CHR 0x0A] @ ''Observation: for every key, f_hat(x) >= f(x) '' @ dash @ '' one-sided overestimate.'' @ [CHR 0x0A])))"

text \<open>\<open>trace_misra\<close>\<close>

definition print_counters :: "(string \<times> u64) list \<Rightarrow> string" where
  "print_counters T =
     ''T = { '' @ comma_list (map (\<lambda>(k, v). k @ '':'' @ num v) T) @ (if T = [] then ''(empty)'' else '''') @ '' }''"

definition misra_step_text :: "u32 \<Rightarrow> nat \<Rightarrow> string \<Rightarrow> (string \<times> u64) list \<Rightarrow> string" where
  "misra_step_text k step x T =
     ''Step '' @ to_string (step + 1) @ '': INSERT '' @ qu x @ [CHR 0x0A] @
     (if map_of T x \<noteq> None then ''    '' @ qu x @ '' in T   -> increment counter'' @ [CHR 0x0A]
      else if length T + 1 < unat k then
        ''    '' @ qu x @ '' not in T, |T| = '' @ to_string (length (misra_step k x T) - 1) @
        '' < k-1 = '' @ num32 (k - 1) @ ''   -> add with count 1'' @ [CHR 0x0A]
      else
        ''    '' @ qu x @ '' not in T and |T| = '' @ to_string (length T) @ '' = k-1 = '' @ num32 (k - 1) @
        ''   -> DECREMENT ALL'' @ [CHR 0x0A] @
        ''      before: '' @ print_counters T @ [CHR 0x0A] @
        ''      after : '' @ print_counters (misra_step k x T) @ [CHR 0x0A]) @
     ''    '' @ print_counters (misra_step k x T) @ [CHR 0x0A, CHR 0x0A]"

fun misra_steps_text :: "u32 \<Rightarrow> nat \<Rightarrow> string list \<Rightarrow> (string \<times> u64) list \<Rightarrow> string" where
  "misra_steps_text k i [] T = ''''"
| "misra_steps_text k i (x # xs) T = misra_step_text k i x T @ misra_steps_text k (i + 1) xs (misra_step k x T)"

definition trace_misra :: "string list \<Rightarrow> string list \<Rightarrow> u32 \<Rightarrow> string" where
  "trace_misra xs qs k =
     print_header (''MISRA-GRIES (Heavy Hitters)  '' @ dash @ ''  step-by-step trace'') @
     ''Parameter : k = '' @ num32 k @ '' (at most '' @ num32 (k - 1) @ '' active counters)'' @ [CHR 0x0A] @
     ''Guarantees: f_hat(x) <= f(x)     (underestimate)'' @ [CHR 0x0A] @
     ''            f(x) - f_hat(x) <= m / k'' @ [CHR 0x0A, CHR 0x0A] @
     print_stream xs @ misra_steps_text k 0 xs [] @ ''--- QUERIES ---'' @ [CHR 0x0A] @
     ''    '' @ pad_right 8 ''key'' @ pad_left 6 ''f(x)'' @ pad_left 12 ''f_hat(x)'' @ pad_left 14 ''f - f_hat'' @
     pad_left 10 (''<= m/k?'' @ [CHR 0x0A]) @
     concat (map (misra_row k xs) qs) @
     [CHR 0x0A] @ ''Observation: for every key, f_hat(x) <= f(x) '' @ dash @ '' underestimate.'' @ [CHR 0x0A] @
     ''              error gap never exceeds m/k = '' @ num (of_nat (length xs) div ucast k) @ ''.'' @ [CHR 0x0A]"

definition trace_compare :: "string list \<Rightarrow> string list \<Rightarrow> u32 \<Rightarrow> u32 \<Rightarrow> u32 \<Rightarrow> string res" where
  "trace_compare xs qs w d k =
     bind_res (compare_rows xs qs w d k) (\<lambda>rows.
       Inr (print_header (''COMPARISON  '' @ dash @ ''  Exact vs CMS vs Misra-Gries on the same stream'') @
         ''CMS(width='' @ num32 w @ '', depth='' @ num32 d @ '')   MisraGries(k='' @ num32 k @ '')'' @ [CHR 0x0A, CHR 0x0A] @
         print_stream xs @
         ''    '' @ pad_right 8 ''key'' @ pad_left 8 ''exact'' @ pad_left 8 ''CMS'' @ pad_left 10 ''MG'' @
         pad_left 14 ''CMS >= exact?'' @ pad_left 14 (''MG <= exact?'' @ [CHR 0x0A]) @
         concat rows @
         [CHR 0x0A] @ ''Conclusion: CMS overestimates, Misra-Gries underestimates '' @ dash @ [CHR 0x0A] @
         ''            the two algorithms bracket the true frequency.'' @ [CHR 0x0A]))"

text \<open>\<open>main\<close>: the exit code and standard output.\<close>

definition trace_main :: "string \<Rightarrow> string \<Rightarrow> string list \<Rightarrow> (nat \<times> string) res" where
  "trace_main eps delta args =
     (case args of
        [] \<Rightarrow> Inr (2, '''')
      | cmd # _ \<Rightarrow>
          if cmd = ''cms'' then bind_res (trace_cms eps delta demo_stream demo_queries 4 2) (\<lambda>t. Inr (0, t))
          else if cmd = ''misra'' then Inr (0, trace_misra demo_stream demo_queries 3)
          else if cmd = ''compare'' then bind_res (trace_compare demo_stream demo_queries 4 2 3) (\<lambda>t. Inr (0, t))
          else Inr (2, ''''))"

section \<open>The copies are the library's\<close>

lemma bytes_of_key: "map (\<lambda>b. char_of (unat b)) (key_bytes s) = s"
proof -
  have "char_of (unat (of_nat (of_char c) :: u8)) = c" for c :: char
  proof -
    have "(of_char c :: nat) < 256" by simp
    then have "unat (of_nat (of_char c) :: u8) = of_char c" by (simp add: unsigned_of_nat take_bit_nat_eq_self)
    then show ?thesis by simp
  qed
  then show ?thesis by (induction s) (simp_all add: key_bytes_def)
qed

lemma key_of_bytes: "key_bytes (map (\<lambda>b. char_of (unat b)) bs) = bs"
proof -
  have "(of_nat (of_char (char_of (unat b) :: char)) :: u8) = b" for b :: u8
  proof -
    have "unat b < 256" using unsigned_less [of b] by simp
    then show ?thesis by (simp add: of_char_of)
  qed
  then show ?thesis by (induction bs) (simp_all add: key_bytes_def)
qed

lemma key_bytes_inject [simp]: "key_bytes s = key_bytes t \<longleftrightarrow> s = t"
  using bytes_of_key by metis

lemma hash_blocks_murmur:
  "hash_blocks key h = (fold (murmur_block key) [0..<length key div 4] h, drop (length key div 4 * 4) key)"
proof (induction key h rule: hash_blocks.induct)
  case (1 a b c d rest h)
  have l: "length (a # b # c # d # rest) div 4 = Suc (length rest div 4)" by simp
  have n: "[0..<length (a # b # c # d # rest) div 4] = 0 # map Suc [0..<length rest div 4]"
    unfolding l by (simp only: map_Suc_upt upt_conv_Cons [of 0, OF zero_less_Suc])
  have dr: "drop (length (a # b # c # d # rest) div 4 * 4) (a # b # c # d # rest) = drop (length rest div 4 * 4) rest"
  proof -
    have "drop (4 + n) (a # b # c # d # rest) = drop n rest" for n by (simp add: numeral_eq_Suc)
    then show ?thesis unfolding l by simp
  qed
  have "murmur_block (a # b # c # d # rest) (Suc i) = murmur_block rest i" for i
    by (rule ext) (simp add: murmur_block_def add.commute [of _ 3])
  then have "fold (murmur_block (a # b # c # d # rest)) (map Suc [0..<length rest div 4]) = fold (murmur_block rest) [0..<length rest div 4]"
    by (simp add: fold_map comp_def)
  moreover have "murmur_block (a # b # c # d # rest) 0 h = rotl32 13 (h XOR scramble (load32 a b c d)) * 5 + 0xe6546b64"
    by (simp add: murmur_block_def rotl32_def scramble_def Let_def)
  ultimately show ?case using 1 unfolding n dr by simp
qed simp_all

lemma hash_tail_murmur: "hash_tail (drop (length key div 4 * 4) key) h = murmur_tail key h"
proof -
  let ?t = "length key div 4 * 4" let ?r = "drop ?t key"
  have len: "length ?r = length key mod 4" by (simp add: minus_div_mult_eq_mod)
  have nth: "i < length ?r \<Longrightarrow> key ! (?t + i) = ?r ! i" for i by simp
  have "length ?r < 4" unfolding len by simp
  then consider "?r = []" | a where "?r = [a]" | a b where "?r = [a, b]" | a b c where "?r = [a, b, c]"
    by (cases ?r; cases "tl ?r"; cases "tl (tl ?r)"; cases "tl (tl (tl ?r))") auto
  then show ?thesis
  proof cases
    case 1
    with len have "length key mod 4 = 0" by simp
    with 1 show ?thesis by (simp add: murmur_tail_def)
  next
    case (2 a)
    with len nth [of 0] have "length key mod 4 = 1" "key ! ?t = a" by simp_all
    with 2 show ?thesis by (simp add: murmur_tail_def scramble_def rotl32_def Let_def)
  next
    case (3 a b)
    with len nth [of 0] nth [of 1] have "length key mod 4 = 2" "key ! ?t = a" "key ! (?t + 1) = b" by simp_all
    with 3 show ?thesis by (simp add: murmur_tail_def scramble_def rotl32_def Let_def)
  next
    case (4 a b c)
    with len nth [of 0] nth [of 1] nth [of 2]
    have "length key mod 4 = 3" "key ! ?t = a" "key ! (?t + 1) = b" "key ! (?t + 2) = c" by simp_all
    with 4 show ?thesis by (simp add: murmur_tail_def scramble_def rotl32_def Let_def xor.assoc)
  qed
qed

lemma murmur_is_hash: "murmur3_32 key seed = cms_hash key seed"
  unfolding murmur3_32_def cms_hash_def hash_blocks_murmur
  by (simp add: Let_def hash_final_def hash_tail_murmur)

definition to_cms :: "cms_direct \<Rightarrow> cms" where
  "to_cms c = \<lparr>cms_width = cd_width c, cms_depth = cd_depth c, cms_table = cd_table c, cms_seeds = cd_seeds c\<rparr>"

lemma fold_set_all:
  "length cs = n \<Longrightarrow> m \<le> n \<Longrightarrow> fold (\<lambda>r cs. cs[r := f r]) [0..<m] cs = map f [0..<m] @ drop m cs"
proof (induction m)
  case (Suc m)
  then have "drop m cs = cs ! m # drop (Suc m) cs" by (simp add: Cons_nth_drop_Suc)
  with Suc show ?case by (simp add: list_update_append)
qed simp

lemma columns_for_eq:
  "columns_for c key =
     (if cd_width c = 0 \<and> cd_depth c \<noteq> 0 then Inl DivideByZero
      else Inr (map (\<lambda>r. cms_hash (key_bytes key) (cd_seeds c ! r) mod cd_width c) [0..<unat (cd_depth c)]))"
proof (cases "cd_width c = 0")
  case True
  show ?thesis
  proof (cases "cd_depth c = 0")
    case False
    then have "[0..<unat (cd_depth c)] = 0 # [1..<unat (cd_depth c)]" by (simp add: unat_gt_0 upt_conv_Cons)
    with True False show ?thesis by (simp add: columns_for_def)
  qed (simp add: columns_for_def)
next
  case False
  then show ?thesis
    using fold_set_all [of "replicate (unat (cd_depth c)) 0" "unat (cd_depth c)" "unat (cd_depth c)"]
    by (simp add: columns_for_def murmur_is_hash fold_res_Inr)
qed

lemma cd_insert_cms: "map_sum id to_cms (cd_insert c key) = cms_record (to_cms c) (key_bytes key)"
proof -
  let ?d = "unat (cd_depth c)"
  let ?cols = "map (\<lambda>r. cms_hash (key_bytes key) (cd_seeds c ! r) mod cd_width c) [0..<?d]"
  show ?thesis
  proof (cases "cd_width c = 0 \<and> cd_depth c \<noteq> 0")
    case True
    then have "[0..<?d] = 0 # [1..<?d]" by (simp add: unat_gt_0 upt_conv_Cons)
    with True show ?thesis
      by (simp add: cd_insert_def columns_for_eq cms_record_def to_cms_def cms_col_def)
  next
    case False
    have "fold_res (\<lambda>i t. bind_res (cms_col (to_cms c) (key_bytes key) i)
            (\<lambda>col. Inr (t[i := (t ! i)[unat col := t ! i ! unat col + 1]]))) [0..<?d] (cd_table c) =
        Inr (fold (\<lambda>r t. t[r := (t ! r)[unat (?cols ! r) := t ! r ! unat (?cols ! r) + 1]]) [0..<?d] (cd_table c))"
    proof (cases "cd_depth c = 0")
      case nz: False
      with False have "cms_col (to_cms c) (key_bytes key) i = Inr (cms_hash (key_bytes key) (cd_seeds c ! i) mod cd_width c)" for i
        by (simp add: cms_col_def to_cms_def)
      then show ?thesis by (simp add: fold_res_Inr) (rule fold_cong; simp)
    qed simp
    with False show ?thesis
      by (simp add: cd_insert_def columns_for_eq cms_record_def) (simp add: to_cms_def)
  qed
qed

lemma cd_query_cms: "cd_query c key = cms_estimate (to_cms c) (key_bytes key)"
proof -
  let ?d = "unat (cd_depth c)"
  let ?cols = "map (\<lambda>r. cms_hash (key_bytes key) (cd_seeds c ! r) mod cd_width c) [0..<?d]"
  show ?thesis
  proof (cases "cd_width c = 0 \<and> cd_depth c \<noteq> 0")
    case True
    then have "[0..<?d] = 0 # [1..<?d]" by (simp add: unat_gt_0 upt_conv_Cons)
    with True show ?thesis
      by (simp add: cd_query_def columns_for_eq cms_estimate_def to_cms_def cms_col_def)
  next
    case False
    have "fold_res (\<lambda>i m. bind_res (cms_col (to_cms c) (key_bytes key) i)
            (\<lambda>col. Inr (min m (cd_table c ! i ! unat col)))) [0..<?d] n =
        Inr (fold (\<lambda>r m. min m (cd_table c ! r ! unat (?cols ! r))) [0..<?d] n)" for n
    proof (cases "cd_depth c = 0")
      case nz: False
      with False have "cms_col (to_cms c) (key_bytes key) i = Inr (cms_hash (key_bytes key) (cd_seeds c ! i) mod cd_width c)" for i
        by (simp add: cms_col_def to_cms_def)
      then show ?thesis by (simp add: fold_res_Inr) (rule fold_cong; simp)
    qed simp
    with False show ?thesis
      by (simp add: cd_query_def columns_for_eq cms_estimate_def) (simp add: to_cms_def)
  qed
qed

section \<open>The ordered map\<close>

lemma map_put_lookup [simp]: "map_of (map_put x n T) = (map_of T)(x \<mapsto> n)"
  by (induction x n T rule: map_put.induct) (auto simp: fun_eq_iff)

lemma map_put_keys: "fst ` set (map_put x n T) = insert x (fst ` set T)"
  by (induction x n T rule: map_put.induct) auto

lemma map_put_sorted: "sorted_wrt (<) (map fst T) \<Longrightarrow> sorted_wrt (<) (map fst (map_put x n T))"
proof (induction x n T rule: map_put.induct)
  case (2 x n y m T)
  have k: "set (map fst (map_put x n T)) = insert x (set (map fst T))" using map_put_keys by simp
  from 2 show ?case unfolding map_put.simps by (auto simp: k simp del: set_map intro: order.strict_trans)
qed simp

lemma misra_decrement_keys: "fst ` set (misra_decrement T) \<subseteq> fst ` set T"
  by (induction T rule: misra_decrement.induct) auto

lemma misra_decrement_sorted: "sorted_wrt (<) (map fst T) \<Longrightarrow> sorted_wrt (<) (map fst (misra_decrement T))"
proof (induction T rule: misra_decrement.induct)
  case (2 x n T)
  have "set (map fst (misra_decrement T)) \<subseteq> set (map fst T)" using misra_decrement_keys by simp
  with 2 show ?case by (auto simp del: set_map)
qed simp

lemma sorted_keys_distinct: "sorted_wrt (<) (map fst (T :: (string \<times> u64) list)) \<Longrightarrow> distinct (map fst T)"
  by (simp add: strict_sorted_iff)

lemma misra_decrement_lookup:
  "distinct (map fst T) \<Longrightarrow>
   map_of (misra_decrement T) x =
     (case map_of T x of None \<Rightarrow> None | Some v \<Rightarrow> if v - 1 = 0 then None else Some (v - 1))"
proof (induction T rule: misra_decrement.induct)
  case (2 y n T)
  have "map_of (misra_decrement T) y = None" "map_of T y = None"
    using 2(3) misra_decrement_keys [of T] by (auto simp: map_of_eq_None_iff)
  with 2 show ?case by auto
qed simp

text \<open>The two summaries hold the same counters.\<close>

definition same_counters :: "(string \<times> u64) list \<Rightarrow> (bytes \<times> u64) list \<Rightarrow> bool" where
  "same_counters T cs \<longleftrightarrow>
     sorted_wrt (<) (map fst T) \<and> distinct (map fst cs) \<and> (\<forall>s. map_of T s = map_of cs (key_bytes s))"

lemma same_counters_length:
  assumes "same_counters T cs"
  shows "length T = length cs"
proof -
  have d: "distinct (map fst T)" "distinct (map fst cs)" using assms sorted_keys_distinct by (auto simp: same_counters_def)
  have m: "map_of T s = map_of cs (key_bytes s)" for s using assms by (simp add: same_counters_def)
  have "key_bytes ` dom (map_of T) = dom (map_of cs)"
  proof
    show "dom (map_of cs) \<subseteq> key_bytes ` dom (map_of T)"
    proof
      fix b
      assume "b \<in> dom (map_of cs)"
      then have "map (\<lambda>b. char_of (unat b)) b \<in> dom (map_of T)" by (auto simp: m key_of_bytes)
      then have "key_bytes (map (\<lambda>b. char_of (unat b)) b) \<in> key_bytes ` dom (map_of T)" by (rule imageI)
      then show "b \<in> key_bytes ` dom (map_of T)" by (simp only: key_of_bytes)
    qed
  qed (auto simp: m)
  moreover have "inj_on key_bytes (dom (map_of T))" by (rule inj_onI) simp
  ultimately have "card (dom (map_of T)) = card (dom (map_of cs))" using card_image by metis
  then show ?thesis using d by (simp add: dom_map_of_conv_image_fst distinct_card flip: set_map)
qed

lemma misra_step_same:
  assumes "same_counters T (mg_counters h)" and "mg_k h = k"
  shows "same_counters (misra_step k x T) (mg_counters (mg_record h (key_bytes x)))"
proof -
  have s: "sorted_wrt (<) (map fst T)" "distinct (map fst (mg_counters h))"
    and m: "map_of T s = map_of (mg_counters h) (key_bytes s)" for s
    using assms(1) by (simp_all add: same_counters_def)
  note len = same_counters_length [OF assms(1)]
  show ?thesis
  proof (cases "map_of T x")
    case (Some n)
    then have "map_of (mg_counters h) (key_bytes x) = Some n" using m by simp
    with Some s m show ?thesis
      by (simp add: misra_step_def mg_record_def Let_def same_counters_def map_put_sorted AList.distinct_update alist_simps)
  next
    case None
    then have n: "map_of (mg_counters h) (key_bytes x) = None" using m by simp
    show ?thesis
    proof (cases "length T + 1 < unat k")
      case True
      have "key_bytes x \<notin> fst ` set (mg_counters h)" using n by (simp add: map_of_eq_None_iff)
      with True None n s m len assms(2) show ?thesis
        by (auto simp: misra_step_def mg_record_def Let_def same_counters_def map_put_sorted map_add_def split: option.split)
    next
      case False
      with None n s m len assms(2) show ?thesis
        by (simp add: misra_step_def mg_record_def Let_def same_counters_def misra_decrement_sorted
            mg_decrement_distinct misra_decrement_lookup [OF sorted_keys_distinct] mg_decrement_lookup)
    qed
  qed
qed

lemma misra_run_same:
  assumes "mg_new k = Inr h0"
  shows "same_counters (misra_run k xs) (mg_counters (fold (\<lambda>x h. mg_record h (key_bytes x)) xs h0)) \<and>
    mg_k (fold (\<lambda>x h. mg_record h (key_bytes x)) xs h0) = k"
proof (induction xs rule: rev_induct)
  case Nil
  then show ?case using assms by (auto simp: misra_run_def mg_new_def same_counters_def split: if_splits)
next
  case (snoc x xs)
  then show ?case by (simp add: misra_run_def misra_step_same)
qed

lemma exact_counts_lookup:
  "map_of (exact_counts xs) q = (if q \<in> set xs then Some (of_nat (count_list xs q)) else None)"
proof (induction xs rule: rev_induct)
  case (snoc x xs)
  then show ?case by (auto simp: exact_counts_def)
qed (simp add: exact_counts_def)

lemma exact_counts_estimate: "misra_estimate (exact_counts xs) q = of_nat (count_list xs q)"
  by (auto simp: misra_estimate_def exact_counts_lookup)

section \<open>The comparison\<close>

lemma cd_stream:
  assumes "w \<noteq> 0"
  shows "\<exists>sk. fold_res (\<lambda>x (sk, mg, ex).
           bind_res (cd_insert sk x) (\<lambda>sk. Inr (sk, mg_record mg (key_bytes x), hm_record ex (key_bytes x))))
         xs (cd_new w d, mg0, ex0) =
       Inr (sk, fold (\<lambda>x h. mg_record h (key_bytes x)) xs mg0, fold (\<lambda>x h. hm_record h (key_bytes x)) xs ex0) \<and>
     cms_inv (to_cms sk) (map key_bytes xs)"
proof (induction xs rule: rev_induct)
  case Nil
  have "to_cms (cd_new w d) = cms_new w d" by (simp add: to_cms_def cd_new_def cms_new_def)
  then show ?case using cms_new_inv [OF assms] by simp
next
  case (snoc x xs)
  then obtain sk where sk: "fold_res (\<lambda>x (sk, mg, ex).
           bind_res (cd_insert sk x) (\<lambda>sk. Inr (sk, mg_record mg (key_bytes x), hm_record ex (key_bytes x))))
         xs (cd_new w d, mg0, ex0) =
       Inr (sk, fold (\<lambda>x h. mg_record h (key_bytes x)) xs mg0, fold (\<lambda>x h. hm_record h (key_bytes x)) xs ex0)"
     "cms_inv (to_cms sk) (map key_bytes xs)" by blast
  from cms_record_inv [OF sk(2), of "key_bytes x"] obtain c' where
    c': "cms_record (to_cms sk) (key_bytes x) = Inr c'" "cms_inv c' (map key_bytes xs @ [key_bytes x])" by blast
  then have "map_sum id to_cms (cd_insert sk x) = Inr c'" by (simp add: cd_insert_cms)
  then obtain sk' where "cd_insert sk x = Inr sk'" "to_cms sk' = c'" by (cases "cd_insert sk x") auto
  with sk(1) c'(2) show ?case by (auto simp: fold_res_snoc)
qed

lemma mg_key_stream: "fold (\<lambda>x h. mg_record h (key_bytes x)) xs h = fold (\<lambda>x h. mg_record h x) (map key_bytes xs) h"
  by (simp add: fold_map comp_def)

lemma hm_key_stream: "hm_inv (fold (\<lambda>x h. hm_record h (key_bytes x)) xs hm_new) (map key_bytes xs)"
  by (induction xs rule: rev_induct) (simp_all add: hm_inv_new hm_inv_record)

lemma count_keys: "count_list (map key_bytes xs) (key_bytes q) = count_list xs q"
  by (rule count_list_map_inj) (rule injI, simp)

section \<open>Properties\<close>

text \<open>C32: The tool's copy of the sketch is the library's sketch: \<open>insert\<close> and \<open>query\<close> do what \<open>record\<close> and \<open>estimate\<close>
  do, for every size, key and state, traps included, and so does the constructor.\<close>

theorem cms_direct_is_sketch:
  "to_cms (cd_new w d) = cms_new w d \<and>
   map_sum id to_cms (cd_insert c key) = cms_record (to_cms c) (key_bytes key) \<and>
   cd_query c key = cms_estimate (to_cms c) (key_bytes key)"
  by (simp add: cd_insert_cms cd_query_cms) (simp add: to_cms_def cd_new_def cms_new_def)

text \<open>C27: The Misra-Gries trace is the library's algorithm, on an ordered map: after every stream both hold the same
  counters, the trace in key order; and the column that checks the error bound \<open>m/k\<close> always says \<open>yes\<close>.\<close>

theorem misra_trace_is_heavy_hitters:
  assumes "mg_new k = Inr h0" and "length xs < 2 ^ 64"
  shows "(let est = mg_estimate (fold (\<lambda>x h. mg_record h (key_bytes x)) xs h0) (key_bytes q) in
      misra_estimate (misra_run k xs) q = est \<and>
      sorted_wrt (<) (map fst (misra_run k xs)) \<and> length (misra_run k xs) \<le> unat k - 1 \<and>
      misra_row k xs q =
        ''    '' @ pad_right 8 (qu q) @ pad_left 6 (to_string (count_list xs q)) @ pad_left 12 (to_string (unat est)) @
        pad_left 14 (to_string (count_list xs q - unat est)) @ pad_left 10 ''yes'' @ [CHR 0x0A])"
proof -
  let ?h = "fold (\<lambda>x h. mg_record h (key_bytes x)) xs h0"
  have same: "same_counters (misra_run k xs) (mg_counters ?h)" using misra_run_same [OF assms(1)] by blast
  then have est: "misra_estimate (misra_run k xs) q = mg_estimate ?h (key_bytes q)"
    by (simp add: misra_estimate_def mg_estimate_def same_counters_def)
  have l: "length (map key_bytes xs) < 2 ^ 64" using assms(2) by simp
  have b: "unat (mg_estimate ?h (key_bytes q)) \<le> count_list xs q"
    "unat k * (count_list xs q - unat (mg_estimate ?h (key_bytes q))) \<le> length xs"
    "length (mg_counters ?h) \<le> unat k - 1"
    using mg_stream_bounds [OF assms(1) l, OF refl, of "key_bytes q"] by (simp_all add: mg_key_stream count_keys)
  then have sorted: "sorted_wrt (<) (map fst (misra_run k xs)) \<and> length (misra_run k xs) \<le> unat k - 1"
    using same same_counters_length [OF same] by (simp add: same_counters_def)
  let ?f = "of_nat (count_list xs q) :: u64" and ?e = "mg_estimate ?h (key_bytes q)"
  have k: "0 < unat k" using assms(1) by (auto simp: mg_new_def word_less_nat_alt split: if_splits)
  have "count_list xs q \<le> length xs" by (rule count_le_length)
  then have f: "unat ?f = count_list xs q" using assms(2) by (intro unat_of_nat_u64) simp
  have ge: "?e \<le> ?f" using b(1) by (simp add: word_le_nat_alt f)
  have gap: "unat (?f - ?e) = count_list xs q - unat ?e" using ge f by (simp add: unat_sub)
  also have "\<dots> \<le> length xs div unat k"
    using b(2) k by (simp add: less_eq_div_iff_mult_less_eq mult.commute)
  also have "\<dots> = unat (of_nat (length xs) div ucast k :: u64)"
  proof -
    have "unat (of_nat (length xs) :: u64) = length xs" by (rule unat_of_nat_u64 [OF assms(2)])
    moreover have "unat k < 2 ^ LENGTH(32)" by (rule unsigned_less)
    then have "unat (ucast k :: u64) = unat k" by (simp add: unsigned_ucast_eq take_bit_nat_eq_self)
    ultimately show ?thesis by (simp add: unat_div)
  qed
  finally have "?f - ?e \<le> of_nat (length xs) div ucast k" by (simp add: word_le_nat_alt)
  with ge est f gap have "misra_row k xs q =
        ''    '' @ pad_right 8 (qu q) @ pad_left 6 (to_string (count_list xs q)) @ pad_left 12 (to_string (unat ?e)) @
        pad_left 14 (to_string (count_list xs q - unat ?e)) @ pad_left 10 ''yes'' @ [CHR 0x0A]"
    by (simp add: misra_row_def exact_counts_estimate num_def Let_def)
  with est sorted show ?thesis by (simp only: Let_def simp_thms)
qed

text \<open>The comparison always comes out as the report says: on any stream and with any parameters the tool can run with, each row
  shows the exact count, and both of its checks (the sketch not below it, Misra-Gries not above it) say
  \<open>yes\<close>.\<close>

theorem comparison_says_yes:
  assumes "w \<noteq> 0" and "mg_new k = Inr h0" and "length xs < 2 ^ 64"
  shows "\<exists>rows. compare_rows xs qs w d k = Inr rows \<and>
    list_all2 (\<lambda>q row. \<exists>c m. row =
        ''    '' @ pad_right 8 (qu q) @ pad_left 8 (to_string (count_list xs q)) @ pad_left 8 c @ pad_left 10 m @
        pad_left 14 ''yes'' @ pad_left 14 ''yes'' @ [CHR 0x0A]) qs rows"
proof -
  let ?h = "fold (\<lambda>x h. mg_record h (key_bytes x)) xs h0"
  let ?ex = "fold (\<lambda>x h. hm_record h (key_bytes x)) xs hm_new"
  obtain sk where sk: "fold_res (\<lambda>x (sk, mg, ex).
           bind_res (cd_insert sk x) (\<lambda>sk. Inr (sk, mg_record mg (key_bytes x), hm_record ex (key_bytes x))))
         xs (cd_new w d, h0, hm_new) = Inr (sk, ?h, ?ex)" and inv: "cms_inv (to_cms sk) (map key_bytes xs)"
    using cd_stream [OF assms(1)] by blast
  have l: "length (map key_bytes xs) < 2 ^ 64" using assms(3) by simp
  have good: "\<exists>c. cd_query sk q = Inr c \<and> hm_estimate ?ex (key_bytes q) \<le> c \<and>
      mg_estimate ?h (key_bytes q) \<le> hm_estimate ?ex (key_bytes q) \<and>
      num (hm_estimate ?ex (key_bytes q)) = to_string (count_list xs q)" for q
  proof -
    obtain c where c: "cms_estimate (to_cms sk) (key_bytes q) = Inr c"
      using cms.estimate_ok [OF inv, of "key_bytes q"] by (auto simp: cms_ops_def)
    have "count_list xs q \<le> unat c"
      using cms.over [OF inv l, of "key_bytes q" c] c by (simp add: cms_ops_def count_keys)
    moreover have ex: "unat (hm_estimate ?ex (key_bytes q)) = count_list xs q"
      using hm.exact [OF hm_key_stream [of xs] l, of 0 "\<lambda>_. 0" "key_bytes q"] by (simp add: hm_ops_def count_keys)
    moreover have "unat (mg_estimate ?h (key_bytes q)) \<le> count_list xs q"
      using mg_stream_bounds [OF assms(2) l, OF refl, of "key_bytes q"] by (simp add: mg_key_stream count_keys)
    ultimately show ?thesis using c by (simp add: cd_query_cms word_le_nat_alt num_def)
  qed
  define row where "row = (\<lambda>q. case cd_query sk q of Inl _ \<Rightarrow> '''' | Inr c \<Rightarrow>
    compare_row q (hm_estimate ?ex (key_bytes q)) c (mg_estimate ?h (key_bytes q)))"
  have "fold_res (\<lambda>q rows. bind_res (cd_query sk q) (\<lambda>c.
           Inr (rows @ [compare_row q (hm_estimate ?ex (key_bytes q)) c (mg_estimate ?h (key_bytes q))])))
         qs acc = Inr (acc @ map row qs)" for acc
  proof (induction qs arbitrary: acc)
    case (Cons q qs)
    from good [of q] obtain c where "cd_query sk q = Inr c" by blast
    with Cons show ?case by (simp add: row_def)
  qed simp
  then have "compare_rows xs qs w d k = Inr (map row qs)" by (simp add: compare_rows_def assms(2) sk)
  moreover have "\<exists>c m. row q =
        ''    '' @ pad_right 8 (qu q) @ pad_left 8 (to_string (count_list xs q)) @ pad_left 8 c @ pad_left 10 m @
        pad_left 14 ''yes'' @ pad_left 14 ''yes'' @ [CHR 0x0A]" for q
  proof -
    obtain c where "cd_query sk q = Inr c" "hm_estimate ?ex (key_bytes q) \<le> c"
      "mg_estimate ?h (key_bytes q) \<le> hm_estimate ?ex (key_bytes q)"
      "num (hm_estimate ?ex (key_bytes q)) = to_string (count_list xs q)" using good by blast
    then show ?thesis
      by (intro exI [of _ "num c"] exI [of _ "num (mg_estimate ?h (key_bytes q))"])
        (simp add: row_def compare_row_def)
  qed
  ultimately show ?thesis by (auto simp: list_all2_map2 list_all2_same)
qed

theorem misra_trace_is_heavy_hitters_witness:
  "misra_estimate (misra_run 3 demo_stream) ''a'' =
     mg_estimate (fold (\<lambda>x h. mg_record h (key_bytes x)) demo_stream \<lparr>mg_k = 3, mg_n = 0, mg_counters = []\<rparr>) (key_bytes ''a'') \<and>
   misra_estimate (misra_run 3 demo_stream) ''a'' = 2"
proof -
  have n: "mg_new 3 = Inr \<lparr>mg_k = 3, mg_n = 0, mg_counters = []\<rparr>" by (simp add: mg_new_def)
  have l: "length demo_stream < 2 ^ 64" by (simp add: demo_stream_def)
  have "misra_estimate (misra_run 3 demo_stream) ''a'' = 2" by code_simp
  with misra_trace_is_heavy_hitters [OF n l, of "''a''"] show ?thesis by (simp only: Let_def simp_thms)
qed

theorem comparison_says_yes_witness:
  "\<exists>rows. compare_rows demo_stream demo_queries 4 2 3 = Inr rows \<and> length rows = 5"
proof -
  have n: "mg_new 3 = Inr \<lparr>mg_k = 3, mg_n = 0, mg_counters = []\<rparr>" by (simp add: mg_new_def)
  have l: "length demo_stream < 2 ^ 64" by (simp add: demo_stream_def)
  have w: "(4 :: u32) \<noteq> 0" by simp
  from comparison_says_yes [OF w n l, of demo_queries 2] obtain rows where
    "compare_rows demo_stream demo_queries 4 2 3 = Inr rows" "length rows = length demo_queries"
    by (auto dest: list_all2_lengthD)
  then show ?thesis by (simp add: demo_queries_def)
qed

end
