(* ===== verification/TarjanSteps.thy ===== *)
theory TarjanSteps
  imports Tarjan
begin

text \<open>
  How long \<open>TarjanSCC::find_sccs\<close> (\<open>libdsa/src/graph/tarjan.cpp\<close>) runs: the iterations of its loop, counted
  over the whole search. The loops of \<open>tarjan_loop\<close> and \<open>tarjan_from\<close> are given again as relations that count,
  on the same step \<open>tarjan_step\<close>.
\<close>

section \<open>Counting the iterations\<close>

inductive loop_run :: "graph \<Rightarrow> frame list \<Rightarrow> tarjan \<Rightarrow> nat \<Rightarrow> tarjan \<Rightarrow> bool" for g where
  idle: "loop_run g [] t 0 t"
| iterate: "tarjan_step g f fs t = Inr (fs', t') \<Longrightarrow> loop_run g fs' t' n r \<Longrightarrow> loop_run g (f # fs) t (Suc n) r"

inductive search_run :: "graph \<Rightarrow> u32 list \<Rightarrow> tarjan \<Rightarrow> nat \<Rightarrow> tarjan \<Rightarrow> bool" for g where
  finished: "search_run g [] t 0 t"
| visited: "disc t v \<noteq> None \<Longrightarrow> search_run g vs t n r \<Longrightarrow> search_run g (v # vs) t n r"
| start: "disc t v = None \<Longrightarrow> loop_run g [(v, neighbors g v, 0)] (discover v t) m t' \<Longrightarrow>
    search_run g vs t' n r \<Longrightarrow> search_run g (v # vs) t (m + n) r"

inductive_cases loop_run_NilE: "loop_run g [] t n r"
inductive_cases loop_run_ConsE: "loop_run g (f # fs) t n r"
inductive_cases search_run_NilE: "search_run g [] t n r"
inductive_cases search_run_ConsE: "search_run g (v # vs) t n r"

text \<open>The relations are the functions with a count: what they reach is what the functions return.\<close>

lemma loop_run_loop: "loop_run g fs t n r \<Longrightarrow> tarjan_loop g fs t = Inr r"
  by (induction rule: loop_run.induct) simp_all

lemma loop_run_count: "loop_run g fs t n r \<Longrightarrow> loop_run g fs t n' r' \<Longrightarrow> n' = n"
  by (induction arbitrary: n' rule: loop_run.induct) (auto elim!: loop_run_NilE loop_run_ConsE)

lemma search_run_fold: "search_run g vs t n r \<Longrightarrow> fold_res (tarjan_from g) vs t = Inr r"
  by (induction rule: search_run.induct) (auto simp: tarjan_from_def dest: loop_run_loop)

lemma search_run_count: "search_run g vs t n r \<Longrightarrow> search_run g vs t n' r' \<Longrightarrow> n' = n"
proof (induction arbitrary: n' rule: search_run.induct)
  case (start t v m t' vs n r)
  from start.prems start.hyps(1) obtain m' t'' n'' where
    c: "n' = m' + n''" "loop_run g [(v, neighbors g v, 0)] (discover v t) m' t''" "search_run g vs t'' n'' r'"
    by (auto elim: search_run_ConsE)
  have "Inr t'' = (Inr t' :: tarjan res)"
    by (rule trans [OF loop_run_loop [OF c(2), symmetric] loop_run_loop [OF start.hyps(2)]])
  with c start.IH loop_run_count [OF start.hyps(2)] show ?case by auto
qed (auto elim: search_run_NilE search_run_ConsE)

section \<open>The work\<close>

text \<open>An undiscovered vertex costs one iteration and one more for each of its neighbours.\<close>

definition work :: "graph \<Rightarrow> tarjan \<Rightarrow> nat" where
  "work g t = (\<Sum>v \<in> verts g - dom (disc t). Suc (length (neighbors g v)))"

definition within :: "graph \<Rightarrow> frame list \<Rightarrow> bool" where
  "within g fs \<longleftrightarrow> (\<forall>(u, ns, idx) \<in> set fs. set ns \<subseteq> verts g)"

lemma finite_verts: "finite (verts g)"
  by (simp add: verts_def)

lemma neighbors_within: "graph_ok g \<Longrightarrow> set (neighbors g u) \<subseteq> verts g"
  using edges_verts by (auto simp: edges_iff)

lemma work_discover:
  assumes "v \<in> verts g" and "disc t v = None"
  shows "work g (discover v t) + Suc (length (neighbors g v)) = work g t"
proof -
  have "verts g - dom (disc (discover v t)) = (verts g - dom (disc t)) - {v}" by (auto simp: discover_def)
  moreover have "v \<in> verts g - dom (disc t)" using assms by auto
  moreover have "finite (verts g - dom (disc t))" using finite_verts by blast
  ultimately have "(\<Sum>v \<in> verts g - dom (disc t). Suc (length (neighbors g v))) = Suc (length (neighbors g v)) +
      (\<Sum>v \<in> verts g - dom (disc (discover v t)). Suc (length (neighbors g v)))"
    by (simp only: sum.remove)
  then show ?thesis unfolding work_def by linarith
qed

lemma work_same: "disc t' = disc t \<Longrightarrow> work g t' = work g t"
  by (simp add: work_def)

lemma work_step:
  assumes "graph_ok g" and "within g (f # fs)" and "tarjan_step g f fs t = Inr (fs', t')"
  shows "within g fs' \<and> Suc (work g t' + work_left fs') = work g t + work_left (f # fs)"
proof -
  obtain u ns idx where f: "f = (u, ns, idx)" by (cases f)
  show ?thesis
  proof (cases "idx < length ns")
    case True
    let ?v = "ns ! idx"
    have v: "?v \<in> verts g" using assms(2) f True by (auto simp: within_def)
    show ?thesis
    proof (cases "disc t ?v = None")
      case new: True
      then have "fs' = (?v, neighbors g ?v, 0) # (u, ns, idx + 1) # fs" "t' = discover ?v t"
        using assms(3) f True by (simp_all add: tarjan_step_def Let_def)
      with work_discover [OF v new] neighbors_within [OF assms(1)] assms(2) f True show ?thesis
        by (auto simp: within_def work_left_def)
    next
      case False
      then have "fs' = (u, ns, idx + 1) # fs" "disc t' = disc t"
        using assms(3) f True by (auto simp: tarjan_step_def Let_def lower_def split: if_splits)
      with work_same [of t' t g] assms(2) f True show ?thesis by (simp add: within_def work_left_def)
    qed
  next
    case False
    then have "fs' = fs \<and> disc t' = disc t"
      using assms(3) f by (cases "int_at (low t) u = int_at (disc t) u")
        (auto simp: tarjan_step_def bind_res_eq_Inr return_to_disc dest: close_component_disc)
    with work_same [of t' t g] assms(2) f False show ?thesis by (simp add: within_def work_left_def)
  qed
qed

lemma loop_runs:
  "graph_ok g \<Longrightarrow> tarjan_loop g fs t = Inr r \<Longrightarrow> within g fs \<Longrightarrow>
    \<exists>n. loop_run g fs t n r \<and> n + work g r = work g t + work_left fs"
proof (induction g fs t rule: tarjan_loop.induct)
  case (1 g t)
  then show ?case by (auto simp: work_left_def intro: loop_run.idle)
next
  case (2 g f fs t)
  then obtain fs' t' where s: "tarjan_step g f fs t = Inr (fs', t')" "tarjan_loop g fs' t' = Inr r"
    by (auto simp: bind_res_eq_Inr)
  note step = work_step [OF 2(2,4) s(1)]
  from 2(1) [OF s(1) refl 2(2) s(2)] step obtain n where "loop_run g fs' t' n r" "n + work g r = work g t' + work_left fs'"
    by blast
  with step s(1) show ?case by (intro exI [of _ "Suc n"]) (simp add: loop_run.iterate)
qed

lemma search_runs:
  assumes "graph_ok g"
  shows "fold_res (tarjan_from g) vs t = Inr r \<Longrightarrow> set vs \<subseteq> verts g \<Longrightarrow> \<exists>n. search_run g vs t n r \<and> n + work g r = work g t"
proof (induction vs arbitrary: t)
  case Nil
  then show ?case by (auto intro: search_run.finished)
next
  case (Cons v vs)
  then obtain t' where t': "tarjan_from g v t = Inr t'" "fold_res (tarjan_from g) vs t' = Inr r"
    by (auto simp: bind_res_eq_Inr)
  obtain n where n: "search_run g vs t' n r" "n + work g r = work g t'" using Cons.IH [OF t'(2)] Cons.prems(2) by auto
  show ?case
  proof (cases "disc t v = None")
    case True
    then have "tarjan_loop g [(v, neighbors g v, 0)] (discover v t) = Inr t'" using t'(1) by (simp add: tarjan_from_def)
    moreover have "within g [(v, neighbors g v, 0)]" using neighbors_within [OF assms] by (simp add: within_def)
    ultimately obtain m where "loop_run g [(v, neighbors g v, 0)] (discover v t) m t'"
      "m + work g t' = work g (discover v t) + work_left [(v, neighbors g v, 0)]"
      using loop_runs [OF assms] by blast
    with True n work_discover [OF _ True, of g] Cons.prems(2) show ?thesis
      by (intro exI [of _ "m + n"]) (simp add: search_run.start work_left_def)
  next
    case False
    with t' n show ?thesis by (auto simp: tarjan_from_def intro: search_run.visited)
  qed
qed

lemma work_start: "graph_ok g \<Longrightarrow> work g tarjan_new = num_vertices g + num_edges g"
proof -
  assume ok: "graph_ok g"
  have "edges g = Sigma (verts g) (\<lambda>u. set (neighbors g u))"
    using edges_verts [OF ok] by (auto simp: edges_iff)
  then have "card (edges g) = (\<Sum>u \<in> verts g. card (set (neighbors g u)))" by (simp add: card_SigmaI finite_verts)
  then have "card (edges g) = (\<Sum>u \<in> verts g. length (neighbors g u))" by (simp add: distinct_card distinct_neighbors [OF ok])
  moreover have "num_edges g = card (edges g)" using ok by (simp add: num_edges_def graph_ok_def)
  ultimately show ?thesis by (simp add: work_def tarjan_new_def sum.distrib sum_Suc num_vertices_card [OF ok])
qed

section \<open>Property\<close>

text \<open>C31: Tarjan's detector ends after exactly \<open>|V| + |E|\<close> iterations of its loop, counted over the whole search, on every
  graph: it is linear, whatever the order of the vertices and of their neighbours; and the search that
  takes them returns the components of \<open>find_sccs\<close>.\<close>

theorem tarjan_takes_linear_time:
  assumes "graph_ok g"
  shows "\<exists>t. tarjan_sccs g = Inr (sccs t) \<and>
    (\<forall>n r. search_run g (vertices g) tarjan_new n r \<longleftrightarrow> n = num_vertices g + num_edges g \<and> r = t)"
proof -
  obtain t where t: "fold_res (tarjan_from g) (vertices g) tarjan_new = Inr t" "dom (disc t) = verts g"
    by (rule tarjan_search [OF assms])
  obtain n where n: "search_run g (vertices g) tarjan_new n t" "n + work g t = work g tarjan_new"
    using search_runs [OF assms t(1)] by (auto simp: set_vertices)
  then have "n = num_vertices g + num_edges g" using work_start [OF assms] t(2) by (simp add: work_def)
  moreover have "n' = n \<and> r = t" if "search_run g (vertices g) tarjan_new n' r" for n' r
    using search_run_count [OF n(1) that] search_run_fold [OF that] t(1) by simp
  moreover have "tarjan_sccs g = Inr (sccs t)" using t(1) by (simp add: tarjan_sccs_def)
  ultimately show ?thesis using n(1) by (intro exI [of _ t]) blast
qed

theorem tarjan_takes_linear_time_witness:
  "\<exists>r. search_run (graph_run [AddEdge 1 2, AddEdge 2 3, AddEdge 3 1, AddEdge 3 4])
     (vertices (graph_run [AddEdge 1 2, AddEdge 2 3, AddEdge 3 1, AddEdge 3 4])) tarjan_new 8 r"
proof -
  let ?g = "graph_run [AddEdge 1 2, AddEdge 2 3, AddEdge 3 1, AddEdge 3 4]"
  have "num_vertices ?g + num_edges ?g = 8" by code_simp
  with tarjan_takes_linear_time [OF graph_run_ok, of "[AddEdge 1 2, AddEdge 2 3, AddEdge 3 1, AddEdge 3 4]"]
  show ?thesis by auto
qed

end
